(* ===== verification/Prelude.thy ===== *)
theory Prelude
  imports Main "HOL-Library.Word" "HOL-Library.AList"
begin

text \<open>
  The prelude of the development: the machine integers of the Rust sources, the saturating
  arithmetic of the standard library, the error kinds of \<open>std::io\<close>, and the generic facts on
  words, association lists and options that the components share.  The collection
  \<open>word_order\<close> gathers the facts that turn a comparison of words into one of naturals.
\<close>

section \<open>Integers\<close>

type_synonym u8 = "8 word"
type_synonym u32 = "32 word"
type_synonym u64 = "64 word"

named_theorems word_order \<open>comparisons and arithmetic of words, read on the naturals\<close>

declare word_less_nat_alt [word_order] word_le_nat_alt [word_order]

text \<open>\<open>saturating_add\<close> and \<open>saturating_sub\<close> of the Rust integer types.\<close>

definition sat_add :: "'a::len word \<Rightarrow> 'a word \<Rightarrow> 'a word" where
  "sat_add a b = (if a + b < a then - 1 else a + b)"

definition sat_sub :: "'a::len word \<Rightarrow> 'a word \<Rightarrow> 'a word" where
  "sat_sub a b = (if a < b then 0 else a - b)"

lemma add_overflows_iff: "a + b < (a :: 'a::len word) \<longleftrightarrow> 2 ^ LENGTH('a) \<le> unat a + unat b"
proof -
  have "a \<le> a + b \<longleftrightarrow> unat a + unat b < 2 ^ LENGTH('a)"
    by (rule no_olen_add_nat)
  then show ?thesis by (simp only: not_le [symmetric])  auto
qed

lemma unat_sat_add [word_order]:
  "unat (sat_add a b) = min (unat a + unat b) (2 ^ LENGTH('a) - 1)" for a :: "'a::len word"
proof (cases "unat a + unat b < 2 ^ LENGTH('a)")
  case True
  then have "unat (a + b) = unat a + unat b" by (simp only: unat_add_lem)
  with True show ?thesis by (simp add: sat_add_def add_overflows_iff)
next
  case False
  have "unat (- 1 :: 'a word) = 2 ^ LENGTH('a) - 1" by (simp add: unsigned_minus_1_eq_mask mask_eq_exp_minus_1)
  with False show ?thesis by (simp add: sat_add_def add_overflows_iff)
qed

lemma unat_sat_sub [word_order]: "unat (sat_sub a b) = unat a - unat b"
  by (simp add: sat_sub_def word_less_nat_alt unat_sub word_le_nat_alt)

section \<open>Errors of the standard library\<close>

text \<open>
  \<open>io::Error\<close> is an error number of the system or a kind with a message; messages are not
  modelled.  \<open>kind_of_errno\<close> is the decoding \<open>io::Error::kind\<close> performs on Linux for the numbers
  the sources rely on; every other number decodes to a kind they never match.
\<close>

datatype io_kind =
  NotFound | AlreadyExists | PermissionDenied | ConnectionRefused | ConnectionReset | ConnectionAborted
  | NotConnected | BrokenPipe | WriteZero | Interrupted | InvalidInput | InvalidData | UnexpectedEof | Unsupported | Other | Uncategorized

datatype io_error = Os int | Custom io_kind

abbreviation (input) EPERM :: int where "EPERM \<equiv> 1"
abbreviation (input) ENOENT :: int where "ENOENT \<equiv> 2"
abbreviation (input) EINTR :: int where "EINTR \<equiv> 4"
abbreviation (input) EIO :: int where "EIO \<equiv> 5"
abbreviation (input) ENXIO :: int where "ENXIO \<equiv> 6"
abbreviation (input) EACCES :: int where "EACCES \<equiv> 13"
abbreviation (input) EEXIST :: int where "EEXIST \<equiv> 17"
abbreviation (input) ENOTDIR :: int where "ENOTDIR \<equiv> 20"
abbreviation (input) EISDIR :: int where "EISDIR \<equiv> 21"
abbreviation (input) EINVAL :: int where "EINVAL \<equiv> 22"
abbreviation (input) ENOTTY :: int where "ENOTTY \<equiv> 25"
abbreviation (input) EPIPE :: int where "EPIPE \<equiv> 32"
abbreviation (input) ERANGE :: int where "ERANGE \<equiv> 34"
abbreviation (input) ENOTEMPTY :: int where "ENOTEMPTY \<equiv> 39"
abbreviation (input) ENODATA :: int where "ENODATA \<equiv> 61"
abbreviation (input) EOPNOTSUPP :: int where "EOPNOTSUPP \<equiv> 95"
abbreviation (input) ECONNABORTED :: int where "ECONNABORTED \<equiv> 103"
abbreviation (input) ECONNRESET :: int where "ECONNRESET \<equiv> 104"
abbreviation (input) ENOTCONN :: int where "ENOTCONN \<equiv> 107"
abbreviation (input) ECONNREFUSED :: int where "ECONNREFUSED \<equiv> 111"

definition kind_of_errno :: "int \<Rightarrow> io_kind" where
  "kind_of_errno e =
     (if e = EPERM \<or> e = EACCES then PermissionDenied
      else if e = ENOENT then NotFound
      else if e = EEXIST then AlreadyExists
      else if e = EINTR then Interrupted
      else if e = EPIPE then BrokenPipe
      else if e = ECONNREFUSED then ConnectionRefused
      else if e = ECONNRESET then ConnectionReset
      else if e = ECONNABORTED then ConnectionAborted
      else if e = ENOTCONN then NotConnected
      else if e = EINVAL then InvalidInput
      else if e = EOPNOTSUPP then Unsupported
      else Uncategorized)"

fun kind_of :: "io_error \<Rightarrow> io_kind" where
  "kind_of (Os e) = kind_of_errno e"
| "kind_of (Custom k) = k"

fun raw_os_error :: "io_error \<Rightarrow> int option" where
  "raw_os_error (Os e) = Some e"
| "raw_os_error (Custom k) = None"

section \<open>Association lists\<close>

text \<open>A \<open>HashMap\<close> is an association list with distinct keys; these are its set-level facts.\<close>

lemma set_alist_update:
  "distinct (map fst xs) \<Longrightarrow>
     set (AList.update k v xs) = insert (k, v) {e \<in> set xs. fst e \<noteq> k}"
  by (induction xs) (auto simp: image_iff)

lemma length_alist_update:
  "length (AList.update k v xs) = (if k \<in> fst ` set xs then length xs else Suc (length xs))"
  by (induction xs) auto

lemma set_alist_delete: "set (AList.delete k xs) = {e \<in> set xs. fst e \<noteq> k}"
  by (auto simp: AList.delete_eq)

lemma length_alist_delete_less:
  "k \<in> fst ` set xs \<Longrightarrow> length (AList.delete k xs) < length xs"
  by (auto simp: AList.delete_eq intro: length_filter_less)

end
