(* ===== verification/Span.thy ===== *)
theory Span
  imports Prelude
begin

text \<open>
  The span of a transfer, \<open>Span\<close> of \<open>crates/hydration-protocol/src/lib.rs\<close>: an offset and
  a length, both \<open>u64\<close>, with the saturating end the source computes.  The meaning of a span
  is the set of the byte positions it covers, \<open>span_bytes\<close>; every operation is characterised
  by what it does to that set.
\<close>

section \<open>Identity of a file\<close>

text \<open>\<open>FileId\<close>: the pair the kernel hands over, never a path.\<close>

datatype file_id = FileId (fsid: u64) (ino: u64)

instantiation file_id :: linorder
begin

definition less_eq_file_id :: "file_id \<Rightarrow> file_id \<Rightarrow> bool" where
  "less_eq_file_id a b \<longleftrightarrow> fsid a < fsid b \<or> (fsid a = fsid b \<and> ino a \<le> ino b)"

definition less_file_id :: "file_id \<Rightarrow> file_id \<Rightarrow> bool" where
  "less_file_id a b \<longleftrightarrow> fsid a < fsid b \<or> (fsid a = fsid b \<and> ino a < ino b)"

instance
  by standard (auto simp: less_eq_file_id_def less_file_id_def intro: file_id.expand)

end

section \<open>Spans\<close>

record span =
  sp_offset :: u64
  sp_len :: u64

definition span_new :: "u64 \<Rightarrow> u64 \<Rightarrow> span" where
  "span_new offset n = \<lparr>sp_offset = offset, sp_len = n\<rparr>"

definition span_whole :: "u64 \<Rightarrow> span" where
  "span_whole sz = \<lparr>sp_offset = 0, sp_len = sz\<rparr>"

definition span_end :: "span \<Rightarrow> u64" where
  "span_end s = sat_add (sp_offset s) (sp_len s)"

definition span_is_empty :: "span \<Rightarrow> bool" where
  "span_is_empty s \<longleftrightarrow> sp_len s = 0"

definition span_is_whole :: "span \<Rightarrow> u64 \<Rightarrow> bool" where
  "span_is_whole s sz \<longleftrightarrow> sp_offset s = 0 \<and> sp_len s = sz"

definition span_clamped_to :: "span \<Rightarrow> u64 \<Rightarrow> span" where
  "span_clamped_to s sz =
     (let offset = min (sp_offset s) sz
      in \<lparr>sp_offset = offset, sp_len = sat_sub (min (span_end s) sz) offset\<rparr>)"

definition span_intersect :: "span \<Rightarrow> span \<Rightarrow> span option" where
  "span_intersect s t =
     (let offset = max (sp_offset s) (sp_offset t);
          en = min (span_end s) (span_end t)
      in if offset < en then Some (span_new offset (en - offset)) else None)"

text \<open>The byte positions of a span.\<close>

definition span_bytes :: "span \<Rightarrow> u64 set" where
  "span_bytes s = {sp_offset s..<span_end s}"

text \<open>
  A span that says what it covers: one whose length is not zero covers a byte.  The only spans that
  are not start at \<open>u64::MAX\<close>, where a half-open interval cannot hold the last position.
\<close>

definition span_ok :: "span \<Rightarrow> bool" where
  "span_ok s \<longleftrightarrow> sp_len s = 0 \<or> sp_offset s < span_end s"

section \<open>Facts about spans\<close>

lemma span_new_sel [simp]:
  "sp_offset (span_new a n) = a" "sp_len (span_new a n) = n"
  by (simp_all add: span_new_def)

lemma span_whole_sel [simp]:
  "sp_offset (span_whole n) = 0" "sp_len (span_whole n) = n"
  by (simp_all add: span_whole_def)

lemma sat_add_diff [simp]: "a \<le> b \<Longrightarrow> sat_add a (b - a) = (b :: u64)"
  by (auto simp: sat_add_def)

lemma span_end_new [simp]: "a \<le> b \<Longrightarrow> span_end (span_new a (b - a)) = b"
  by (simp add: span_end_def)

lemma sat_add_zero_left [simp]: "sat_add 0 a = (a :: 'a::len word)"
  by (simp add: sat_add_def)

lemma sat_add_zero_right [simp]: "sat_add a 0 = (a :: 'a::len word)"
  by (simp add: sat_add_def)

lemma le_sat_add: "a \<le> sat_add a (b :: 'a::len word)"
  by (auto simp: sat_add_def not_less)

lemma span_end_whole [simp]: "span_end (span_whole n) = n"
  by (simp add: span_end_def)

lemma span_offset_le_end [simp]: "sp_offset s \<le> span_end s"
  by (simp add: span_end_def le_sat_add)

lemma span_bytes_whole [simp]: "span_bytes (span_whole n) = {..<n}"
  by (auto simp: span_bytes_def)

lemma span_bytes_new: "a \<le> b \<Longrightarrow> span_bytes (span_new a (b - a)) = {a..<b}"
  by (simp add: span_bytes_def)

lemma sat_sub_eq: "b \<le> a \<Longrightarrow> sat_sub a b = (a - b :: 'a::len word)"
  by (auto simp: sat_sub_def)

lemma span_ok_new [simp]: "a \<le> b \<Longrightarrow> span_ok (span_new a (b - a))"
  by (auto simp: span_ok_def)

lemma span_ok_whole [simp]: "span_ok (span_whole n)"
  by (auto simp: span_ok_def word_gt_0)

lemma span_is_emptyD: "span_is_empty s \<Longrightarrow> span_bytes s = {}"
  by (simp add: span_is_empty_def span_bytes_def span_end_def)

lemma span_clamped_to_eq:
  fixes s :: span and sz :: u64
  defines "a \<equiv> min (sp_offset s) sz" and "b \<equiv> (if sp_offset s \<le> sz then min (span_end s) sz else sz)"
  shows "span_clamped_to s sz = span_new a (b - a)" and "a \<le> b"
proof -
  have "sz \<le> span_end s" if "\<not> sp_offset s \<le> sz"
    using that span_offset_le_end [of s] by (meson le_cases order.trans)
  then have b: "b = min (span_end s) sz" by (simp add: b_def)
  show "a \<le> b" by (simp add: a_def b_def)
  then show "span_clamped_to s sz = span_new a (b - a)"
    unfolding b a_def by (simp add: span_clamped_to_def span_new_def Let_def sat_sub_eq)
qed

lemma span_end_clamped:
  "span_end (span_clamped_to s sz) = (if sp_offset s \<le> sz then min (span_end s) sz else sz)"
  unfolding span_clamped_to_eq(1) by (rule span_end_new) (rule span_clamped_to_eq(2))

lemma span_offset_clamped [simp]: "sp_offset (span_clamped_to s sz) = min (sp_offset s) sz"
  by (simp add: span_clamped_to_def Let_def)

lemma span_end_clamped_le [simp]: "span_end (span_clamped_to s sz) \<le> sz"
  by (simp add: span_end_clamped)

lemma span_bytes_clamped: "span_bytes (span_clamped_to s sz) = span_bytes s \<inter> {..<sz}"
  by (auto simp: span_bytes_def span_end_clamped)

lemma span_intersect_None: "span_intersect s t = None \<longleftrightarrow> span_bytes s \<inter> span_bytes t = {}"
  by (auto simp: span_intersect_def Let_def span_bytes_def max_def min_def not_less split: if_splits)

lemma span_intersect_SomeD:
  fixes s t u :: span
  assumes "span_intersect s t = Some u"
  defines "a \<equiv> max (sp_offset s) (sp_offset t)" and "b \<equiv> min (span_end s) (span_end t)"
  shows "a < b" and "u = span_new a (b - a)"
  using assms(1) unfolding a_def b_def
  by (simp_all only: span_intersect_def Let_def option.inject option.distinct split: if_splits)

lemma span_intersect_bytes:
  "span_intersect s t = Some u \<Longrightarrow> span_bytes u = span_bytes s \<inter> span_bytes t"
  by (frule span_intersect_SomeD(1), drule span_intersect_SomeD(2))
    (auto simp only: span_bytes_new less_imp_le, auto simp: span_bytes_def)

lemma span_intersect_commute: "span_intersect s t = span_intersect t s"
  by (simp add: span_intersect_def max.commute min.commute)

lemma span_ok_clamped [simp]: "span_ok (span_clamped_to s sz)"
  unfolding span_clamped_to_eq(1) by (rule span_ok_new) (rule span_clamped_to_eq(2))

lemma span_ok_intersect: "span_intersect s t = Some u \<Longrightarrow> span_ok u"
  by (frule span_intersect_SomeD(1), drule span_intersect_SomeD(2)) (simp only: span_ok_new less_imp_le)

end
