(* ===== verification/Ranges.thy ===== *)
theory Ranges
  imports Span
begin

text \<open>
  The set of byte ranges a worker has already put into a placeholder: \<open>Ranges\<close> of
  \<open>crates/hydrationd/src/partial.rs\<close>, a sorted vector of half-open intervals of which no two
  touch.  Its abstraction is a set of byte positions; the locale \<open>byte_ranges\<close> states the
  contract the worker relies on, and its interpretation proves it for the model of the code.
\<close>

section \<open>The interface the worker relies on\<close>

text \<open>
  \<open>bytes\<close> is the abstraction.  \<open>covers\<close> must decide inclusion and \<open>missing\<close> must list
  exactly what is absent, in order, without empty spans.
\<close>

locale byte_ranges =
  fixes empty :: "'r"
    and add :: "'r \<Rightarrow> span \<Rightarrow> 'r"
    and covers :: "'r \<Rightarrow> span \<Rightarrow> bool"
    and missing :: "'r \<Rightarrow> span \<Rightarrow> span list"
    and bytes :: "'r \<Rightarrow> u64 set"
    and invar :: "'r \<Rightarrow> bool"
  assumes bytes_empty: "bytes empty = {}"
    and bytes_add: "invar r \<Longrightarrow> span_ok s \<Longrightarrow> bytes (add r s) = bytes r \<union> span_bytes s"
    and covers_iff: "invar r \<Longrightarrow> span_ok s \<Longrightarrow> covers r s \<longleftrightarrow> span_bytes s \<subseteq> bytes r"
    and bytes_missing: "invar r \<Longrightarrow> (\<Union>t\<in>set (missing r s). span_bytes t) = span_bytes s - bytes r"
    and missing_nonempty:
      "invar r \<Longrightarrow> t \<in> set (missing r s) \<Longrightarrow> span_bytes t \<noteq> {} \<and> span_ok t"
    and invar_empty: "invar empty"
    and invar_add: "invar r \<Longrightarrow> span_ok s \<Longrightarrow> invar (add r s)"
begin

lemma missing_empty_iff_covers:
  "invar r \<Longrightarrow> span_ok s \<Longrightarrow> missing r s = [] \<longleftrightarrow> covers r s"
proof -
  assume r: "invar r" and s: "span_ok s"
  have "missing r s = [] \<longleftrightarrow> (\<Union>t\<in>set (missing r s). span_bytes t) = {}"
    using missing_nonempty [OF r, of _ s] by (cases "missing r s") auto
  also have "\<dots> \<longleftrightarrow> covers r s"
    by (auto simp: bytes_missing [OF r] covers_iff [OF r s])
  finally show ?thesis .
qed

lemma invar_foldl_add: "invar r \<Longrightarrow> list_all span_ok ss \<Longrightarrow> invar (foldl add r ss)"
  by (induction ss arbitrary: r) (auto simp: invar_add)

lemma bytes_foldl_add:
  "invar r \<Longrightarrow> list_all span_ok ss \<Longrightarrow>
     bytes (foldl add r ss) = bytes r \<union> (\<Union>s\<in>set ss. span_bytes s)"
  by (induction ss arbitrary: r) (auto simp: bytes_add invar_add)

lemma missing_all_ok: "invar r \<Longrightarrow> list_all span_ok (missing r s)"
  using missing_nonempty by (auto simp: list_all_iff)

text \<open>
  Filling everything that is missing from a span makes every part of it covered: what lets the
  worker fetch more than was demanded and still answer exactly the demand.
\<close>

lemma fill_missing_covers_part:
  "invar r \<Longrightarrow> span_ok s \<Longrightarrow> span_bytes s \<subseteq> span_bytes t \<Longrightarrow>
     covers (foldl add r (missing r t)) s"
  by (auto simp: covers_iff invar_foldl_add bytes_foldl_add bytes_missing missing_all_ok)

end

section \<open>The model of the code\<close>

type_synonym ranges = "(u64 \<times> u64) list"

text \<open>
  \<open>partition_point\<close> of the standard library on a slice that is partitioned by the predicate,
  which the invariant guarantees for the one call there is.
\<close>

definition partition_point :: "('a \<Rightarrow> bool) \<Rightarrow> 'a list \<Rightarrow> nat" where
  "partition_point p xs = length (takeWhile p xs)"

definition insert_at :: "nat \<Rightarrow> 'a \<Rightarrow> 'a list \<Rightarrow> 'a list" where
  "insert_at i x xs = take i xs @ x # drop i xs"

text \<open>One step of the merge pass; the accumulator is the vector \<open>merged\<close>, last element first.\<close>

fun merge_step :: "ranges \<Rightarrow> u64 \<times> u64 \<Rightarrow> ranges" where
  "merge_step [] (s, e) = [(s, e)]"
| "merge_step ((ls, le) # rest) (s, e) =
     (if s \<le> le then (ls, max le e) # rest else (s, e) # (ls, le) # rest)"

definition merge_pass :: "ranges \<Rightarrow> ranges" where
  "merge_pass xs = rev (foldl merge_step [] xs)"

definition ranges_add :: "ranges \<Rightarrow> span \<Rightarrow> ranges" where
  "ranges_add r span =
     (if span_is_empty span then r
      else let start = sp_offset span; en = span_end span;
               at = partition_point (\<lambda>(s, _). s < start) r
           in merge_pass (insert_at at (start, en) r))"

definition ranges_covers :: "ranges \<Rightarrow> span \<Rightarrow> bool" where
  "ranges_covers r span \<longleftrightarrow>
     span_is_empty span \<or> (\<exists>(s, e) \<in> set r. s \<le> sp_offset span \<and> span_end span \<le> e)"

text \<open>
  The loop of \<open>missing\<close> over the stored ranges, from position \<open>at\<close> up to the end \<open>en\<close> of the
  question; \<open>break\<close> leaves for the final test, the early \<open>return\<close> skips it.
\<close>

fun missing_from :: "u64 \<Rightarrow> u64 \<Rightarrow> ranges \<Rightarrow> span list" where
  "missing_from at en [] = (if at < en then [span_new at (en - at)] else [])"
| "missing_from at en ((s, e) # rs) =
     (if e \<le> at then missing_from at en rs
      else if en \<le> s then (if at < en then [span_new at (en - at)] else [])
      else (let gap = (if at < s then [span_new at (s - at)] else []);
                at' = max at e
            in if en \<le> at' then gap else gap @ missing_from at' en rs))"

definition ranges_missing :: "ranges \<Rightarrow> span \<Rightarrow> span list" where
  "ranges_missing r span = missing_from (sp_offset span) (span_end span) r"

definition ranges_total :: "ranges \<Rightarrow> u64" where
  "ranges_total r = sum_list (map (\<lambda>(s, e). e - s) r)"

definition ranges_is_empty :: "ranges \<Rightarrow> bool" where
  "ranges_is_empty r \<longleftrightarrow> r = []"

section \<open>Meaning and invariant\<close>

definition ranges_bytes :: "ranges \<Rightarrow> u64 set" where
  "ranges_bytes r = (\<Union>(s, e)\<in>set r. {s..<e})"

text \<open>Sorted by start, every range inhabited, no two touching.\<close>

fun ranges_ok :: "ranges \<Rightarrow> bool" where
  "ranges_ok [] = True"
| "ranges_ok ((s, e) # rs) \<longleftrightarrow> s < e \<and> (\<forall>(s', e')\<in>set rs. e < s') \<and> ranges_ok rs"

lemma ranges_bytes_simps [simp]:
  "ranges_bytes [] = {}"
  "ranges_bytes ((s, e) # rs) = {s..<e} \<union> ranges_bytes rs"
  "ranges_bytes (xs @ ys) = ranges_bytes xs \<union> ranges_bytes ys"
  by (auto simp: ranges_bytes_def)

lemma ranges_ok_append:
  "ranges_ok (xs @ ys) \<longleftrightarrow>
     ranges_ok xs \<and> ranges_ok ys \<and> (\<forall>(s, e)\<in>set xs. \<forall>(s', e')\<in>set ys. e < s')"
  by (induction xs rule: ranges_ok.induct) auto

section \<open>Adding a span\<close>

lemma merge_step_bytes:
  "(acc \<noteq> [] \<Longrightarrow> fst (hd acc) \<le> s) \<Longrightarrow> s \<le> e \<Longrightarrow>
     ranges_bytes (merge_step acc (s, e)) = ranges_bytes acc \<union> {s..<e}"
  by (cases "(acc, (s, e))" rule: merge_step.cases) (auto simp: max_def not_le)

lemma merge_step_hd:
  "(acc \<noteq> [] \<Longrightarrow> fst (hd acc) \<le> s) \<Longrightarrow>
     merge_step acc (s, e) \<noteq> [] \<and> fst (hd (merge_step acc (s, e))) \<le> s"
  by (cases "(acc, (s, e))" rule: merge_step.cases) auto

lemma merge_step_ok:
  "ranges_ok (rev acc) \<Longrightarrow> (acc \<noteq> [] \<Longrightarrow> fst (hd acc) \<le> s) \<Longrightarrow> s < e \<Longrightarrow>
     ranges_ok (rev (merge_step acc (s, e)))"
  by (cases "(acc, (s, e))" rule: merge_step.cases)
    (auto simp: ranges_ok_append less_max_iff_disj not_le dest: order.strict_trans less_trans)

lemma ranges_bytes_rev [simp]: "ranges_bytes (rev r) = ranges_bytes r"
  by (simp add: ranges_bytes_def)

text \<open>The input of the merge pass: sorted by start, every range inhabited.\<close>

definition starts_sorted :: "ranges \<Rightarrow> bool" where
  "starts_sorted xs \<longleftrightarrow> sorted (map fst xs) \<and> (\<forall>(s, e)\<in>set xs. s < e)"

lemma foldl_merge_step:
  assumes "starts_sorted xs" "ranges_ok (rev acc)" "acc \<noteq> [] \<Longrightarrow> \<forall>x\<in>set xs. fst (hd acc) \<le> fst x"
  shows "ranges_ok (rev (foldl merge_step acc xs)) \<and>
    ranges_bytes (foldl merge_step acc xs) = ranges_bytes acc \<union> ranges_bytes xs"
  using assms
proof (induction xs arbitrary: acc)
  case Nil
  then show ?case by simp
next
  case (Cons x xs)
  obtain s e where x: "x = (s, e)" by (cases x)
  let ?acc = "merge_step acc (s, e)"
  have se: "s < e" and rest: "starts_sorted xs" and starts: "\<forall>y\<in>set xs. s \<le> fst y"
    using Cons.prems(1) by (auto simp: starts_sorted_def x)
  have hd: "acc \<noteq> [] \<Longrightarrow> fst (hd acc) \<le> s" using Cons.prems(3) by (auto simp: x)
  have "fst (hd ?acc) \<le> s" using merge_step_hd [OF hd] by simp
  then have "\<forall>y\<in>set xs. fst (hd ?acc) \<le> fst y" using starts order.trans by blast
  with Cons.IH [OF rest merge_step_ok [OF Cons.prems(2) hd se]]
  show ?case by (simp add: x merge_step_bytes hd less_imp_le [OF se] Un_assoc)
qed

lemma merge_pass_ok:
  assumes "starts_sorted xs"
  shows "ranges_ok (merge_pass xs)" and "ranges_bytes (merge_pass xs) = ranges_bytes xs"
  using foldl_merge_step [OF assms, of "[]"] by (simp_all add: merge_pass_def)

lemma ranges_ok_starts_sorted: "ranges_ok r \<Longrightarrow> starts_sorted r"
  by (induction r rule: ranges_ok.induct)
    (auto simp: starts_sorted_def intro: less_imp_le dest: less_trans)

lemma insert_at_partition_point:
  "insert_at (partition_point p xs) x xs = takeWhile p xs @ x # dropWhile p xs"
  by (simp add: insert_at_def partition_point_def takeWhile_eq_take [symmetric] dropWhile_eq_drop [symmetric])

lemma starts_sorted_insert:
  assumes "starts_sorted r" "start < en"
  shows "starts_sorted (insert_at (partition_point (\<lambda>(s, _). s < start) r) (start, en) r)"
    (is "starts_sorted ?xs")
proof -
  let ?p = "\<lambda>(s, _). s < start"
  have "sorted (map fst (takeWhile ?p r @ dropWhile ?p r))"
    using assms(1) by (simp only: takeWhile_dropWhile_id starts_sorted_def)
  then have r: "sorted (map fst (takeWhile ?p r))" "sorted (map fst (dropWhile ?p r))"
    by (simp_all only: map_append sorted_append)
  have "\<forall>x\<in>set (takeWhile ?p r). fst x \<le> start"
    by (auto dest!: set_takeWhileD)
  moreover have "\<forall>x\<in>set (dropWhile ?p r). start \<le> fst x"
  proof (cases "dropWhile ?p r")
    case (Cons y ys)
    then have "start \<le> fst y" using hd_dropWhile [of ?p r] by (auto simp: case_prod_beta)
    with r(2) Cons show ?thesis by auto
  next
    case Nil
    then show ?thesis by (simp only:) simp
  qed
  ultimately have "sorted (map fst ?xs)"
    using r by (auto simp: insert_at_partition_point sorted_append intro: order.trans)
  moreover have "set ?xs = insert (start, en) (set r)"
    by (simp add: insert_at_partition_point) (metis set_append takeWhile_dropWhile_id)
  ultimately show ?thesis using assms by (auto simp: starts_sorted_def)
qed

lemma set_insert_at: "i \<le> length xs \<Longrightarrow> set (insert_at i x xs) = insert x (set xs)"
  by (simp add: insert_at_def) (metis append_take_drop_id set_append)

lemma partition_point_le: "partition_point p xs \<le> length xs"
  by (simp add: partition_point_def length_takeWhile_le)

lemma ranges_add_ok:
  assumes "ranges_ok r" "span_ok s"
  shows "ranges_ok (ranges_add r s)" and "ranges_bytes (ranges_add r s) = ranges_bytes r \<union> span_bytes s"
proof -
  let ?xs = "insert_at (partition_point (\<lambda>(a, _). a < sp_offset s) r) (sp_offset s, span_end s) r"
  have "ranges_ok (ranges_add r s) \<and> ranges_bytes (ranges_add r s) = ranges_bytes r \<union> span_bytes s"
  proof (cases "span_is_empty s")
    case True
    then show ?thesis using assms(1) by (simp add: ranges_add_def span_is_emptyD)
  next
    case False
    then have "sp_offset s < span_end s" using assms(2) by (simp add: span_ok_def span_is_empty_def)
    then have "starts_sorted ?xs"
      by (rule starts_sorted_insert [OF ranges_ok_starts_sorted [OF assms(1)]])
    moreover have "ranges_bytes ?xs = ranges_bytes r \<union> span_bytes s"
      by (auto simp: ranges_bytes_def set_insert_at [OF partition_point_le] span_bytes_def)
    ultimately show ?thesis using False by (simp add: ranges_add_def Let_def merge_pass_ok)
  qed
  then show "ranges_ok (ranges_add r s)" "ranges_bytes (ranges_add r s) = ranges_bytes r \<union> span_bytes s"
    by simp_all
qed

section \<open>Asking about a span\<close>

text \<open>
  Because no two ranges touch, an interval that lies in the union lies in one of them: the case a
  sequential reader produces and a set that kept adjacent ranges apart would get wrong.
\<close>

lemma interval_in_one_range:
  assumes "ranges_ok r" "a < b" "{a..<b} \<subseteq> ranges_bytes r"
  shows "\<exists>(s, e)\<in>set r. s \<le> a \<and> b \<le> e"
  using assms
proof (induction r rule: ranges_ok.induct)
  case 1
  then show ?case by auto
next
  case (2 s e rs)
  show ?case
  proof (cases "a < e")
    case True
    have later: "\<forall>(s', e')\<in>set rs. e < s'" using 2 by simp
    have e_out: "e \<notin> {s..<e} \<union> ranges_bytes rs"
      using later by (fastforce simp: ranges_bytes_def)
    have "b \<le> e"
    proof (rule ccontr)
      assume "\<not> b \<le> e"
      with True have "e \<in> {a..<b}" by auto
      with 2(4) e_out show False by (simp only: ranges_bytes_simps) blast
    qed
    moreover have "s \<le> a"
      using 2(3,4) True later by (fastforce simp: ranges_bytes_def)
    ultimately show ?thesis by auto
  next
    case False
    then have "{a..<b} \<inter> {s..<e} = {}" by auto
    then have "{a..<b} \<subseteq> ranges_bytes rs" using 2(4) by fastforce
    then have "\<exists>(s', e')\<in>set rs. s' \<le> a \<and> b \<le> e'" using 2 by simp
    then show ?thesis by auto
  qed
qed

lemma ranges_covers_iff:
  assumes "ranges_ok r" "span_ok s"
  shows "ranges_covers r s \<longleftrightarrow> span_bytes s \<subseteq> ranges_bytes r"
proof (cases "span_is_empty s")
  case True
  then show ?thesis by (simp add: ranges_covers_def span_is_emptyD)
next
  case False
  then have lt: "sp_offset s < span_end s" using assms(2) by (simp add: span_ok_def span_is_empty_def)
  show ?thesis
  proof
    assume "ranges_covers r s"
    with False obtain a b where "(a, b) \<in> set r" "a \<le> sp_offset s" "span_end s \<le> b"
      by (auto simp: ranges_covers_def)
    then have "span_bytes s \<subseteq> {a..<b}" "{a..<b} \<subseteq> ranges_bytes r"
      by (auto simp: span_bytes_def ranges_bytes_def)
    then show "span_bytes s \<subseteq> ranges_bytes r" by (rule order.trans)
  next
    assume "span_bytes s \<subseteq> ranges_bytes r"
    then show "ranges_covers r s"
      using interval_in_one_range [OF assms(1) lt] by (simp add: ranges_covers_def span_bytes_def)
  qed
qed

definition spans_bytes :: "span list \<Rightarrow> u64 set" where
  "spans_bytes ss = (\<Union>t\<in>set ss. span_bytes t)"

lemma spans_bytes_simps [simp]:
  "spans_bytes [] = {}"
  "spans_bytes (s # ss) = span_bytes s \<union> spans_bytes ss"
  "spans_bytes (xs @ ys) = spans_bytes xs \<union> spans_bytes ys"
  by (auto simp: spans_bytes_def)

lemma missing_from_bytes:
  "ranges_ok r \<Longrightarrow> spans_bytes (missing_from a b r) = {a..<b} - ranges_bytes r"
proof (induction a b r rule: missing_from.induct)
  case (1 a b)
  then show ?case by (auto simp: span_bytes_new)
next
  case (2 a b s e rs)
  have ok: "ranges_ok rs" "s < e" and later: "\<forall>(s', e')\<in>set rs. e < s'" using 2(3) by auto
  have rs_ge: "ranges_bytes rs \<subseteq> {e<..}" using later by (fastforce simp: ranges_bytes_def)
  consider "e \<le> a" | "a < e" "b \<le> s" | "a < e" "s < b" "b \<le> max a e" | "a < e" "s < b" "max a e < b"
    by fastforce
  then show ?case
  proof cases
    case 1
    then show ?thesis using 2(1) [OF 1 ok(1)] by auto
  next
    case 2
    then have "missing_from a b ((s, e) # rs) = (if a < b then [span_new a (b - a)] else [])"
      by (auto dest: leD)
    moreover have "{a..<b} \<inter> ({s..<e} \<union> ranges_bytes rs) = {}"
      using 2 rs_ge ok(2) by fastforce
    ultimately show ?thesis by (auto simp: span_bytes_new)
  next
    case 3
    then have be: "b \<le> e" by (cases "a \<le> e") (auto simp: max_def)
    have "\<not> e \<le> a" "\<not> b \<le> s" using 3 by auto
    with 3(3) have "missing_from a b ((s, e) # rs) = (if a < s then [span_new a (s - a)] else [])"
      by (simp only: missing_from.simps if_False if_True Let_def)
    moreover have "{a..<b} - ({s..<e} \<union> ranges_bytes rs) = {a..<s}"
      using 3 be rs_ge by fastforce
    ultimately show ?thesis by (simp add: span_bytes_new)
  next
    case 4
    then have "max a e = e" by (simp add: max_absorb2 less_imp_le)
    with 4(3) have m: "max a e = e" "e < b" by simp_all
    have IH: "spans_bytes (missing_from e b rs) = {e..<b} - ranges_bytes rs"
      using 2(2) [OF _ _ refl refl _ ok(1)] 4 m by (simp add: not_le)
    have "\<not> e \<le> a" "\<not> b \<le> s" "\<not> b \<le> e" using 4 m by auto
    then have "missing_from a b ((s, e) # rs) =
        (if a < s then [span_new a (s - a)] else []) @ missing_from e b rs"
      by (simp only: missing_from.simps if_False if_True Let_def m(1))
    moreover have "{a..<b} - ({s..<e} \<union> ranges_bytes rs) = {a..<s} \<union> ({e..<b} - ranges_bytes rs)"
      using 4 m ok(2) rs_ge by fastforce
    ultimately show ?thesis by (simp add: span_bytes_new IH)
  qed
qed

lemma missing_from_elem:
  "t \<in> set (missing_from a b r) \<Longrightarrow>
     \<exists>c d. a \<le> c \<and> c < d \<and> d \<le> b \<and> t = span_new c (d - c)"
proof (induction a b r rule: missing_from.induct)
  case (1 a b)
  then show ?case by (auto split: if_splits)
next
  case (2 a b s e rs)
  consider "t \<in> set (missing_from a b rs)" "e \<le> a"
    | "t = span_new a (b - a)" "a < b"
    | "t = span_new a (s - a)" "a < s" "s < b"
    | "t \<in> set (missing_from (max a e) b rs)" "\<not> e \<le> a" "\<not> b \<le> s" "\<not> b \<le> max a e"
    using 2(3) by (auto simp: Let_def not_le simp del: max_def split: if_splits)
  then show ?case
  proof cases
    case 1
    then show ?thesis using 2(1) by blast
  next
    case 2
    then show ?thesis by blast
  next
    case 3
    then show ?thesis using less_imp_le by blast
  next
    case 4
    then obtain c d where "max a e \<le> c" "c < d" "d \<le> b" "t = span_new c (d - c)"
      using 2(2) [OF 4(2,3) refl refl 4(4,1)] by blast
    then show ?thesis using max.boundedE by blast
  qed
qed

lemma ranges_missing_bytes:
  "ranges_ok r \<Longrightarrow> spans_bytes (ranges_missing r s) = span_bytes s - ranges_bytes r"
  by (simp add: ranges_missing_def missing_from_bytes span_bytes_def)

lemma ranges_missing_elem:
  assumes "t \<in> set (ranges_missing r s)"
  shows "span_ok t" and "sp_offset t < span_end t" and "span_bytes t \<subseteq> span_bytes s"
    and "span_end t \<le> span_end s"
proof -
  obtain c d where "sp_offset s \<le> c" "c < d" "d \<le> span_end s" "t = span_new c (d - c)"
    using missing_from_elem assms unfolding ranges_missing_def by blast
  then show "span_ok t" "sp_offset t < span_end t" "span_bytes t \<subseteq> span_bytes s"
    and "span_end t \<le> span_end s"
    by (simp_all add: span_bytes_new) (auto simp: span_bytes_def)
qed

text \<open>The gaps come in order and do not overlap.\<close>

lemma missing_from_sorted:
  "ranges_ok r \<Longrightarrow> sorted_wrt (\<lambda>t u. span_end t < sp_offset u) (missing_from a b r)"
proof (induction a b r rule: missing_from.induct)
  case (1 a b)
  then show ?case by simp
next
  case (2 a b s e rs)
  then have ok: "ranges_ok rs" "s < e" by auto
  show ?case
  proof (cases "\<not> e \<le> a \<and> \<not> b \<le> s \<and> \<not> b \<le> max a e")
    case True
    have "s < sp_offset u" if "u \<in> set (missing_from (max a e) b rs)" for u
      using missing_from_elem [OF that] ok(2) by (auto intro: less_le_trans)
    then show ?thesis using True 2(2) [OF _ _ refl refl _ ok(1)] by (auto simp: Let_def)
  next
    case False
    then show ?thesis using 2(1) [OF _ ok(1)] by (auto simp: Let_def)
  qed
qed

section \<open>The code meets the interface\<close>

interpretation rs: byte_ranges "[]" ranges_add ranges_covers ranges_missing ranges_bytes ranges_ok
proof unfold_locales
  fix r :: ranges and s t :: span
  assume r: "ranges_ok r"
  show "(\<Union>t\<in>set (ranges_missing r s). span_bytes t) = span_bytes s - ranges_bytes r"
    using ranges_missing_bytes [OF r] by (simp add: spans_bytes_def)
  assume "t \<in> set (ranges_missing r s)"
  from ranges_missing_elem(1,2) [OF this] show "span_bytes t \<noteq> {} \<and> span_ok t"
    by (auto simp: span_bytes_def)
qed (simp_all add: ranges_add_ok ranges_covers_iff)

section \<open>The total\<close>

lemma card_atLeastLessThan_word: "card {a..<b} = unat b - unat (a :: u64)"
proof -
  have "bij_betw unat {a..<b} {unat a..<unat b}"
  proof (rule bij_betwI')
    fix y assume "y \<in> {unat a..<unat b}"
    moreover from this have "unat (word_of_nat y :: u64) = y"
      using unsigned_less [of b, where ?'a = nat] by (auto intro: of_nat_inverse less_trans)
    ultimately show "\<exists>x\<in>{a..<b}. y = unat x"
      by (intro bexI [of _ "word_of_nat y"]) (simp_all add: word_le_nat_alt word_less_nat_alt)
  qed (auto simp: word_le_nat_alt word_less_nat_alt word_unat_eq_iff)
  then show ?thesis using bij_betw_same_card by fastforce
qed

lemma finite_u64_set [simp]: "finite (A :: u64 set)"
  by simp

lemma ranges_bytes_disjoint:
  "ranges_ok ((s, e) # rs) \<Longrightarrow> {s..<e} \<inter> ranges_bytes rs = {}"
  by (fastforce simp: ranges_bytes_def)

text \<open>
  \<open>total\<close> is a sum of \<open>u64\<close> that could wrap; on a set of disjoint ranges it cannot, and it is the
  number of bytes held.
\<close>

lemma unat_ranges_total: "ranges_ok r \<Longrightarrow> unat (ranges_total r) = card (ranges_bytes r)"
proof (induction r rule: ranges_ok.induct)
  case 1
  then show ?case by (simp add: ranges_total_def)
next
  case (2 s e rs)
  have split: "card (ranges_bytes ((s, e) # rs)) = card {s..<e} + card (ranges_bytes rs)"
    using ranges_bytes_disjoint [OF 2(2)] by (simp add: card_Un_disjoint)
  have "card (ranges_bytes ((s, e) # rs)) \<le> card {..<(- 1 :: u64)}"
    by (rule card_mono) (auto simp: ranges_bytes_def intro: less_le_trans)
  also have "card {..<(- 1 :: u64)} < 2 ^ 64"
  proof -
    have "{..<(- 1 :: u64)} = {0..<- 1}" by auto
    then show ?thesis using unsigned_less [of "- 1 :: u64", where ?'a = nat]
      by (simp add: card_atLeastLessThan_word)
  qed
  finally have lt: "card {s..<e} + card (ranges_bytes rs) < 2 ^ 64" using split by simp
  have "unat (e - s) = card {s..<e}" using 2(2) by (auto simp: card_atLeastLessThan_word unat_sub less_imp_le)
  moreover have "unat (ranges_total rs) = card (ranges_bytes rs)" using 2 by simp
  ultimately have "unat (e - s) + unat (ranges_total rs) < 2 ^ 64" using lt by simp
  then have "unat (e - s + ranges_total rs) = unat (e - s) + unat (ranges_total rs)"
    by (simp add: unat_add_lem [THEN iffD1])
  with split \<open>unat (e - s) = card {s..<e}\<close> \<open>unat (ranges_total rs) = card (ranges_bytes rs)\<close>
  show ?case by (simp add: ranges_total_def)
qed

section \<open>Properties\<close>

text \<open>C29: A set of ranges is a set of bytes, and the code computes with it.  On a well-formed record and a
  span, adding is union and keeps the record sorted and disjoint, the coverage test is inclusion, what is
  reported missing is the difference, and the total, a sum of 64-bit lengths, does not wrap and is the
  number of bytes held.\<close>

theorem ranges_refine_byte_sets:
  assumes "ranges_ok r" "span_ok s"
  shows "ranges_ok (ranges_add r s) \<and> ranges_bytes (ranges_add r s) = ranges_bytes r \<union> span_bytes s \<and>
    (ranges_covers r s \<longleftrightarrow> span_bytes s \<subseteq> ranges_bytes r) \<and>
    spans_bytes (ranges_missing r s) = span_bytes s - ranges_bytes r \<and>
    unat (ranges_total (ranges_add r s)) = card (ranges_bytes r \<union> span_bytes s)"
  using ranges_add_ok [OF assms] ranges_covers_iff [OF assms] ranges_missing_bytes [OF assms(1)]
    unat_ranges_total [OF ranges_add_ok(1) [OF assms]] by simp

lemma ranges_refine_byte_sets_witness:
  "ranges_ok (ranges_add [(0, 5), (8, 9)] (span_new 5 3)) \<and>
   ranges_bytes (ranges_add [(0, 5), (8, 9)] (span_new 5 3)) = ranges_bytes [(0, 5), (8, 9)] \<union> span_bytes (span_new 5 3)"
  using ranges_refine_byte_sets [of "[(0, 5), (8, 9)]" "span_new 5 3"]
  by (simp add: span_ok_def span_end_def sat_add_def)

text \<open>Filling every gap a record reports for a window makes every span inside the window covered,
  which is what lets the worker fetch more than the reader demanded and still answer the demand; and the
  gaps it reports are inside the window, not empty, in order and do not touch.\<close>

theorem ranges_fill_gaps:
  assumes "ranges_ok r" "span_ok s" "span_bytes s \<subseteq> span_bytes t"
  shows "ranges_covers (foldl ranges_add r (ranges_missing r t)) s \<and>
    sorted_wrt (\<lambda>u v. span_end u < sp_offset v) (ranges_missing r t) \<and>
    list_all (\<lambda>u. sp_offset u < span_end u \<and> span_bytes u \<subseteq> span_bytes t) (ranges_missing r t)"
  using rs.fill_missing_covers_part [OF assms] missing_from_sorted [OF assms(1)] ranges_missing_elem(2,3) [of _ r t]
  by (simp add: ranges_missing_def list_all_iff)

lemma ranges_fill_gaps_witness:
  "ranges_covers (foldl ranges_add [(2, 4)] (ranges_missing [(2, 4)] (span_new 0 10))) (span_new 1 6)"
  using ranges_fill_gaps [of "[(2, 4)]" "span_new 1 6" "span_new 0 10"]
  by (simp add: span_ok_def span_end_def sat_add_def span_bytes_def)

end
