(* ===== verification/Partial_Fill.thy ===== *)
theory Partial_Fill
  imports Ranges
begin

text \<open>
  The worker's memory of the placeholders it is part way through: \<open>Witness\<close>, \<open>Standing\<close> and
  \<open>Partial\<close> of \<open>crates/hydrationd/src/partial.rs\<close>.  The \<open>HashMap\<close> is an association list
  with distinct keys; \<open>tick\<close> is a counter that no run of the program exhausts and is a
  natural number here.  A record is believed only while the file still looks as it was left, and
  the cap evicts the record used least recently.
\<close>

section \<open>State\<close>

record witness =
  w_mtime :: int
  w_mtime_nsec :: int
  w_size :: u64

record held =
  h_witness :: witness
  h_have :: ranges
  h_used :: nat

datatype standing = Unknown | Ours ranges

record partial_map =
  p_held :: "(file_id \<times> held) list"
  p_tick :: nat
  p_cap :: nat

definition remembered :: nat where
  "remembered = 512"

definition partial_new :: "nat \<Rightarrow> partial_map" where
  "partial_new cap = \<lparr>p_held = [], p_tick = 0, p_cap = cap\<rparr>"

definition partial_default :: partial_map where
  "partial_default = partial_new remembered"

section \<open>Operations\<close>

definition partial_forget :: "partial_map \<Rightarrow> file_id \<Rightarrow> partial_map" where
  "partial_forget p f = p\<lparr>p_held := AList.delete f (p_held p)\<rparr>"

definition partial_standing :: "partial_map \<Rightarrow> file_id \<Rightarrow> witness \<Rightarrow> standing \<times> partial_map" where
  "partial_standing p f now =
     (let tick = Suc (p_tick p); p' = p\<lparr>p_tick := tick\<rparr>
      in case map_of (p_held p) f of
           Some h \<Rightarrow>
             if h_witness h = now
             then (Ours (h_have h), p'\<lparr>p_held := AList.update f (h\<lparr>h_used := tick\<rparr>) (p_held p)\<rparr>)
             else (Unknown, partial_forget p' f)
         | None \<Rightarrow> (Unknown, p'))"

text \<open>\<open>iter().min_by_key(used)\<close>: the first entry whose \<open>used\<close> is least.\<close>

fun oldest_entry :: "(file_id \<times> held) list \<Rightarrow> file_id option" where
  "oldest_entry [] = None"
| "oldest_entry [(f, h)] = Some f"
| "oldest_entry ((f, h) # (g, k) # rest) =
     (if h_used k < h_used h then oldest_entry ((g, k) # rest) else oldest_entry ((f, h) # rest))"

definition partial_record :: "partial_map \<Rightarrow> file_id \<Rightarrow> witness \<Rightarrow> ranges \<Rightarrow> partial_map" where
  "partial_record p f w have =
     (let used = Suc (p_tick p); p1 = p\<lparr>p_tick := used\<rparr>
      in if ranges_is_empty have then partial_forget p1 f
         else let entries = AList.update f \<lparr>h_witness = w, h_have = have, h_used = used\<rparr> (p_held p1);
                  p2 = p1\<lparr>p_held := entries\<rparr>
              in if length entries > p_cap p then
                   case oldest_entry entries of Some old \<Rightarrow> partial_forget p2 old | None \<Rightarrow> p2
                 else p2)"

definition partial_tracked :: "partial_map \<Rightarrow> nat" where
  "partial_tracked p = length (p_held p)"

section \<open>Invariant\<close>

text \<open>
  Keys are distinct, no two records were used at the same tick and none after the present one,
  the cap is kept, and every remembered set of ranges is well formed.
\<close>

definition partial_inv :: "partial_map \<Rightarrow> bool" where
  "partial_inv p \<longleftrightarrow>
     distinct (map fst (p_held p)) \<and>
     inj_on (\<lambda>e. h_used (snd e)) (set (p_held p)) \<and>
     (\<forall>e\<in>set (p_held p). h_used (snd e) \<le> p_tick p \<and> ranges_ok (h_have (snd e))) \<and>
     length (p_held p) \<le> p_cap p"

definition partial_lookup :: "partial_map \<Rightarrow> file_id \<Rightarrow> held option" where
  "partial_lookup p f = map_of (p_held p) f"

lemma partial_inv_new [simp]: "partial_inv (partial_new cap)"
  by (simp add: partial_inv_def partial_new_def)

lemma partial_forget_inv: "partial_inv p \<Longrightarrow> partial_inv (partial_forget p f)"
  using AList.length_delete_le [of f "p_held p"]
  by (auto simp: partial_inv_def partial_forget_def AList.distinct_delete set_alist_delete
      elim!: inj_on_subset)

lemma partial_lookup_forget [simp]:
  "partial_lookup (partial_forget p f) = (partial_lookup p)(f := None)"
  by (simp add: partial_lookup_def partial_forget_def AList.delete_conv' fun_eq_iff)

lemma oldest_entry_Some: "xs \<noteq> [] \<Longrightarrow> \<exists>f. oldest_entry xs = Some f"
  by (induction xs rule: oldest_entry.induct) auto

lemma oldest_entry_least:
  "oldest_entry xs = Some f \<Longrightarrow>
     \<exists>h. (f, h) \<in> set xs \<and> (\<forall>e\<in>set xs. h_used h \<le> h_used (snd e))"
proof (induction xs rule: oldest_entry.induct)
  case (3 f' h g k rest)
  show ?case
  proof (cases "h_used k < h_used h")
    case True
    with 3 obtain h' where "(f, h') \<in> set ((g, k) # rest)"
      "\<forall>e\<in>set ((g, k) # rest). h_used h' \<le> h_used (snd e)" by auto
    with True show ?thesis by (intro exI [of _ h']) force
  next
    case False
    with 3 obtain h' where "(f, h') \<in> set ((f', h) # rest)"
      "\<forall>e\<in>set ((f', h) # rest). h_used h' \<le> h_used (snd e)" by auto
    with False show ?thesis by (intro exI [of _ h']) force
  qed
qed simp_all

section \<open>Every operation keeps the invariant\<close>

lemma partial_tick_inv: "partial_inv p \<Longrightarrow> p_tick p \<le> t \<Longrightarrow> partial_inv (p\<lparr>p_tick := t\<rparr>)"
  by (fastforce simp: partial_inv_def)

text \<open>Writing an entry stamped with a fresh tick keeps the ticks apart.\<close>

lemma inj_on_used_update:
  assumes "distinct (map fst xs)" "inj_on (\<lambda>e. h_used (snd e)) (set xs)"
    and "\<forall>e\<in>set xs. h_used (snd e) < h_used h"
  shows "inj_on (\<lambda>e. h_used (snd e)) (set (AList.update f h xs))"
  using assms by (force simp: set_alist_update inj_on_def)

lemma partial_standing_inv:
  assumes "partial_inv p"
  shows "partial_inv (snd (partial_standing p f now))"
proof -
  have t: "partial_inv (p\<lparr>p_tick := Suc (p_tick p)\<rparr>)"
    by (rule partial_tick_inv [OF assms]) simp
  show ?thesis
  proof (cases "map_of (p_held p) f")
    case None
    with t show ?thesis by (simp add: partial_standing_def Let_def)
  next
    case (Some h)
    have mem: "(f, h) \<in> set (p_held p)" using Some by (rule map_of_SomeD)
    then have len: "length (AList.update f h' (p_held p)) = length (p_held p)" for h'
      by (force simp: length_alist_update)
    have ok: "distinct (map fst (p_held p))" "inj_on (\<lambda>e. h_used (snd e)) (set (p_held p))"
      "\<forall>e\<in>set (p_held p). h_used (snd e) \<le> p_tick p \<and> ranges_ok (h_have (snd e))"
      "length (p_held p) \<le> p_cap p"
      using assms by (auto simp: partial_inv_def)
    let ?h = "h\<lparr>h_used := Suc (p_tick p)\<rparr>"
    have "inj_on (\<lambda>e. h_used (snd e)) (set (AList.update f ?h (p_held p)))"
      by (rule inj_on_used_update) (use ok in \<open>auto simp: le_imp_less_Suc\<close>)
    moreover have "\<forall>e\<in>set (AList.update f ?h (p_held p)).
        h_used (snd e) \<le> Suc (p_tick p) \<and> ranges_ok (h_have (snd e))"
      using ok mem by (fastforce simp: set_alist_update)
    ultimately have "partial_inv (p\<lparr>p_tick := Suc (p_tick p), p_held := AList.update f ?h (p_held p)\<rparr>)"
      using ok by (simp add: partial_inv_def AList.distinct_update len)
    then show ?thesis
      using Some partial_forget_inv [OF t] by (simp add: partial_standing_def Let_def)
  qed
qed

lemma partial_record_inv:
  assumes "partial_inv p" "ranges_ok have"
  shows "partial_inv (partial_record p f w have)"
proof -
  let ?t = "Suc (p_tick p)"
  let ?h = "\<lparr>h_witness = w, h_have = have, h_used = ?t\<rparr>"
  let ?es = "AList.update f ?h (p_held p)"
  have t: "partial_inv (p\<lparr>p_tick := ?t\<rparr>)" by (rule partial_tick_inv [OF assms(1)]) simp
  have ok: "distinct (map fst (p_held p))" "inj_on (\<lambda>e. h_used (snd e)) (set (p_held p))"
    "\<forall>e\<in>set (p_held p). h_used (snd e) \<le> p_tick p \<and> ranges_ok (h_have (snd e))"
    "length (p_held p) \<le> p_cap p"
    using assms(1) by (auto simp: partial_inv_def)
  have es: "distinct (map fst ?es)" "inj_on (\<lambda>e. h_used (snd e)) (set ?es)"
    "\<forall>e\<in>set ?es. h_used (snd e) \<le> ?t \<and> ranges_ok (h_have (snd e))"
    using ok assms(2)
    by (simp_all add: AList.distinct_update inj_on_used_update less_Suc_eq_le)
      (auto simp: set_alist_update le_SucI)
  have len: "length ?es \<le> Suc (p_cap p)"
    using ok(4) length_alist_update [of f ?h "p_held p"] by simp
  obtain old where old: "oldest_entry ?es = Some old"
    using oldest_entry_Some [of ?es] by auto
  from oldest_entry_least [OF old] have "old \<in> fst ` set ?es" by force
  then have del: "length (AList.delete old ?es) < length ?es" by (rule length_alist_delete_less)
  let ?p2 = "p\<lparr>p_tick := ?t, p_held := ?es\<rparr>"
  have "partial_inv ?p2" if "length ?es \<le> p_cap p" using es that by (simp add: partial_inv_def)
  moreover have "partial_inv (partial_forget ?p2 old)"
    using es del len unfolding partial_inv_def partial_forget_def
    by (auto simp: AList.distinct_delete set_alist_delete elim: inj_on_subset)
  ultimately show ?thesis
    using partial_forget_inv [OF t] old by (simp add: partial_record_def Let_def)
qed

section \<open>What the memory promises\<close>

text \<open>\<open>standing\<close> answers \<open>Ours\<close> exactly for a record whose witness still matches.\<close>

lemma partial_standing_Ours_iff:
  "fst (partial_standing p f now) = Ours r \<longleftrightarrow>
     (\<exists>h. partial_lookup p f = Some h \<and> h_witness h = now \<and> h_have h = r)"
  by (auto simp: partial_standing_def partial_lookup_def Let_def split: option.splits)

text \<open>A record that no longer matches is gone for good, whatever the file looks like later.\<close>

lemma partial_standing_forgets:
  "partial_lookup p f = Some h \<Longrightarrow> h_witness h \<noteq> now \<Longrightarrow>
     partial_lookup (snd (partial_standing p f now)) f = None"
  by (simp add: partial_standing_def partial_lookup_def Let_def partial_forget_def AList.delete_conv')

lemma partial_standing_other:
  "g \<noteq> f \<Longrightarrow> partial_lookup (snd (partial_standing p f now)) g = partial_lookup p g"
  by (auto simp: partial_standing_def partial_lookup_def Let_def AList.update_conv' partial_forget_def
      split: option.splits)

text \<open>
  What \<open>record\<close> leaves: an entry that was there before and is not the file's, or the new one;
  nothing is made up, and only the cap makes it forget.
\<close>

lemma partial_record_lookup:
  assumes "partial_lookup (partial_record p f w have) g = Some h"
  shows "if g = f then h_witness h = w \<and> h_have h = have else partial_lookup p g = Some h"
  using assms
  by (auto simp: partial_record_def partial_lookup_def Let_def partial_forget_def ranges_is_empty_def
      AList.update_conv' AList.delete_conv' split: option.splits if_splits)

lemma partial_record_keeps:
  assumes "partial_inv p" "0 < p_cap p" "have \<noteq> []"
  shows "\<exists>h. partial_lookup (partial_record p f w have) f = Some h \<and> h_have h = have \<and> h_witness h = w"
proof -
  let ?h = "\<lparr>h_witness = w, h_have = have, h_used = Suc (p_tick p)\<rparr>"
  let ?es = "AList.update f ?h (p_held p)"
  have ok: "distinct (map fst (p_held p))" "\<forall>e\<in>set (p_held p). h_used (snd e) \<le> p_tick p"
    using assms(1) by (auto simp: partial_inv_def)
  have "old \<noteq> f" if "length ?es > p_cap p" "oldest_entry ?es = Some old" for old
  proof
    assume "old = f"
    with oldest_entry_least [OF that(2)] obtain k where
      k: "(f, k) \<in> set ?es" "\<forall>e\<in>set ?es. h_used k \<le> h_used (snd e)" by auto
    then have "h_used k = Suc (p_tick p)" using ok(1) by (auto simp: set_alist_update)
    with k(2) ok have "\<forall>e\<in>set (p_held p). fst e = f" by (force simp: set_alist_update)
    with ok(1) have "length (p_held p) \<le> 1"
      by (cases "p_held p" rule: remdups_adj.cases) auto
    with that(1) assms(2) have "p_held p \<noteq> []" "f \<notin> fst ` set (p_held p)"
      by (auto simp: length_alist_update split: if_splits)
    with \<open>\<forall>e\<in>set (p_held p). fst e = f\<close> show False by (cases "p_held p") auto
  qed
  moreover obtain old where "oldest_entry ?es = Some old" using oldest_entry_Some [of ?es] by auto
  ultimately show ?thesis using assms(3)
    by (auto simp: partial_record_def partial_lookup_def Let_def partial_forget_def ranges_is_empty_def
        AList.update_conv' AList.delete_conv')
qed

section \<open>Properties\<close>

text \<open>The memory of partial fills keeps its invariant under every operation: at most as many files as
  its cap, one record a file, no two used at the same tick, every record a well-formed set of ranges.\<close>

theorem partial_operations_keep_invariant:
  assumes "partial_inv p" "ranges_ok have"
  shows "partial_inv (snd (partial_standing p f w)) \<and> partial_inv (partial_record p f w have) \<and>
    partial_inv (partial_forget p f) \<and> partial_tracked (partial_record p f w have) \<le> p_cap p"
proof -
  have "p_cap (partial_record p f w have) = p_cap p"
    by (auto simp: partial_record_def partial_forget_def Let_def split: option.splits)
  moreover have r: "partial_inv (partial_record p f w have)" by (rule partial_record_inv [OF assms])
  moreover have "length (p_held (partial_record p f w have)) \<le> p_cap (partial_record p f w have)"
    using r by (simp add: partial_inv_def)
  ultimately show ?thesis
    using partial_standing_inv [OF assms(1)] partial_forget_inv [OF assms(1)] by (simp add: partial_tracked_def)
qed

lemma partial_operations_keep_invariant_witness:
  "partial_tracked (partial_record (partial_new 1) (FileId 1 2) \<lparr>w_mtime = 0, w_mtime_nsec = 0, w_size = 3\<rparr> [(0, 2)]) \<le> 1"
  using partial_operations_keep_invariant [of "partial_new 1" "[(0, 2)]" "FileId 1 2"
      "\<lparr>w_mtime = 0, w_mtime_nsec = 0, w_size = 3\<rparr>"]
  by (simp add: partial_new_def partial_inv_def)

text \<open>A record is believed only while it can be true.  What was just recorded is what is answered for the
  same witness; with any other witness the answer is \<open>Unknown\<close> and the record is gone for good, even if the
  old witness comes back.\<close>

theorem partial_record_believed_only_unchanged:
  assumes "partial_inv p" "0 < p_cap p" "have \<noteq> []" "w' \<noteq> w"
  shows "fst (partial_standing (partial_record p f w have) f w) = Ours have \<and>
    fst (partial_standing (partial_record p f w have) f w') = Unknown \<and>
    fst (partial_standing (snd (partial_standing (partial_record p f w have) f w')) f w) = Unknown"
proof -
  obtain h where h: "partial_lookup (partial_record p f w have) f = Some h" "h_have h = have" "h_witness h = w"
    using partial_record_keeps [OF assms(1-3)] by blast
  have u: "fst (partial_standing q g x) = Unknown" if "\<not> (\<exists>h. partial_lookup q g = Some h \<and> h_witness h = x)" for q g x
    using that by (auto simp: partial_standing_def partial_lookup_def Let_def split: option.splits)
  have "partial_lookup (snd (partial_standing (partial_record p f w have) f w')) f = None"
    using partial_standing_forgets [OF h(1)] h(3) assms(4) by simp
  then show ?thesis using h assms(4) u by (auto simp: partial_standing_Ours_iff)
qed

lemma partial_record_believed_only_unchanged_witness:
  "fst (partial_standing (partial_record (partial_new 4) (FileId 1 2) \<lparr>w_mtime = 0, w_mtime_nsec = 0, w_size = 3\<rparr> [(0, 2)])
     (FileId 1 2) \<lparr>w_mtime = 9, w_mtime_nsec = 0, w_size = 3\<rparr>) = Unknown"
  using partial_record_believed_only_unchanged [of "partial_new 4" "[(0, 2)]"
      "\<lparr>w_mtime = 9, w_mtime_nsec = 0, w_size = 3\<rparr>" "\<lparr>w_mtime = 0, w_mtime_nsec = 0, w_size = 3\<rparr>" "FileId 1 2"]
  by (simp add: partial_new_def partial_inv_def)

end
