(* ===== verification/Policy.thy ===== *)
theory Policy
  imports Prelude "HOL-Library.Sublist" "HOL-Library.List_Lexorder" "HOL-Library.Char_ord"
begin

text \<open>
  Who may hydrate, and what is remembered about those who could not: \<open>Policy\<close> and \<open>DenialLog\<close>
  of \<open>crates/hydrationd/src/policy.rs\<close>, \<open>FailureLog\<close> of \<open>crates/hydrationd/src/daemon.rs\<close>.
  A \<open>BTreeMap\<close> of counts is an association list sorted by its keys, and \<open>bump\<close> is the
  \<open>entry(k).or_default() += 1\<close> both logs use.
\<close>

section \<open>The decision\<close>

datatype decision = Hydrate | Deny (deny_rule: string)

type_synonym policy = "string list"

definition default_policy :: policy where
  "default_policy =
     [''restic'', ''borg'', ''borgmatic'', ''duplicity'', ''rclone'', ''baloo_file'',
      ''tracker-extract'', ''tracker-miner'', ''clamd'', ''freshclam'', ''updatedb'',
      ''mlocate'', ''plocate'']"

definition permissive :: policy where
  "permissive = []"

text \<open>\<open>str::contains\<close> is \<open>sublist\<close>; the loop returns the first rule that occurs.\<close>

fun first_match :: "policy \<Rightarrow> string \<Rightarrow> decision" where
  "first_match [] cgroup = Hydrate"
| "first_match (rule # rules) cgroup =
     (if sublist rule cgroup then Deny rule else first_match rules cgroup)"

definition policy_decide :: "policy \<Rightarrow> string option \<Rightarrow> decision" where
  "policy_decide denied cgroup =
     (case cgroup of None \<Rightarrow> Hydrate | Some c \<Rightarrow> first_match denied c)"

section \<open>Counting in a sorted map\<close>

fun bump :: "'k::linorder \<Rightarrow> ('k \<times> nat) list \<Rightarrow> ('k \<times> nat) list" where
  "bump k [] = [(k, 1)]"
| "bump k ((a, n) # m) =
     (if k < a then (k, 1) # (a, n) # m
      else if k = a then (a, Suc n) # m
      else (a, n) # bump k m)"

definition count_of :: "('k \<times> nat) list \<Rightarrow> 'k \<Rightarrow> nat" where
  "count_of m k = (case map_of m k of None \<Rightarrow> 0 | Some n \<Rightarrow> n)"

section \<open>The denial log\<close>

record denial =
  d_cgroup :: string
  d_rule :: string
  d_path :: "string option"

type_synonym denial_log = "denial list"

definition denial_record :: "denial_log \<Rightarrow> string \<Rightarrow> string \<Rightarrow> string option \<Rightarrow> denial_log" where
  "denial_record log cgroup rule path = log @ [\<lparr>d_cgroup = cgroup, d_rule = rule, d_path = path\<rparr>]"

definition denial_summary :: "denial_log \<Rightarrow> (string \<times> nat) list" where
  "denial_summary log = foldl (\<lambda>counts e. bump (d_rule e) counts) [] log"

section \<open>The failure log\<close>

definition failures_kept :: nat where
  "failures_kept = 64"

record failure =
  fl_reason :: string
  fl_path :: "string option"

record failure_log =
  fl_counts :: "(string \<times> nat) list"
  fl_recent :: "failure list"
  fl_total :: nat

definition failure_log_default :: failure_log where
  "failure_log_default = \<lparr>fl_counts = [], fl_recent = [], fl_total = 0\<rparr>"

definition failure_record :: "failure_log \<Rightarrow> string \<Rightarrow> string option \<Rightarrow> failure_log" where
  "failure_record log reason path =
     (let recent = (if length (fl_recent log) = failures_kept then tl (fl_recent log) else fl_recent log)
      in \<lparr>fl_counts = bump reason (fl_counts log),
          fl_recent = recent @ [\<lparr>fl_reason = reason, fl_path = path\<rparr>],
          fl_total = Suc (fl_total log)\<rparr>)"

definition failure_summary :: "failure_log \<Rightarrow> (string \<times> nat) list" where
  "failure_summary log = fl_counts log"

definition failure_record_all :: "failure_log \<Rightarrow> failure list \<Rightarrow> failure_log" where
  "failure_record_all = foldl (\<lambda>l f. failure_record l (fl_reason f) (fl_path f))"

section \<open>Facts\<close>

lemma first_match_find:
  "first_match rules c = (case find (\<lambda>r. sublist r c) rules of None \<Rightarrow> Hydrate | Some r \<Rightarrow> Deny r)"
  by (induction rules) auto

lemma first_match_DenyD: "first_match rules c = Deny r \<Longrightarrow> r \<in> set rules \<and> sublist r c"
  by (induction rules) (auto split: if_splits)

lemma first_match_Hydrate_iff: "first_match rules c = Hydrate \<longleftrightarrow> (\<forall>r\<in>set rules. \<not> sublist r c)"
  by (induction rules) auto

lemma set_bump_keys: "fst ` set (bump k m) = insert k (fst ` set m)"
  by (induction k m rule: bump.induct) auto

lemma sorted_bump: "sorted_wrt (<) (map fst m) \<Longrightarrow> sorted_wrt (<) (map fst (bump k m))"
proof (induction k m rule: bump.induct)
  case (2 k a n m)
  have "\<forall>x\<in>fst ` set (bump k m). a < x" if "a < k"
    using 2(2) that unfolding set_bump_keys by auto
  then show ?case using 2 by (auto intro: less_trans)
qed simp

lemma count_of_bump:
  "sorted_wrt (<) (map fst m) \<Longrightarrow>
     count_of (bump k m) x = (if x = k then Suc (count_of m k) else count_of m x)"
proof (induction k m rule: bump.induct)
  case (2 k a n m)
  have "map_of m k = None" if "k < a"
    using 2(2) that by (auto simp: map_of_eq_None_iff dest: less_trans)
  with 2 show ?case by (auto simp: count_of_def)
qed (auto simp: count_of_def)

lemma sum_bump: "sum_list (map snd (bump k m)) = Suc (sum_list (map snd m))"
  by (induction k m rule: bump.induct) auto

lemma count_summary:
  "sorted_wrt (<) (map fst m) \<Longrightarrow>
     sorted_wrt (<) (map fst (foldl (\<lambda>c e. bump (f e) c) m es)) \<and>
     count_of (foldl (\<lambda>c e. bump (f e) c) m es) x = count_of m x + length (filter (\<lambda>e. f e = x) es)"
  by (induction es arbitrary: m) (auto simp: sorted_bump count_of_bump)

lemma last_n_snoc:
  "drop (length xs + 1 - n) (xs @ [x]) =
     (let ys = drop (length xs - n) xs in (if length ys = n then tl ys else ys) @ [x])" if "0 < n"
  using that by (auto simp: Let_def drop_Suc tl_drop Suc_diff_le)

section \<open>Properties\<close>

text \<open>A reader is denied exactly when it was identified and a rule occurs in its cgroup path, and the rule
  named is the first of the list that does; an unidentified reader is allowed.\<close>

theorem policy_denies_first_match:
  "policy_decide rules None = Hydrate \<and>
   (policy_decide rules (Some c) = Deny r \<longleftrightarrow> find (\<lambda>r. sublist r c) rules = Some r) \<and>
   (policy_decide rules (Some c) = Hydrate \<longleftrightarrow> filter (\<lambda>r. sublist r c) rules = [])"
  by (auto simp: policy_decide_def first_match_find first_match_Hydrate_iff [symmetric] filter_empty_conv
      split: option.splits)

lemma failure_record_all_snoc:
  "failure_record_all l (fs @ [f]) = failure_record (failure_record_all l fs) (fl_reason f) (fl_path f)"
  by (simp add: failure_record_all_def)

text \<open>The failure log counts every failure and stays small: after any sequence of failures the total is
  their number, each reason's count is the number of failures with that reason, and the ones kept are the
  last sixty-four in order.\<close>

theorem failure_log_accounts:
  "fl_total (failure_record_all failure_log_default fs) = length fs \<and>
   count_of (failure_summary (failure_record_all failure_log_default fs)) r
     = length (filter (\<lambda>f. fl_reason f = r) fs) \<and>
   fl_recent (failure_record_all failure_log_default fs) = drop (length fs - failures_kept) fs"
proof -
  have c: "fl_counts (failure_record_all l fs) = foldl (\<lambda>c e. bump (fl_reason e) c) (fl_counts l) fs" for l
    by (induction fs arbitrary: l) (auto simp: failure_record_all_def failure_record_def Let_def)
  have "fl_total (failure_record_all failure_log_default fs) = length fs \<and>
      fl_recent (failure_record_all failure_log_default fs) = drop (length fs - failures_kept) fs"
  proof (induction fs rule: rev_induct)
    case Nil
    then show ?case by (simp add: failure_record_all_def failure_log_default_def)
  next
    case (snoc f fs)
    have "\<lparr>fl_reason = fl_reason f, fl_path = fl_path f\<rparr> = f" by simp
    with snoc last_n_snoc [of failures_kept fs f] show ?case
      by (simp add: failure_record_all_snoc failure_record_def Let_def failures_kept_def)
  qed
  moreover have "count_of (foldl (\<lambda>c e. bump (fl_reason e) c) [] fs) r = length (filter (\<lambda>f. fl_reason f = r) fs)"
    using count_summary [of "[]" fl_reason fs r] by (simp add: count_of_def)
  ultimately show ?thesis by (simp add: failure_summary_def c) (simp add: failure_log_default_def)
qed

end
