(* ===== verification/Kernel_File.thy ===== *)
theory Kernel_File
  imports Span
begin

text \<open>
  The file behind an event descriptor, and the system calls the sources issue on it.  A byte of the
  file is present or in a hole (a hole reads as zero); the placeholder mark, the inode flags and
  the two recorded attributes are fields.  Every call may fail: \<open>k_plan\<close> lists the outcomes of the
  calls still to come (all succeed once it is used up), so a statement about every plan is a
  statement about every combination of faults.  \<open>k_time\<close> is what a change of content puts into
  the modification time; nothing is assumed about how it moves.  \<open>k_errno\<close> is what \<open>errno\<close> holds
  when a call that did not fail is followed by a read of it.
\<close>

unbundle bit_operations_syntax

section \<open>State\<close>

record inode =
  f_id :: file_id
  f_size :: u64
  f_nlink :: nat
  f_data :: "u64 \<Rightarrow> u8 option"
  f_mark :: bool
  f_flags :: u64
  f_mtime :: int
  f_mtime_nsec :: int
  f_stamp :: "string option"
  f_hydrated_at :: "string option"

datatype outcome = SysOk | SysShort nat | SysErr int

record kernel =
  k_file :: inode
  k_plan :: "outcome list"
  k_time :: "int \<times> int"
  k_wall :: u64
  k_errno :: int

text \<open>The bytes of a file that are not in a hole.\<close>

definition present :: "inode \<Rightarrow> u64 set" where
  "present f = {p. f_data f p \<noteq> None}"

section \<open>Calls that return a result and the kernel they leave\<close>

type_synonym 'a sys = "kernel \<Rightarrow> (io_error + 'a) \<times> kernel"

definition sys_return :: "'a \<Rightarrow> 'a sys" where
  "sys_return a k = (Inr a, k)"

definition sys_fail :: "io_error \<Rightarrow> 'a sys" where
  "sys_fail e k = (Inl e, k)"

text \<open>The \<open>?\<close> operator: the first error leaves the function.\<close>

definition sys_bind :: "'a sys \<Rightarrow> ('a \<Rightarrow> 'b sys) \<Rightarrow> 'b sys" where
  "sys_bind m f k = (case m k of (Inl e, k') \<Rightarrow> (Inl e, k') | (Inr a, k') \<Rightarrow> f a k')"

text \<open>\<open>let _ = m;\<close>: the call is made and its result dropped.\<close>

definition sys_ignore :: "'a sys \<Rightarrow> unit sys" where
  "sys_ignore m k = (Inr (), snd (m k))"

text \<open>A cleanup runs on the error path and the original error is returned.\<close>

definition sys_or_else :: "'a sys \<Rightarrow> unit sys \<Rightarrow> 'a sys" where
  "sys_or_else m cleanup k =
     (case m k of (Inl e, k') \<Rightarrow> (Inl e, snd (cleanup k')) | (Inr a, k') \<Rightarrow> (Inr a, k'))"

definition next_outcome :: "kernel \<Rightarrow> outcome \<times> kernel" where
  "next_outcome k =
     (case k_plan k of [] \<Rightarrow> (SysOk, k) | r # rs \<Rightarrow> (r, k\<lparr>k_plan := rs\<rparr>))"

text \<open>A call that fails as planned and otherwise acts.\<close>

definition sys_call :: "'a sys \<Rightarrow> 'a sys" where
  "sys_call act k =
     (case next_outcome k of (SysErr e, k') \<Rightarrow> (Inl (Os e), k') | (_, k') \<Rightarrow> act k')"

section \<open>Content\<close>

definition file_touch :: "int \<times> int \<Rightarrow> inode \<Rightarrow> inode" where
  "file_touch t f = f\<lparr>f_mtime := fst t, f_mtime_nsec := snd t\<rparr>"

definition data_write :: "(u64 \<Rightarrow> u8 option) \<Rightarrow> u64 \<Rightarrow> u8 list \<Rightarrow> u64 \<Rightarrow> u8 option" where
  "data_write d off bs p =
     (if off \<le> p \<and> unat (p - off) < length bs then Some (bs ! unat (p - off)) else d p)"

definition data_punch :: "(u64 \<Rightarrow> u8 option) \<Rightarrow> span \<Rightarrow> u64 \<Rightarrow> u8 option" where
  "data_punch d s p = (if p \<in> span_bytes s then None else d p)"

definition file_write :: "int \<times> int \<Rightarrow> u64 \<Rightarrow> u8 list \<Rightarrow> inode \<Rightarrow> inode" where
  "file_write t off bs f =
     file_touch t (f\<lparr>f_data := data_write (f_data f) off bs,
                     f_size := max (f_size f) (off + of_nat (length bs))\<rparr>)"

definition file_punch :: "int \<times> int \<Rightarrow> span \<Rightarrow> inode \<Rightarrow> inode" where
  "file_punch t s f = file_touch t (f\<lparr>f_data := data_punch (f_data f) s\<rparr>)"

section \<open>System calls\<close>

definition sys_fsync :: "unit sys" where
  "sys_fsync = sys_call (sys_return ())"

text \<open>\<open>pwrite\<close> may write less than it was given; the count is returned.\<close>

definition sys_pwrite :: "u8 list \<Rightarrow> u64 \<Rightarrow> nat sys" where
  "sys_pwrite bs off k =
     (case next_outcome k of
        (SysErr e, k') \<Rightarrow> (Inl (Os e), k')
      | (SysOk, k') \<Rightarrow>
          (Inr (length bs), k'\<lparr>k_file := file_write (k_time k') off bs (k_file k')\<rparr>)
      | (SysShort n, k') \<Rightarrow>
          (let ws = take n bs
           in (Inr (length ws),
               if ws = [] then k' else k'\<lparr>k_file := file_write (k_time k') off ws (k_file k')\<rparr>)))"

text \<open>
  \<open>fallocate(PUNCH_HOLE | KEEP_SIZE)\<close>: the extents go, the size stays, the modification time moves,
  and a length of zero is \<open>EINVAL\<close>.
\<close>

definition sys_punch :: "u64 \<Rightarrow> u64 \<Rightarrow> unit sys" where
  "sys_punch off n =
     sys_call (\<lambda>k. if n = 0 then (Inl (Os EINVAL), k)
                   else (Inr (), k\<lparr>k_file := file_punch (k_time k) (span_new off n) (k_file k)\<rparr>))"

definition sys_remove_mark :: "unit sys" where
  "sys_remove_mark =
     sys_call (\<lambda>k. if f_mark (k_file k) then (Inr (), k\<lparr>k_file := (k_file k)\<lparr>f_mark := False\<rparr>\<rparr>)
                   else (Inl (Os ENODATA), k))"

definition sys_set_mark :: "unit sys" where
  "sys_set_mark = sys_call (\<lambda>k. (Inr (), k\<lparr>k_file := (k_file k)\<lparr>f_mark := True\<rparr>\<rparr>))"

definition sys_has_mark :: "bool sys" where
  "sys_has_mark =
     sys_call (\<lambda>k. if f_mark (k_file k) then (Inr True, k) else (Inl (Os ENODATA), k))"

definition sys_getflags :: "u64 sys" where
  "sys_getflags = sys_call (\<lambda>k. (Inr (f_flags (k_file k)), k))"

definition sys_setflags :: "u64 \<Rightarrow> unit sys" where
  "sys_setflags want = sys_call (\<lambda>k. (Inr (), k\<lparr>k_file := (k_file k)\<lparr>f_flags := want\<rparr>\<rparr>))"

definition sys_fstat :: "inode sys" where
  "sys_fstat = sys_call (\<lambda>k. (Inr (k_file k), k))"

definition sys_set_stamp :: "string \<Rightarrow> unit sys" where
  "sys_set_stamp v = sys_call (\<lambda>k. (Inr (), k\<lparr>k_file := (k_file k)\<lparr>f_stamp := Some v\<rparr>\<rparr>))"

definition sys_set_hydrated :: "string \<Rightarrow> unit sys" where
  "sys_set_hydrated v =
     sys_call (\<lambda>k. (Inr (), k\<lparr>k_file := (k_file k)\<lparr>f_hydrated_at := Some v\<rparr>\<rparr>))"

text \<open>
  \<open>getxattr\<close> into a buffer of \<open>cap\<close> bytes.  The three errors that mean there is no usable value
  (\<open>ENODATA\<close>, \<open>ENOTSUP\<close>, \<open>ERANGE\<close>) are left for the caller to read as \<open>None\<close>.
\<close>

definition sys_getxattr :: "(inode \<Rightarrow> string option) \<Rightarrow> nat \<Rightarrow> string sys" where
  "sys_getxattr field cap =
     sys_call (\<lambda>k. case field (k_file k) of
                     None \<Rightarrow> (Inl (Os ENODATA), k)
                   | Some v \<Rightarrow> if cap < length v then (Inl (Os ERANGE), k) else (Inr v, k))"

text \<open>\<open>lseek(fd, 0, SEEK_DATA)\<close>: \<open>ENXIO\<close> when the file is a hole from end to end.\<close>

definition sys_seek_data :: "unit sys" where
  "sys_seek_data =
     sys_call (\<lambda>k. if \<exists>p<f_size (k_file k). f_data (k_file k) p \<noteq> None then (Inr (), k)
                   else (Inl (Os ENXIO), k))"

section \<open>Rules for the calls\<close>

text \<open>
  A predicate on the file that no outcome of a call disturbs.  \<open>keeps P m\<close> is the only form in
  which the components state what a sequence of calls leaves alone, so it composes.
\<close>

definition keeps :: "(inode \<Rightarrow> bool) \<Rightarrow> 'a sys \<Rightarrow> bool" where
  "keeps P m \<longleftrightarrow> (\<forall>k. P (k_file k) \<longrightarrow> P (k_file (snd (m k))))"

named_theorems keeps_rules \<open>what each call leaves alone\<close>

lemma keepsD: "keeps P m \<Longrightarrow> P (k_file k) \<Longrightarrow> P (k_file (snd (m k)))"
  by (simp add: keeps_def)

lemma keeps_return [keeps_rules, intro]: "keeps P (sys_return a)"
  by (simp add: keeps_def sys_return_def)

lemma keeps_fail [keeps_rules, intro]: "keeps P (sys_fail e)"
  by (simp add: keeps_def sys_fail_def)

lemma keeps_bind [intro]: "keeps P m \<Longrightarrow> (\<And>a. keeps P (f a)) \<Longrightarrow> keeps P (sys_bind m f)"
  by (fastforce simp: keeps_def sys_bind_def split: sum.splits prod.splits)

lemma keeps_ignore [intro]: "keeps P m \<Longrightarrow> keeps P (sys_ignore m)"
  by (simp add: keeps_def sys_ignore_def)

lemma keeps_or_else [intro]: "keeps P m \<Longrightarrow> keeps P c \<Longrightarrow> keeps P (sys_or_else m c)"
  by (fastforce simp: keeps_def sys_or_else_def split: sum.splits prod.splits)

lemma k_file_next_outcome [simp]: "next_outcome k = (r, k') \<Longrightarrow> k_file k' = k_file k"
  by (auto simp: next_outcome_def split: list.splits)

lemma keeps_call [intro]: "keeps P act \<Longrightarrow> keeps P (sys_call act)"
  by (auto simp: keeps_def sys_call_def split: prod.splits outcome.splits)

lemma sys_call_Inr:
  "sys_call act k = (Inr a, k') \<Longrightarrow> \<exists>k0. k_file k0 = k_file k \<and> act k0 = (Inr a, k')"
  by (auto simp: sys_call_def split: prod.splits outcome.splits intro: k_file_next_outcome)

lemma sys_call_Inl:
  "sys_call act k = (Inl e, k') \<Longrightarrow>
     k_file k' = k_file k \<or> (\<exists>k0. k_file k0 = k_file k \<and> act k0 = (Inl e, k'))"
  by (auto simp: sys_call_def split: prod.splits outcome.splits intro: k_file_next_outcome)

lemma sys_bind_Inr:
  "sys_bind m f k = (Inr b, k'') \<longleftrightarrow> (\<exists>a k'. m k = (Inr a, k') \<and> f a k' = (Inr b, k''))"
  by (auto simp: sys_bind_def split: sum.splits prod.splits)

lemma sys_bind_Inl:
  "sys_bind m f k = (Inl e, k'') \<longleftrightarrow>
     m k = (Inl e, k'') \<or> (\<exists>a k'. m k = (Inr a, k') \<and> f a k' = (Inl e, k''))"
  by (auto simp: sys_bind_def split: sum.splits prod.splits)

section \<open>What a reader can see\<close>

text \<open>
  \<open>core\<close> is the part of a file a reader and the worker decide on; the calls that leave it alone are
  \<open>quiet\<close>.  \<open>agrees obj f\<close> says no byte of the file differs from the object's.
\<close>

definition core :: "inode \<Rightarrow> file_id \<times> u64 \<times> nat \<times> (u64 \<Rightarrow> u8 option) \<times> bool" where
  "core f = (f_id f, f_size f, f_nlink f, f_data f, f_mark f)"

definition quiet :: "'a sys \<Rightarrow> bool" where
  "quiet m \<longleftrightarrow> (\<forall>k. core (k_file (snd (m k))) = core (k_file k))"

definition complete :: "inode \<Rightarrow> bool" where
  "complete f \<longleftrightarrow> (\<forall>p<f_size f. f_data f p \<noteq> None)"

definition file_safe :: "inode \<Rightarrow> bool" where
  "file_safe f \<longleftrightarrow> f_mark f \<or> complete f"

definition agrees :: "(u64 \<Rightarrow> u8) \<Rightarrow> inode \<Rightarrow> bool" where
  "agrees obj f \<longleftrightarrow> (\<forall>p. f_data f p = None \<or> f_data f p = Some (obj p))"

lemma core_eq:
  "core f = core g \<longleftrightarrow> f_id f = f_id g \<and> f_size f = f_size g \<and> f_nlink f = f_nlink g \<and>
     f_data f = f_data g \<and> f_mark f = f_mark g"
  by (auto simp: core_def)

lemma quietD: "quiet m \<Longrightarrow> m k = (r, k') \<Longrightarrow> core (k_file k') = core (k_file k)"
  by (metis quiet_def snd_conv)

named_theorems quiet_rules \<open>what no call of a group changes\<close>

lemma quiet_return [quiet_rules]: "quiet (sys_return a)"
  by (simp add: quiet_def sys_return_def)

lemma quiet_fail [quiet_rules]: "quiet (sys_fail e)"
  by (simp add: quiet_def sys_fail_def)

lemma quiet_bind [quiet_rules]: "quiet m \<Longrightarrow> (\<And>a. quiet (f a)) \<Longrightarrow> quiet (sys_bind m f)"
  unfolding quiet_def sys_bind_def by (auto split: sum.splits prod.splits) (metis snd_conv)+

lemma quiet_ignore [quiet_rules]: "quiet m \<Longrightarrow> quiet (sys_ignore m)"
  by (simp add: quiet_def sys_ignore_def)

lemma quiet_or_else [quiet_rules]: "quiet m \<Longrightarrow> quiet c \<Longrightarrow> quiet (sys_or_else m c)"
  unfolding quiet_def sys_or_else_def by (auto split: sum.splits prod.splits) (metis snd_conv)+

lemma quiet_call: "quiet act \<Longrightarrow> quiet (sys_call act)"
  by (auto simp: quiet_def sys_call_def split: prod.splits outcome.splits)

lemma quiet_fsync [quiet_rules]: "quiet sys_fsync"
  unfolding sys_fsync_def by (intro quiet_call quiet_rules)

lemma quiet_fstat [quiet_rules]: "quiet sys_fstat"
  unfolding sys_fstat_def by (rule quiet_call) (simp add: quiet_def)

lemma quiet_getflags [quiet_rules]: "quiet sys_getflags"
  unfolding sys_getflags_def by (rule quiet_call) (simp add: quiet_def)

lemma quiet_setflags [quiet_rules]: "quiet (sys_setflags w)"
  unfolding sys_setflags_def by (rule quiet_call) (simp add: quiet_def core_eq)

lemma quiet_set_stamp [quiet_rules]: "quiet (sys_set_stamp v)"
  unfolding sys_set_stamp_def by (rule quiet_call) (simp add: quiet_def core_eq)

lemma quiet_set_hydrated [quiet_rules]: "quiet (sys_set_hydrated v)"
  unfolding sys_set_hydrated_def by (rule quiet_call) (simp add: quiet_def core_eq)

lemma quiet_has_mark [quiet_rules]: "quiet sys_has_mark"
  unfolding sys_has_mark_def by (rule quiet_call) (simp add: quiet_def)

lemma quiet_seek_data [quiet_rules]: "quiet sys_seek_data"
  unfolding sys_seek_data_def by (rule quiet_call) (simp add: quiet_def)

lemma quiet_getxattr [quiet_rules]: "quiet (sys_getxattr field cap)"
  unfolding sys_getxattr_def by (rule quiet_call) (simp add: quiet_def split: option.split)

text \<open>What the two calls that change content and the two that change the mark can leave.\<close>

lemma sys_fstat_Inr: "sys_fstat k = (Inr st, k') \<Longrightarrow> st = k_file k \<and> k_file k' = k_file k"
  unfolding sys_fstat_def by (auto dest!: sys_call_Inr)

lemma sys_punch_file:
  "sys_punch off n k = (r, k') \<Longrightarrow>
     (\<exists>t. k_file k' = file_punch t (span_new off n) (k_file k)) \<and> n \<noteq> 0 \<or>
     (\<exists>e. r = Inl e) \<and> k_file k' = k_file k"
  unfolding sys_punch_def
  apply (cases r)
   apply (auto dest!: sys_call_Inl split: if_splits) [1]
  apply hypsubst
  apply (drule sys_call_Inr)
  apply (clarsimp simp del: split_paired_Ex split: if_splits)
  apply blast
  done

lemma sys_punch_Inr:
  "sys_punch off n k = (Inr u, k') \<Longrightarrow>
     n \<noteq> 0 \<and> (\<exists>t. k_file k' = file_punch t (span_new off n) (k_file k))"
  by (auto simp del: split_paired_Ex dest!: sys_punch_file)

lemma sys_remove_mark_file:
  "sys_remove_mark k = (r, k') \<Longrightarrow>
     k_file k' = k_file k \<and> (\<exists>e. r = Inl e) \<or> k_file k' = (k_file k)\<lparr>f_mark := False\<rparr> \<and> r = Inr ()"
  unfolding sys_remove_mark_def
  by (cases r) (auto dest!: sys_call_Inr sys_call_Inl split: if_splits)

lemma sys_set_mark_file:
  "sys_set_mark k = (r, k') \<Longrightarrow>
     k_file k' = k_file k \<and> (\<exists>e. r = Inl e) \<or> k_file k' = (k_file k)\<lparr>f_mark := True\<rparr> \<and> r = Inr ()"
  unfolding sys_set_mark_def
  by (cases r) (auto dest!: sys_call_Inr sys_call_Inl split: if_splits)

lemma core_file_punch:
  "core (file_punch t s f) = (f_id f, f_size f, f_nlink f, data_punch (f_data f) s, f_mark f)"
  by (simp add: core_def file_punch_def file_touch_def)

lemma next_outcome_plan:
  "next_outcome k = (r, k') \<Longrightarrow> set (k_plan k') \<subseteq> set (k_plan k) \<and> (r = SysOk \<or> r \<in> set (k_plan k))"
  by (cases "k_plan k") (auto simp: next_outcome_def)

lemma sys_call_cases:
  obtains (fails) e k0 where "sys_call act k = (Inl (Os e), k0)" "SysErr e \<in> set (k_plan k)"
    "k_file k0 = k_file k" "set (k_plan k0) \<subseteq> set (k_plan k)"
  | (acts) k0 where "sys_call act k = act k0" "k_file k0 = k_file k" "set (k_plan k0) \<subseteq> set (k_plan k)"
proof -
  obtain r k0 where o: "next_outcome k = (r, k0)" by fastforce
  note p = next_outcome_plan [OF o] and f = k_file_next_outcome [OF o]
  show ?thesis
  proof (cases r)
    case (SysErr e)
    then show ?thesis using o p f by (intro fails [of e k0]) (auto simp: sys_call_def)
  qed (use o p f in \<open>auto simp: sys_call_def intro!: acts [of k0]\<close>)
qed

text \<open>A truthful plan never says that an attribute that is there is missing.\<close>

definition truthful :: "kernel \<Rightarrow> bool" where
  "truthful k \<longleftrightarrow> SysErr ENODATA \<notin> set (k_plan k)"

lemma truthful_mono: "truthful k \<Longrightarrow> set (k_plan k') \<subseteq> set (k_plan k) \<Longrightarrow> truthful k'"
  unfolding truthful_def by blast

end
