(* ===== verification/Texts.thy ===== *)
theory Texts
  imports Prelude "HOL-Library.List_Lexorder" "HOL-Library.Char_ord" "HOL-Library.Sublist"
begin

text \<open>
  The parts of Rust's \<open>str\<close> and \<open>Path\<close> the client uses, on byte strings: whether bytes are UTF-8,
  \<open>lines\<close>, \<open>split\<close>, \<open>trim_end\<close>, \<open>trim_matches\<close>, \<open>rsplit_once\<close>, and a \<open>BTreeMap\<close> as an association list
  in key order.  A path is the list of its components.
\<close>

type_synonym path = "string list"

abbreviation newline :: char where "newline \<equiv> CHR 0x0A"
abbreviation return :: char where "return \<equiv> CHR 0x0D"
abbreviation tab :: char where "tab \<equiv> CHR 0x09"
abbreviation slash :: char where "slash \<equiv> CHR 0x2F"
abbreviation backslash :: char where "backslash \<equiv> CHR 0x5C"

section \<open>UTF-8\<close>

definition byte_in :: "nat \<Rightarrow> nat \<Rightarrow> char \<Rightarrow> bool" where
  "byte_in lo hi c \<longleftrightarrow> lo \<le> of_char c \<and> of_char c \<le> hi"

abbreviation cont :: "char \<Rightarrow> bool" where "cont \<equiv> byte_in 0x80 0xBF"

definition wide2 :: "char \<Rightarrow> char \<Rightarrow> bool" where
  "wide2 a b \<longleftrightarrow> byte_in 0xC2 0xDF a \<and> cont b"

definition wide3 :: "char \<Rightarrow> char \<Rightarrow> char \<Rightarrow> bool" where
  "wide3 a b c \<longleftrightarrow> cont c \<and>
     (byte_in 0xE0 0xE0 a \<and> byte_in 0xA0 0xBF b \<or> byte_in 0xE1 0xEC a \<and> cont b \<or>
      byte_in 0xED 0xED a \<and> byte_in 0x80 0x9F b \<or> byte_in 0xEE 0xEF a \<and> cont b)"

definition wide4 :: "char \<Rightarrow> char \<Rightarrow> char \<Rightarrow> char \<Rightarrow> bool" where
  "wide4 a b c d \<longleftrightarrow> cont c \<and> cont d \<and>
     (byte_in 0xF0 0xF0 a \<and> byte_in 0x90 0xBF b \<or> byte_in 0xF1 0xF3 a \<and> cont b \<or>
      byte_in 0xF4 0xF4 a \<and> byte_in 0x80 0x8F b)"

lemmas wide_defs = wide2_def wide3_def wide4_def byte_in_def

text \<open>The bytes left after one well-formed scalar value.\<close>

definition utf8_next :: "string \<Rightarrow> string option" where
  "utf8_next s =
     (case s of
        [] \<Rightarrow> None
      | a # s1 \<Rightarrow> if byte_in 0 0x7F a then Some s1 else
     (case s1 of
        [] \<Rightarrow> None
      | b # s2 \<Rightarrow> if wide2 a b then Some s2 else
     (case s2 of
        [] \<Rightarrow> None
      | c # s3 \<Rightarrow> if wide3 a b c then Some s3 else
     (case s3 of
        [] \<Rightarrow> None
      | d # s4 \<Rightarrow> if wide4 a b c d then Some s4 else None))))"

lemma utf8_next_shorter: "utf8_next s = Some r \<Longrightarrow> length r < length s"
  by (simp add: utf8_next_def split: if_split_asm list.split_asm)

function is_utf8 :: "string \<Rightarrow> bool" where
  "is_utf8 s = (s = [] \<or> (case utf8_next s of None \<Rightarrow> False | Some r \<Rightarrow> is_utf8 r))"
  by pat_completeness auto

termination
  by (relation "measure length") (auto dest: utf8_next_shorter)

declare is_utf8.simps [simp del]

lemma is_utf8_Nil [simp]: "is_utf8 []"
  by (simp add: is_utf8.simps)

lemma is_utf8_ascii_Cons [simp]: "byte_in 0 0x7F a \<Longrightarrow> is_utf8 (a # s) = is_utf8 s"
  by (simp add: is_utf8.simps [of "a # s"] utf8_next_def)

lemma is_utf8_ascii: "list_all (byte_in 0 0x7F) s \<Longrightarrow> is_utf8 (s @ t) = is_utf8 t"
  by (induction s) simp_all

lemma list_widths:
  obtains "s = []" | a where "s = [a]" | a b where "s = [a, b]" | a b c where "s = [a, b, c]"
    | a b c d r where "s = a # b # c # d # r"
  by (metis list.exhaust)

lemma utf8_next_append: "utf8_next s = Some r \<Longrightarrow> utf8_next (s @ t) = Some (r @ t)"
  by (rule list_widths [of s]) (simp_all add: utf8_next_def split: if_split_asm list.split_asm)

lemma is_utf8_append: "is_utf8 s \<Longrightarrow> is_utf8 (s @ t) = is_utf8 t"
proof (induction s rule: is_utf8.induct)
  case (1 s)
  show ?case
  proof (cases "s = []")
    case False
    then obtain r where r: "utf8_next s = Some r" "is_utf8 r"
      using 1(2) by (auto simp: is_utf8.simps [of s] split: option.splits)
    have "is_utf8 (s @ t) = is_utf8 (r @ t)"
      using False utf8_next_append [OF r(1)] by (subst is_utf8.simps) simp
    then show ?thesis using 1(1) r False by simp
  qed simp
qed

section \<open>Lines, fields and ends\<close>

text \<open>A line that ends in a newline also loses one carriage return before it; the last one keeps it.\<close>

definition strip_return :: "string \<Rightarrow> string" where
  "strip_return s = (if s \<noteq> [] \<and> last s = return then butlast s else s)"

lemma dropWhile_Cons_shorter: "dropWhile P s = x # r \<Longrightarrow> length r < length s"
  by (metis length_Cons length_dropWhile_le less_eq_Suc_le)

function str_lines :: "string \<Rightarrow> string list" where
  "str_lines s =
     (if s = [] then []
      else case dropWhile (\<lambda>c. c \<noteq> newline) s of
             [] \<Rightarrow> [s]
           | _ # rest \<Rightarrow> strip_return (takeWhile (\<lambda>c. c \<noteq> newline) s) # str_lines rest)"
  by pat_completeness auto

termination
  by (relation "measure length") (auto dest: dropWhile_Cons_shorter)

declare str_lines.simps [simp del]

lemma str_lines_Nil [simp]: "str_lines [] = []"
  by (simp add: str_lines.simps)

lemma str_lines_line:
  assumes "newline \<notin> set s"
  shows "str_lines (s @ newline # t) = strip_return s # str_lines t"
proof -
  have "dropWhile (\<lambda>c. c \<noteq> newline) (s @ newline # t) = newline # t"
    "takeWhile (\<lambda>c. c \<noteq> newline) (s @ newline # t) = s"
    using assms by (auto simp: dropWhile_append takeWhile_append)
  then show ?thesis by (subst str_lines.simps) simp
qed

fun split_on :: "char \<Rightarrow> string \<Rightarrow> string list" where
  "split_on c [] = [[]]"
| "split_on c (x # s) =
     (if x = c then [] # split_on c s
      else case split_on c s of [] \<Rightarrow> [[x]] | f # fs \<Rightarrow> (x # f) # fs)"

lemma split_on_nonempty [simp]: "split_on c s \<noteq> []"
  by (cases s) (auto split: list.splits)

lemma split_on_append: "c \<notin> set s \<Longrightarrow> split_on c (s @ c # t) = s # split_on c t"
  by (induction s) auto

lemma split_on_no [simp]: "c \<notin> set s \<Longrightarrow> split_on c s = [s]"
  by (induction s) auto

fun join_with :: "char \<Rightarrow> string list \<Rightarrow> string" where
  "join_with c [] = []"
| "join_with c [s] = s"
| "join_with c (s # t # ts) = s @ c # join_with c (t # ts)"

lemma join_split: "join_with c (split_on c s) = s"
proof (induction s)
  case (Cons x s)
  then show ?case by (cases "split_on c s"; cases "tl (split_on c s)") auto
qed simp

lemma split_join: "ss \<noteq> [] \<Longrightarrow> \<forall>s\<in>set ss. c \<notin> set s \<Longrightarrow> split_on c (join_with c ss) = ss"
  by (induction c ss rule: join_with.induct) (auto simp: split_on_append)

text \<open>The encodings of the scalar values Unicode calls white space, last byte first.\<close>

definition white_space :: "string list" where
  "white_space =
     [[CHR 0x09], [CHR 0x0A], [CHR 0x0B], [CHR 0x0C], [CHR 0x0D], [CHR 0x20],
      [CHR 0x85, CHR 0xC2], [CHR 0xA0, CHR 0xC2], [CHR 0x80, CHR 0x9A, CHR 0xE1],
      [CHR 0x80, CHR 0x80, CHR 0xE2], [CHR 0x81, CHR 0x80, CHR 0xE2], [CHR 0x82, CHR 0x80, CHR 0xE2],
      [CHR 0x83, CHR 0x80, CHR 0xE2], [CHR 0x84, CHR 0x80, CHR 0xE2], [CHR 0x85, CHR 0x80, CHR 0xE2],
      [CHR 0x86, CHR 0x80, CHR 0xE2], [CHR 0x87, CHR 0x80, CHR 0xE2], [CHR 0x88, CHR 0x80, CHR 0xE2],
      [CHR 0x89, CHR 0x80, CHR 0xE2], [CHR 0x8A, CHR 0x80, CHR 0xE2], [CHR 0xA8, CHR 0x80, CHR 0xE2],
      [CHR 0xA9, CHR 0x80, CHR 0xE2], [CHR 0xAF, CHR 0x80, CHR 0xE2], [CHR 0x9F, CHR 0x81, CHR 0xE2],
      [CHR 0x80, CHR 0x80, CHR 0xE3]]"

function trim_rev :: "string \<Rightarrow> string" where
  "trim_rev s =
     (case List.find (\<lambda>w. w \<noteq> [] \<and> prefix w s) white_space of
        None \<Rightarrow> s
      | Some w \<Rightarrow> if w = [] then s else trim_rev (drop (length w) s))"
  by pat_completeness auto

termination
proof (relation "measure length", goal_cases)
  case (2 s w)
  then have "prefix w s" "w \<noteq> []" by (auto simp: find_Some_iff)
  then show ?case by (cases s) (auto simp: prefix_def)
qed simp

declare trim_rev.simps [simp del]

definition trim_end :: "string \<Rightarrow> string" where
  "trim_end s = rev (trim_rev (rev s))"

definition trim_slashes :: "string \<Rightarrow> string" where
  "trim_slashes s = rev (dropWhile (\<lambda>c. c = slash) (rev (dropWhile (\<lambda>c. c = slash) s)))"

definition strip_prefix :: "string \<Rightarrow> string \<Rightarrow> string option" where
  "strip_prefix p s = (if prefix p s then Some (drop (length p) s) else None)"

text \<open>The last occurrence of a pattern.\<close>

definition rsplit_once :: "string \<Rightarrow> string \<Rightarrow> (string \<times> string) option" where
  "rsplit_once p s =
     (case filter (\<lambda>i. prefix p (drop i s)) (rev [0..<Suc (length s)]) of
        [] \<Rightarrow> None
      | i # _ \<Rightarrow> Some (take i s, drop (i + length p) s))"

section \<open>Paths\<close>

definition path_str :: "path \<Rightarrow> string option" where
  "path_str p = (let s = join_with slash p in if is_utf8 s then Some s else None)"

text \<open>\<open>Path::strip_prefix\<close> works on components.\<close>

definition path_below :: "path \<Rightarrow> path \<Rightarrow> path option" where
  "path_below root p = (if prefix root p then Some (drop (length root) p) else None)"

section \<open>A map in key order\<close>

fun bt_insert :: "'a::linorder \<Rightarrow> 'b \<Rightarrow> ('a \<times> 'b) list \<Rightarrow> ('a \<times> 'b) list" where
  "bt_insert k v [] = [(k, v)]"
| "bt_insert k v (e # es) =
     (if k < fst e then (k, v) # e # es
      else if k = fst e then (k, v) # es
      else e # bt_insert k v es)"

definition bt_ok :: "('a::linorder \<times> 'b) list \<Rightarrow> bool" where
  "bt_ok m \<longleftrightarrow> sorted_wrt (<) (map fst m)"

lemma map_of_bt_insert [simp]: "map_of (bt_insert k v m) = (map_of m)(k \<mapsto> v)"
  by (induction m) auto

lemma keys_bt_insert [simp]: "fst ` set (bt_insert k v m) = insert k (fst ` set m)"
  by (induction m) auto

lemma bt_ok_Nil [simp]: "bt_ok []"
  by (simp add: bt_ok_def)

lemma bt_ok_insert [simp]: "bt_ok m \<Longrightarrow> bt_ok (bt_insert k v m)"
proof (induction m)
  case (Cons e es)
  have "x \<in> fst ` set (bt_insert k v es) \<Longrightarrow> x = k \<or> x \<in> fst ` set es" for x by simp
  then show ?case using Cons by (force simp: bt_ok_def)
qed (simp add: bt_ok_def)

lemma bt_ok_filter: "bt_ok m \<Longrightarrow> bt_ok (filter P m)"
  by (simp add: bt_ok_def sorted_wrt_map sorted_wrt_filter)

lemma bt_ok_distinct: "bt_ok m \<Longrightarrow> distinct (map fst m)"
  by (simp add: bt_ok_def strict_sorted_iff)

lemma map_of_filter_keys:
  "distinct (map fst m) \<Longrightarrow> map_of (filter P m) k = (case map_of m k of Some v \<Rightarrow> if P (k, v) then Some v else None | None \<Rightarrow> None)"
  by (induction m) (auto split: option.splits simp: map_of_eq_None_iff image_iff)

text \<open>Two maps in key order with the same entries are the same list.\<close>

lemma bt_ok_ext:
  assumes "bt_ok m" "bt_ok n" "map_of m = map_of n"
  shows "m = n"
proof -
  have d: "distinct (map fst m)" "distinct (map fst n)" using assms(1,2) by (simp_all add: bt_ok_distinct)
  then have s: "set m = set n" using assms(3) by (simp add: map_of_inject_set)
  then have "inj_on fst (set m \<union> set n)" using d(1) by (simp add: distinct_map)
  then show ?thesis using assms(1,2) d s
    by (intro map_sorted_distinct_set_unique [of fst]) (simp_all add: bt_ok_def strict_sorted_iff distinct_map)
qed

end
