(* ===== verification/Attributes.thy ===== *)
theory Attributes
  imports Kernel_File Texts
begin

text \<open>
  The attributes both halves of the program agree on, of \<open>crates/hydration-protocol/src/lib.rs\<close>:
  the \<open>nodump\<close> inode flag (module \<open>flags\<close>), the stamp of the content the framework last wrote
  (module \<open>stamp\<close>), and the time a file was last brought down (module \<open>hydrated\<close>).  A stamp is
  the text the code formats, so the comparison of two stamps is a comparison of texts.
\<close>

section \<open>Decimal text\<close>

definition digit :: "nat \<Rightarrow> char" where
  "digit d = char_of (48 + d)"

definition digit_value :: "char \<Rightarrow> nat" where
  "digit_value c = of_char c - 48"

definition is_digit :: "char \<Rightarrow> bool" where
  "is_digit c \<longleftrightarrow> 48 \<le> (of_char c :: nat) \<and> (of_char c :: nat) \<le> 57"

fun show_nat :: "nat \<Rightarrow> string" where
  "show_nat n = (if n < 10 then [digit n] else show_nat (n div 10) @ [digit (n mod 10)])"

declare show_nat.simps [simp del]

definition show_int :: "int \<Rightarrow> string" where
  "show_int i = (if i < 0 then CHR ''-'' # show_nat (nat (- i)) else show_nat (nat i))"

definition read_nat :: "string \<Rightarrow> nat" where
  "read_nat = foldl (\<lambda>n c. 10 * n + digit_value c) 0"

text \<open>\<open>str::parse::<u64>\<close>: an optional plus, at least one digit, no overflow.\<close>

definition parse_u64 :: "string \<Rightarrow> u64 option" where
  "parse_u64 s =
     (let ds = (case s of c # cs \<Rightarrow> if c = CHR ''+'' then cs else s | [] \<Rightarrow> [])
      in if ds \<noteq> [] \<and> list_all is_digit ds \<and> read_nat ds < 2 ^ 64 then Some (of_nat (read_nat ds))
         else None)"

section \<open>The nodump flag\<close>

definition nodump :: u64 where
  "nodump = 0x40"

definition unsupported_or :: "io_error \<Rightarrow> io_error" where
  "unsupported_or e =
     (case raw_os_error e of
        Some n \<Rightarrow> if n = ENOTTY \<or> n = EOPNOTSUPP then Custom Unsupported else e
      | None \<Rightarrow> e)"

definition sys_map_err :: "(io_error \<Rightarrow> io_error) \<Rightarrow> 'a sys \<Rightarrow> 'a sys" where
  "sys_map_err f m k = (case m k of (Inl e, k') \<Rightarrow> (Inl (f e), k') | (Inr a, k') \<Rightarrow> (Inr a, k'))"

definition set_nodump_fd :: "bool \<Rightarrow> unit sys" where
  "set_nodump_fd on =
     sys_bind (sys_map_err unsupported_or sys_getflags) (\<lambda>cur.
       let want = (if on then cur OR nodump else cur AND NOT nodump)
       in if want \<noteq> cur then sys_map_err unsupported_or (sys_setflags want) else sys_return ())"

definition has_nodump :: "bool sys" where
  "has_nodump =
     sys_bind (sys_map_err unsupported_or sys_getflags) (\<lambda>cur. sys_return (cur AND nodump \<noteq> 0))"

section \<open>The stamp\<close>

definition stamp_of :: "inode \<Rightarrow> string" where
  "stamp_of f =
     show_int (f_mtime f) @ ''.'' @ show_int (f_mtime_nsec f) @ '':'' @ show_nat (unat (f_size f))"

definition stamp_write_fd :: "unit sys" where
  "stamp_write_fd = sys_bind sys_fstat (\<lambda>st. sys_set_stamp (stamp_of st))"

definition stamp_write_as :: "inode \<Rightarrow> unit sys" where
  "stamp_write_as md = sys_set_stamp (stamp_of md)"

datatype stamp_state = Clean | Dirty | Unstamped

text \<open>An attribute that cannot be read for one of the three benign reasons is absent.\<close>

definition xattr_get :: "(inode \<Rightarrow> string option) \<Rightarrow> nat \<Rightarrow> string option sys" where
  "xattr_get field cap k =
     (case sys_getxattr field cap k of
        (Inr v, k') \<Rightarrow> (Inr (Some v), k')
      | (Inl e, k') \<Rightarrow>
          if raw_os_error e \<in> {Some ENODATA, Some EOPNOTSUPP, Some ERANGE} then (Inr None, k')
          else (Inl e, k'))"

definition stamp_state :: "stamp_state sys" where
  "stamp_state =
     sys_bind (xattr_get f_stamp 96) (\<lambda>recorded.
       case recorded of
         None \<Rightarrow> sys_return Unstamped
       | Some v \<Rightarrow>
           if \<not> is_utf8 v then sys_return Unstamped
           else sys_bind sys_fstat (\<lambda>md. sys_return (if v = stamp_of md then Clean else Dirty)))"

section \<open>The acquisition time\<close>

definition hydrated_write_fd :: "unit sys" where
  "hydrated_write_fd k = sys_set_hydrated (show_nat (unat (k_wall k))) k"

definition hydrated_at :: "u64 option sys" where
  "hydrated_at =
     sys_bind (xattr_get f_hydrated_at 32) (\<lambda>v. sys_return (Option.bind v parse_u64))"

section \<open>Facts about decimal text\<close>

lemma digit_value_digit [simp]: "d < 10 \<Longrightarrow> digit_value (digit d) = d"
  by (simp add: digit_value_def digit_def)

lemma is_digit_digit [simp]: "d < 10 \<Longrightarrow> is_digit (digit d)"
  by (simp add: is_digit_def digit_def)

lemma show_nat_digits: "list_all is_digit (show_nat n)"
  by (induction n rule: show_nat.induct) (subst show_nat.simps, simp)

lemma show_nat_nonempty [simp]: "show_nat n \<noteq> []"
  by (subst show_nat.simps) simp

lemma read_show_nat [simp]: "read_nat (show_nat n) = n"
  by (induction n rule: show_nat.induct) (subst show_nat.simps, simp add: read_nat_def)

lemma show_nat_inj [simp]: "show_nat m = show_nat n \<longleftrightarrow> m = n"
  by (metis read_show_nat)

lemma length_show_nat: "n < 10 ^ Suc k \<Longrightarrow> length (show_nat n) \<le> Suc k"
proof (induction k arbitrary: n)
  case 0
  then show ?case by (subst show_nat.simps) simp
next
  case (Suc k)
  then have "n div 10 < 10 ^ Suc k" by (simp add: less_mult_imp_div_less)
  from Suc.IH [OF this] show ?case by (subst show_nat.simps) simp
qed

lemma digit_not_sep: "is_digit c \<Longrightarrow> c \<noteq> CHR ''.'' \<and> c \<noteq> CHR '':'' \<and> c \<noteq> CHR ''-'' \<and> c \<noteq> CHR ''+''"
  by (auto simp: is_digit_def)

lemma show_nat_no_sep:
  "CHR ''.'' \<notin> set (show_nat n)" "CHR '':'' \<notin> set (show_nat n)"
  "CHR ''-'' \<notin> set (show_nat n)" "CHR ''+'' \<notin> set (show_nat n)"
  using show_nat_digits [of n] digit_not_sep by (fastforce simp: list_all_iff)+

lemma show_int_no_sep: "CHR ''.'' \<notin> set (show_int i)" "CHR '':'' \<notin> set (show_int i)"
  by (auto simp: show_int_def show_nat_no_sep)

lemma show_int_inj [simp]: "show_int i = show_int j \<longleftrightarrow> i = j"
proof -
  have "show_nat m \<noteq> CHR ''-'' # xs" for m xs
    using show_nat_no_sep(3) [of m] by (metis list.set_intros(1))
  then show ?thesis by (auto simp: show_int_def dest: sym)
qed

lemma append_sep_eq:
  "c \<notin> set xs \<Longrightarrow> c \<notin> set xs' \<Longrightarrow> xs @ c # ys = xs' @ c # ys' \<longleftrightarrow> xs = xs' \<and> ys = ys'"
proof (induction xs arbitrary: xs')
  case Nil
  then show ?case by (cases xs') auto
next
  case (Cons x xs)
  then show ?case by (cases xs') auto
qed

text \<open>Equal stamps are equal facts: the format loses nothing.\<close>

lemma stamp_of_inj:
  "stamp_of f = stamp_of g \<longleftrightarrow>
     f_mtime f = f_mtime g \<and> f_mtime_nsec f = f_mtime_nsec g \<and> f_size f = f_size g"
  by (auto simp: stamp_of_def append_sep_eq show_int_no_sep word_unat_eq_iff)

lemma length_show_int:
  assumes "- (2 ^ 63) \<le> i" "i < 2 ^ 63"
  shows "length (show_int i) \<le> 20"
proof -
  have "length (show_nat (nat \<bar>i\<bar>)) \<le> Suc 18"
    by (rule length_show_nat) (use assms in auto)
  then show ?thesis by (auto simp: show_int_def)
qed

lemma length_stamp_of:
  assumes "- (2 ^ 63) \<le> f_mtime f" "f_mtime f < 2 ^ 63"
    and "- (2 ^ 63) \<le> f_mtime_nsec f" "f_mtime_nsec f < 2 ^ 63"
  shows "length (stamp_of f) \<le> 96"
proof -
  have "unat (f_size f) < 2 ^ 64" using unsigned_less [of "f_size f", where ?'a = nat] by simp
  then have "length (show_nat (unat (f_size f))) \<le> Suc 19" by (intro length_show_nat) simp
  with length_show_int [OF assms(1,2)] length_show_int [OF assms(3,4)]
  show ?thesis by (simp add: stamp_of_def)
qed

text \<open>A stamp is plain text.\<close>

lemma digit_ascii: "is_digit c \<Longrightarrow> byte_in 0 0x7F c"
  by (simp add: is_digit_def byte_in_def)

lemma show_nat_ascii: "list_all (byte_in 0 0x7F) (show_nat n)"
  using show_nat_digits [of n] by (auto simp: list_all_iff digit_ascii)

lemma show_int_ascii: "list_all (byte_in 0 0x7F) (show_int i)"
  by (simp add: show_int_def show_nat_ascii byte_in_def)

lemma stamp_of_utf8 [simp]: "is_utf8 (stamp_of f)"
  using is_utf8_ascii [of "stamp_of f" "[]"]
  by (simp add: stamp_of_def show_int_ascii show_nat_ascii byte_in_def)

lemma parse_show_u64: "parse_u64 (show_nat (unat (w :: u64))) = Some w"
proof -
  obtain c cs where s: "show_nat (unat w) = c # cs"
    by (cases "show_nat (unat w)") auto
  with show_nat_no_sep(4) [of "unat w"] have "c \<noteq> CHR ''+''" by auto
  moreover have "list_all is_digit (c # cs)" using show_nat_digits [of "unat w"] s by simp
  moreover have "read_nat (c # cs) = unat w" using read_show_nat [of "unat w"] s by simp
  moreover have "unat w < 2 ^ 64" using unsigned_less [of w, where ?'a = nat] by simp
  ultimately show ?thesis unfolding s by (simp add: parse_u64_def Let_def)
qed

section \<open>Properties\<close>

text \<open>A stamp that fits the buffer it is read into: 64-bit times always do.\<close>

definition times_ok :: "inode \<Rightarrow> bool" where
  "times_ok f \<longleftrightarrow> - (2 ^ 63) \<le> f_mtime f \<and> f_mtime f < 2 ^ 63 \<and> - (2 ^ 63) \<le> f_mtime_nsec f \<and> f_mtime_nsec f < 2 ^ 63"

lemma sys_call_plain: "k_plan k = [] \<Longrightarrow> sys_call act k = act k"
  by (simp add: sys_call_def next_outcome_def)

lemma xattr_get_plain:
  "k_plan k = [] \<Longrightarrow> xattr_get field cap k =
     (Inr (case field (k_file k) of None \<Rightarrow> None | Some v \<Rightarrow> if cap < length v then None else Some v), k)"
  by (auto simp: xattr_get_def sys_getxattr_def sys_call_plain split: option.split)

lemma stamp_state_plain:
  "k_plan k = [] \<Longrightarrow> fst (stamp_state k) =
     Inr (case f_stamp (k_file k) of
            None \<Rightarrow> Unstamped
          | Some v \<Rightarrow> if 96 < length v \<or> \<not> is_utf8 v then Unstamped else if v = stamp_of (k_file k) then Clean else Dirty)"
  by (auto simp: stamp_state_def sys_bind_def xattr_get_plain sys_fstat_def sys_call_plain sys_return_def
      split: option.split)

lemma stamp_write_fd_plain:
  "k_plan k = [] \<Longrightarrow>
     stamp_write_fd k = (Inr (), k\<lparr>k_file := (k_file k)\<lparr>f_stamp := Some (stamp_of (k_file k))\<rparr>\<rparr>)"
  by (simp add: stamp_write_fd_def sys_bind_def sys_fstat_def sys_set_stamp_def sys_call_plain)

text \<open>C38: The stamp tells the framework's own writes from everybody else's: a file that was just stamped
  reads back clean, and a file that carries that stamp with another size or modification time reads back
  dirty.\<close>

theorem stamp_distinguishes_edits:
  assumes "k_plan k = []" "times_ok (k_file k)" "f_stamp g = Some (stamp_of (k_file k))"
  shows "fst (stamp_state (snd (stamp_write_fd k))) = Inr Clean \<and>
    (fst (stamp_state (k\<lparr>k_file := g\<rparr>)) = Inr Dirty \<longleftrightarrow>
       \<not> (f_mtime g = f_mtime (k_file k) \<and> f_mtime_nsec g = f_mtime_nsec (k_file k) \<and> f_size g = f_size (k_file k)))"
proof -
  have len: "\<not> 96 < length (stamp_of (k_file k))"
    using length_stamp_of [of "k_file k"] assms(2) by (simp add: times_ok_def)
  have s: "stamp_of (f\<lparr>f_stamp := x\<rparr>) = stamp_of f" for f x by (simp add: stamp_of_def)
  have w: "fst (stamp_state (snd (stamp_write_fd k))) = Inr Clean"
    using assms(1) len by (simp add: stamp_write_fd_plain stamp_state_plain s)
  have "fst (stamp_state (k\<lparr>k_file := g\<rparr>)) =
      Inr (if stamp_of (k_file k) = stamp_of g then Clean else Dirty)"
    using assms(1,3) len by (simp add: stamp_state_plain del: stamp_of_inj)
  then have "fst (stamp_state (k\<lparr>k_file := g\<rparr>)) = Inr Dirty \<longleftrightarrow> stamp_of g \<noteq> stamp_of (k_file k)"
    by (cases "stamp_of (k_file k) = stamp_of g") simp_all
  with w show ?thesis by (simp only: stamp_of_inj simp_thms)
qed

lemma stamp_distinguishes_edits_witness:
  "fst (stamp_state (snd (stamp_write_fd
      \<lparr>k_file = \<lparr>f_id = FileId 1 2, f_size = 3, f_nlink = 1, f_data = (\<lambda>_. None), f_mark = True, f_flags = 0,
          f_mtime = 5, f_mtime_nsec = 6, f_stamp = Some (stamp_of \<lparr>f_id = FileId 1 2, f_size = 3, f_nlink = 1,
            f_data = (\<lambda>_. None), f_mark = True, f_flags = 0, f_mtime = 5, f_mtime_nsec = 6, f_stamp = None,
            f_hydrated_at = None\<rparr>), f_hydrated_at = None\<rparr>,
        k_plan = [], k_time = (0, 0), k_wall = 0, k_errno = 0\<rparr>))) = Inr Clean"
  by (rule stamp_distinguishes_edits [where g = "\<lparr>f_id = FileId 1 2, f_size = 3, f_nlink = 1, f_data = (\<lambda>_. None), f_mark = True, f_flags = 0,
          f_mtime = 5, f_mtime_nsec = 6, f_stamp = Some (stamp_of \<lparr>f_id = FileId 1 2, f_size = 3, f_nlink = 1,
            f_data = (\<lambda>_. None), f_mark = True, f_flags = 0, f_mtime = 5, f_mtime_nsec = 6, f_stamp = None,
            f_hydrated_at = None\<rparr>), f_hydrated_at = None\<rparr>", THEN conjunct1])
     (simp_all add: times_ok_def stamp_of_def)

text \<open>The time a file was brought down, written in decimal and read back, is the clock's value: no
  value of 64 bits is lost in the text or refused by its length.\<close>

theorem hydrated_at_round_trip:
  assumes "k_plan k = []"
  shows "fst (hydrated_at (snd (hydrated_write_fd k))) = Inr (Some (k_wall k))"
proof -
  have "unat (k_wall k) < 2 ^ 64" using unsigned_less [of "k_wall k", where ?'a = nat] by simp
  then have "length (show_nat (unat (k_wall k))) \<le> Suc 19" by (intro length_show_nat) simp
  then show ?thesis using assms parse_show_u64 [of "k_wall k"]
    by (simp add: hydrated_at_def hydrated_write_fd_def sys_bind_def sys_set_hydrated_def sys_call_def next_outcome_def
        xattr_get_def sys_getxattr_def sys_return_def)
qed

lemma hydrated_at_round_trip_witness:
  "fst (hydrated_at (snd (hydrated_write_fd
      \<lparr>k_file = \<lparr>f_id = FileId 1 2, f_size = 3, f_nlink = 1, f_data = (\<lambda>_. None), f_mark = True, f_flags = 0,
          f_mtime = 5, f_mtime_nsec = 6, f_stamp = None, f_hydrated_at = None\<rparr>,
        k_plan = [], k_time = (0, 0), k_wall = 1755000000, k_errno = 0\<rparr>))) = Inr (Some 1755000000)"
  by (subst hydrated_at_round_trip) simp_all

end
