(* ===== verification/Placeholder.thy ===== *)
theory Placeholder
  imports Attributes
begin

text \<open>
  \<open>crates/hydrationd/src/placeholder.rs\<close>: filling a placeholder and undoing that, through the
  descriptor of the event or through a name that keeps naming the file.  Every function is a
  composition of the calls of \<open>Kernel_File\<close>, so its theorems hold for every plan of faults.
  The safety invariant is \<open>file_safe\<close>: a file that does not carry the mark has no hole.
\<close>

section \<open>Operations on a descriptor\<close>

function write_at :: "u8 list \<Rightarrow> u64 \<Rightarrow> unit sys" where
  "write_at bs off k =
     (if bs = [] then (Inr (), k)
      else case sys_pwrite bs off k of
             (Inl e, k') \<Rightarrow> (Inl e, k')
           | (Inr n, k') \<Rightarrow>
               if n = 0 then (Inl (Os (k_errno k')), k')
               else write_at (drop n bs) (off + of_nat n) k')"
  by pat_completeness auto

termination
  by (relation "measure (\<lambda>(bs, _, _). length bs)") auto

declare write_at.simps [simp del]

definition unmark_fd :: "unit sys" where
  "unmark_fd k =
     (case sys_remove_mark k of
        (Inl e, k') \<Rightarrow> if raw_os_error e \<noteq> Some ENODATA then (Inl e, k') else (Inr (), k')
      | (Inr _, k') \<Rightarrow> (Inr (), k'))"

definition punch_range_fd :: "u64 \<Rightarrow> u64 \<Rightarrow> unit sys" where
  "punch_range_fd off n = (if n = 0 then sys_return () else sys_punch off n)"

definition punch_fd :: "u64 \<Rightarrow> unit sys" where
  "punch_fd n = punch_range_fd 0 n"

definition has_mark_fd :: "bool sys" where
  "has_mark_fd k =
     (case sys_has_mark k of
        (Inr _, k') \<Rightarrow> (Inr True, k')
      | (Inl e, k') \<Rightarrow>
          if raw_os_error e \<in> {Some ENODATA, Some EOPNOTSUPP} then (Inr False, k') else (Inl e, k'))"

definition holds_data_fd :: "bool sys" where
  "holds_data_fd k =
     (case sys_seek_data k of
        (Inr _, k') \<Rightarrow> (Inr True, k')
      | (Inl e, k') \<Rightarrow> if raw_os_error e = Some ENXIO then (Inr False, k') else (Inl e, k'))"

definition id_and_size_fd :: "(file_id \<times> u64) sys" where
  "id_and_size_fd = sys_bind sys_fstat (\<lambda>st. sys_return (f_id st, f_size st))"

text \<open>The flag is cleared, and a filesystem without it has nothing to clear.\<close>

definition clear_nodump_fd :: "unit sys" where
  "clear_nodump_fd k =
     (case set_nodump_fd False k of
        (Inr _, k') \<Rightarrow> (Inr (), k')
      | (Inl e, k') \<Rightarrow> if kind_of e = Unsupported then (Inr (), k') else (Inl e, k'))"

text \<open>What a failed write or flush owes the file: everything punched, then the stamp.\<close>

definition rollback_fd :: "u64 \<Rightarrow> unit sys" where
  "rollback_fd expected =
     sys_bind (sys_ignore (punch_fd expected)) (\<lambda>_. sys_ignore stamp_write_fd)"

definition record_fill_fd :: "unit sys" where
  "record_fill_fd =
     sys_bind (sys_ignore stamp_write_fd) (\<lambda>_. sys_ignore hydrated_write_fd)"

definition hydrate_fd :: "u8 list \<Rightarrow> u64 \<Rightarrow> unit sys" where
  "hydrate_fd content expected =
     (if of_nat (length content) \<noteq> expected then sys_fail (Custom InvalidData)
      else sys_bind (sys_or_else (write_at content 0) (rollback_fd expected)) (\<lambda>_.
           sys_bind (sys_or_else sys_fsync (rollback_fd expected)) (\<lambda>_.
           sys_bind unmark_fd (\<lambda>_.
           sys_bind clear_nodump_fd (\<lambda>_. record_fill_fd)))))"

definition finish_hydration :: "u64 \<Rightarrow> unit sys" where
  "finish_hydration expected =
     sys_bind (sys_or_else sys_fsync (rollback_fd expected)) (\<lambda>_.
     sys_bind unmark_fd (\<lambda>_.
     sys_bind clear_nodump_fd (\<lambda>_. record_fill_fd)))"

definition settle_range :: "unit sys" where
  "settle_range = sys_bind sys_fsync (\<lambda>_. sys_ignore stamp_write_fd)"

definition abandon :: "u64 \<Rightarrow> unit sys" where
  "abandon expected = sys_bind (punch_fd expected) (\<lambda>_. sys_ignore stamp_write_fd)"

definition clear_residue :: "u64 \<Rightarrow> unit sys" where
  "clear_residue expected = punch_fd expected"

section \<open>Operations on a name\<close>

text \<open>Opening the name is one more call that may fail.\<close>

definition sys_open :: "unit sys" where
  "sys_open = sys_call (sys_return ())"

definition mark_dehydrated :: "bool \<Rightarrow> unit sys" where
  "mark_dehydrated on = (if on then sys_set_mark else unmark_fd)"

definition dehydrate :: "unit sys" where
  "dehydrate =
     sys_bind sys_open (\<lambda>_.
     sys_bind sys_fstat (\<lambda>st.
     sys_bind (sys_punch 0 (f_size st)) (\<lambda>_.
     sys_bind (mark_dehydrated True) (\<lambda>_. sys_ignore stamp_write_fd))))"

lemma plan_sys_pwrite_Inl:
  "sys_pwrite bs off k = (Inl e, k') \<Longrightarrow> length (k_plan k') < length (k_plan k)"
proof (cases "k_plan k")
  case (Cons r rs)
  then show "sys_pwrite bs off k = (Inl e, k') \<Longrightarrow> length (k_plan k') < length (k_plan k)"
    by (cases r) (auto simp: sys_pwrite_def next_outcome_def Let_def)
qed (simp add: sys_pwrite_def next_outcome_def)

text \<open>\<open>FileExt::write_all_at\<close>: an interrupted call is made again, a call that writes nothing fails.\<close>

function write_all_at :: "u8 list \<Rightarrow> u64 \<Rightarrow> unit sys" where
  "write_all_at bs off k =
     (if bs = [] then (Inr (), k)
      else case sys_pwrite bs off k of
             (Inl e, k') \<Rightarrow>
               if kind_of e = Interrupted then write_all_at bs off k' else (Inl e, k')
           | (Inr n, k') \<Rightarrow>
               if n = 0 then (Inl (Custom WriteZero), k')
               else write_all_at (drop n bs) (off + of_nat n) k')"
  by pat_completeness auto

termination
proof (relation "measures [\<lambda>(bs, _, k). length bs, \<lambda>(_, _, k). length (k_plan k)]", goal_cases)
  case (2 bs off k x k' e)
  then show ?case using plan_sys_pwrite_Inl [of bs off k e k'] by simp
next
  case (3 bs off k x k' n)
  then show ?case by (cases bs) auto
qed simp

declare write_all_at.simps [simp del]

definition hydrate :: "u8 list \<Rightarrow> u64 \<Rightarrow> unit sys" where
  "hydrate content expected =
     (if of_nat (length content) \<noteq> expected then sys_fail (Custom InvalidData)
      else sys_bind sys_open (\<lambda>_.
           sys_bind sys_fstat (\<lambda>before.
           if f_size before \<noteq> expected then sys_fail (Custom InvalidData)
           else sys_bind (sys_or_else (write_all_at content 0) (sys_ignore dehydrate)) (\<lambda>_.
                sys_bind sys_fsync (\<lambda>_.
                sys_bind sys_fstat (\<lambda>after.
                if f_size after \<noteq> expected
                then sys_bind (sys_ignore dehydrate) (\<lambda>_. sys_fail (Custom InvalidData))
                else sys_bind (mark_dehydrated False) (\<lambda>_. sys_ignore hydrated_write_fd)))))))"

section \<open>The calls that touch no content\<close>

lemma quiet_map_err [quiet_rules]: "quiet m \<Longrightarrow> quiet (sys_map_err g m)"
  unfolding quiet_def sys_map_err_def by (auto split: sum.splits prod.splits) (metis snd_conv)+

lemma quiet_set_nodump [quiet_rules]: "quiet (set_nodump_fd on)"
  unfolding set_nodump_fd_def Let_def by (auto intro!: quiet_rules split: if_splits)

lemma quiet_clear_nodump [quiet_rules]: "quiet clear_nodump_fd"
  using quiet_set_nodump [of False] unfolding quiet_def clear_nodump_fd_def
  by (auto split: sum.splits prod.splits) (metis snd_conv)+

lemma quiet_stamp [quiet_rules]: "quiet stamp_write_fd"
  unfolding stamp_write_fd_def by (intro quiet_rules)

lemma quiet_hydrated [quiet_rules]: "quiet hydrated_write_fd"
  using quiet_set_hydrated unfolding quiet_def hydrated_write_fd_def by simp

lemma quiet_record_fill [quiet_rules]: "quiet record_fill_fd"
  unfolding record_fill_fd_def by (intro quiet_rules)

lemma quiet_settle_range [quiet_rules]: "quiet settle_range"
  unfolding settle_range_def by (intro quiet_rules)

lemma quiet_has_mark_fd [quiet_rules]: "quiet has_mark_fd"
  using quiet_has_mark unfolding quiet_def has_mark_fd_def
  by (auto split: sum.splits prod.splits) (metis snd_conv)+

lemma quiet_holds_data_fd [quiet_rules]: "quiet holds_data_fd"
  using quiet_seek_data unfolding quiet_def holds_data_fd_def
  by (auto split: sum.splits prod.splits) (metis snd_conv)+

lemma quiet_id_and_size_fd [quiet_rules]: "quiet id_and_size_fd"
  unfolding id_and_size_fd_def by (intro quiet_rules)

lemma quiet_open [quiet_rules]: "quiet sys_open"
  unfolding sys_open_def by (intro quiet_call quiet_rules)

section \<open>What each operation leaves\<close>

text \<open>A punch of the range, or nothing.\<close>

lemma punch_range_fd_file:
  "punch_range_fd off n k = (r, k') \<Longrightarrow>
     (\<exists>t. k_file k' = file_punch t (span_new off n) (k_file k)) \<or> k_file k' = k_file k"
  by (auto simp del: split_paired_Ex simp: punch_range_fd_def sys_return_def
           dest!: sys_punch_file split: if_splits)

lemma punch_range_fd_core:
  "punch_range_fd off n k = (r, k') \<Longrightarrow>
     core (k_file k') = core (k_file k) \<or>
     core (k_file k') = (f_id (k_file k), f_size (k_file k), f_nlink (k_file k),
                         data_punch (f_data (k_file k)) (span_new off n), f_mark (k_file k))"
  by (metis core_file_punch punch_range_fd_file)

lemma punch_range_fd_Inr:
  "punch_range_fd off n k = (Inr u, k') \<Longrightarrow>
     (\<forall>p \<in> span_bytes (span_new off n). f_data (k_file k') p = None)"
  by (auto simp: punch_range_fd_def sys_return_def span_bytes_def span_end_def span_new_def sat_add_def
                 file_punch_def file_touch_def data_punch_def
           dest!: sys_punch_Inr split: if_splits)

lemma unmark_fd_file:
  "unmark_fd k = (r, k') \<Longrightarrow>
     k_file k' = k_file k \<or> k_file k' = (k_file k)\<lparr>f_mark := False\<rparr> \<and> r = Inr ()"
  unfolding unmark_fd_def
  by (auto dest!: sys_remove_mark_file split: sum.splits prod.splits if_splits)

lemma data_write_append:
  assumes "unat off + length bs \<le> 2 ^ 64" "n \<le> length bs"
  shows "data_write (data_write d off (take n bs)) (off + of_nat n) (drop n bs) = data_write d off bs"
proof
  fix p
  show "data_write (data_write d off (take n bs)) (off + of_nat n) (drop n bs) p = data_write d off bs p"
  proof (cases "n < length bs")
    case True
    have n: "unat (of_nat n :: u64) = n" using True assms(1) by (simp add: unat_of_nat take_bit_nat_eq_self)
    with True assms(1) have e: "unat (off + of_nat n) = unat off + n"
      by (subst unat_add_lem [THEN iffD1]) auto
    show ?thesis
    proof (cases "off \<le> p")
      case True
      then have "unat (p - off) = unat p - unat off" by (simp add: unat_sub)
      moreover have "off + of_nat n \<le> p \<longleftrightarrow> unat off + n \<le> unat p" by (simp add: word_le_nat_alt e)
      moreover have "off + of_nat n \<le> p \<Longrightarrow> unat (p - (off + of_nat n)) = unat p - unat off - n"
        by (simp only: unat_sub e)
      ultimately show ?thesis using True \<open>n < length bs\<close>
        by (auto simp: data_write_def word_le_nat_alt)
    next
      case False
      then have "\<not> off + of_nat n \<le> p" by (simp add: word_le_nat_alt e)
      with False show ?thesis by (simp add: data_write_def)
    qed
  next
    case False
    with assms(2) show ?thesis by (simp add: data_write_def)
  qed
qed

lemma sys_pwrite_Inr:
  assumes "sys_pwrite bs off k = (Inr n, k')"
  shows "n \<le> length bs"
    and "n \<noteq> 0 \<Longrightarrow> \<exists>t. k_file k' = file_write t off (take n bs) (k_file k)"
    and "n = 0 \<Longrightarrow> bs \<noteq> [] \<Longrightarrow> k_file k' = k_file k"
proof -
  obtain r k1 where o: "next_outcome k = (r, k1)" by fastforce
  then have f: "k_file k1 = k_file k" by simp
  have m: "take m bs = take (min (length bs) m) bs" for m by (simp add: min_def)
  have "n \<le> length bs \<and>
    (n \<noteq> 0 \<longrightarrow> (\<exists>t. k_file k' = file_write t off (take n bs) (k_file k))) \<and>
    (n = 0 \<and> bs \<noteq> [] \<longrightarrow> k_file k' = k_file k)"
  proof (cases r)
    case SysOk
    then show ?thesis using assms o f by (auto simp del: split_paired_Ex simp: sys_pwrite_def)
  next
    case (SysShort l)
    have nl: "n = min (length bs) l" using assms o SysShort by (simp add: sys_pwrite_def Let_def)
    show ?thesis
    proof (cases "n = 0")
      case True
      then have "take l bs = []" using nl by (auto simp: min_def split: if_splits)
      with True assms o f SysShort nl show ?thesis by (simp add: sys_pwrite_def)
    next
      case False
      then have "l \<noteq> 0" "bs \<noteq> []" using nl by auto
      then have "take l bs \<noteq> []" by simp
      with False assms o f SysShort nl m [of l] show ?thesis
        by (auto simp del: split_paired_Ex simp: sys_pwrite_def)
    qed
  next
    case (SysErr e)
    then show ?thesis using assms o by (simp add: sys_pwrite_def)
  qed
  then show "n \<le> length bs"
    and "n \<noteq> 0 \<Longrightarrow> \<exists>t. k_file k' = file_write t off (take n bs) (k_file k)"
    and "n = 0 \<Longrightarrow> bs \<noteq> [] \<Longrightarrow> k_file k' = k_file k" by blast+
qed

lemma sys_pwrite_Inl: "sys_pwrite bs off k = (Inl e, k') \<Longrightarrow> k_file k' = k_file k"
  by (auto simp: sys_pwrite_def Let_def split: prod.splits outcome.splits)

lemma core_file_write:
  "core (file_write t off bs f) =
     (f_id f, max (f_size f) (off + of_nat (length bs)), f_nlink f, data_write (f_data f) off bs, f_mark f)"
  by (simp add: core_def file_write_def file_touch_def)

lemma data_write_Nil [simp]: "data_write d off [] = d"
  by (auto simp: data_write_def)

text \<open>A write that reports success has put exactly its bytes in place.\<close>

lemma write_at_Inr:
  assumes "write_at bs off k = (Inr u, k')" "unat off + length bs < 2 ^ 64"
  shows "core (k_file k') =
    (f_id (k_file k), if bs = [] then f_size (k_file k) else max (f_size (k_file k)) (off + of_nat (length bs)),
     f_nlink (k_file k), data_write (f_data (k_file k)) off bs, f_mark (k_file k))"
  using assms
proof (induction bs off k rule: write_at.induct)
  case (1 bs off k)
  show ?case
  proof (cases "bs = []")
    case True
    with 1(2) show ?thesis by (simp add: write_at.simps core_def)
  next
    case False
    with 1(2) obtain n k1 where w: "sys_pwrite bs off k = (Inr n, k1)" and n: "n \<noteq> 0"
      and rest: "write_at (drop n bs) (off + of_nat n) k1 = (Inr u, k')"
      using that by (subst (asm) write_at.simps) (auto split: prod.splits sum.splits if_splits)
    have le: "n \<le> length bs" using sys_pwrite_Inr(1) [OF w] .
    obtain t where f1: "k_file k1 = file_write t off (take n bs) (k_file k)"
      using sys_pwrite_Inr(2) [OF w n] by blast
    have nn: "unat (of_nat n :: u64) = n" using le 1(3) by (simp add: unat_of_nat take_bit_nat_eq_self)
    have e: "unat (off + of_nat n) = unat off + n"
      using le 1(3) nn by (subst unat_add_lem [THEN iffD1]) auto
    have d: "data_write (data_write d off (take n bs)) (off + of_nat n) (drop n bs) = data_write d off bs" for d
      using le 1(3) by (intro data_write_append) auto
    have IH: "core (k_file k') =
      (f_id (k_file k1), if drop n bs = [] then f_size (k_file k1)
         else max (f_size (k_file k1)) (off + of_nat n + of_nat (length (drop n bs))),
       f_nlink (k_file k1), data_write (f_data (k_file k1)) (off + of_nat n) (drop n bs), f_mark (k_file k1))"
      using 1(1) [OF False w [symmetric] refl n rest] 1(3) le e by simp
    have c1: "core (k_file k1) = (f_id (k_file k), max (f_size (k_file k)) (off + of_nat n),
        f_nlink (k_file k), data_write (f_data (k_file k)) off (take n bs), f_mark (k_file k))"
      unfolding f1 core_file_write using le by simp
    have ee: "off + of_nat n + of_nat (length (drop n bs)) = off + of_nat (length bs)"
      using le by (simp add: of_nat_diff)
    have o: "off + of_nat n \<le> off + of_nat (length bs)"
    proof -
      have "unat (of_nat (length bs) :: u64) = length bs"
        using 1(3) by (simp add: unat_of_nat take_bit_nat_eq_self)
      then have "unat (off + of_nat (length bs)) = unat off + length bs"
        using 1(3) by (subst unat_add_lem [THEN iffD1]) auto
      with e le show ?thesis by (simp add: word_le_nat_alt)
    qed
    have k1: "f_id (k_file k1) = f_id (k_file k)" "f_nlink (k_file k1) = f_nlink (k_file k)"
      "f_mark (k_file k1) = f_mark (k_file k)"
      "f_size (k_file k1) = max (f_size (k_file k)) (off + of_nat n)"
      "f_data (k_file k1) = data_write (f_data (k_file k)) off (take n bs)"
      using c1 by (simp_all add: core_def)
    show ?thesis
    proof (cases "drop n bs = []")
      case True
      then have "n = length bs" using le by simp
      with IH False show ?thesis by (simp add: k1)
    next
      case dr: False
      have "max (max (f_size (k_file k)) (off + of_nat n)) (off + of_nat (length bs)) =
            max (f_size (k_file k)) (off + of_nat (length bs))"
        by (simp only: max.assoc max.absorb2 [OF o])
      then show ?thesis using IH by (simp only: dr False if_False k1 ee d)
    qed
  qed
qed

text \<open>Whatever it reports, a write changes only bytes of its range, each to the byte it was given.\<close>

definition wrote_within :: "u64 \<Rightarrow> u8 list \<Rightarrow> inode \<Rightarrow> inode \<Rightarrow> bool" where
  "wrote_within off bs f f' \<longleftrightarrow>
     f_id f' = f_id f \<and> f_nlink f' = f_nlink f \<and> f_mark f' = f_mark f \<and>
     (unat off + length bs \<le> unat (f_size f) \<longrightarrow> f_size f' = f_size f) \<and>
     (\<forall>p. f_data f' p = f_data f p \<or> f_data f' p = data_write (f_data f) off bs p)"

lemma data_write_take:
  "data_write d off (take n bs) p = d p \<or> data_write d off (take n bs) p = data_write d off bs p"
  by (auto simp: data_write_def)

lemma unat_add_len:
  "unat (off :: u64) + n < 2 ^ 64 \<Longrightarrow> unat (off + of_nat n) = unat off + n"
  by (subst unat_add_lem [THEN iffD1]) (simp_all add: unat_of_nat take_bit_nat_eq_self)

lemma wrote_within_refl: "wrote_within off bs f f"
  by (simp add: wrote_within_def)

lemma write_at_within:
  assumes "unat off + length bs < 2 ^ 64"
  shows "wrote_within off bs (k_file k) (k_file (snd (write_at bs off k)))"
  using assms
proof (induction bs off k rule: write_at.induct)
  case (1 bs off k)
  show ?case
  proof (cases "bs = []")
    case True
    then show ?thesis by (simp add: write_at.simps wrote_within_refl)
  next
    case ne: False
    obtain r k1 where w: "sys_pwrite bs off k = (r, k1)" by fastforce
    show ?thesis
    proof (cases r)
      case (Inl e)
      with w ne show ?thesis
        by (subst write_at.simps) (simp add: sys_pwrite_Inl wrote_within_refl)
    next
      case (Inr n)
      with w have wn: "sys_pwrite bs off k = (Inr n, k1)" by simp
      show ?thesis
      proof (cases "n = 0")
        case True
        with wn ne show ?thesis
          using sys_pwrite_Inr(3) [OF wn] by (subst write_at.simps) (simp add: wrote_within_refl)
      next
        case n: False
        have le: "n \<le> length bs" using sys_pwrite_Inr(1) [OF wn] .
        obtain t where f1: "k_file k1 = file_write t off (take n bs) (k_file k)"
          using sys_pwrite_Inr(2) [OF wn n] by blast
        have e: "unat (off + of_nat n) = unat off + n" using le 1(2) by (intro unat_add_len) simp
        have k1: "f_id (k_file k1) = f_id (k_file k)" "f_nlink (k_file k1) = f_nlink (k_file k)"
          "f_mark (k_file k1) = f_mark (k_file k)"
          "f_size (k_file k1) = max (f_size (k_file k)) (off + of_nat n)"
          "f_data (k_file k1) = data_write (f_data (k_file k)) off (take n bs)"
          using le by (simp_all add: f1 file_write_def file_touch_def)
        have d: "data_write (data_write d off (take n bs)) (off + of_nat n) (drop n bs) = data_write d off bs" for d
          using le 1(2) by (intro data_write_append) auto
        have IH: "wrote_within (off + of_nat n) (drop n bs) (k_file k1)
            (k_file (snd (write_at (drop n bs) (off + of_nat n) k1)))"
          using 1(1) [OF ne wn [symmetric] refl n] 1(2) le e by simp
        have sz: "f_size (k_file k1) = f_size (k_file k)"
          if "unat off + length bs \<le> unat (f_size (k_file k))"
          unfolding k1 using that le e by (intro max.absorb1) (simp add: word_le_nat_alt)
        have "write_at bs off k = write_at (drop n bs) (off + of_nat n) k1"
          using ne n wn by (subst write_at.simps) simp
        then show ?thesis
          using IH sz le e data_write_take [of "f_data (k_file k)" off n bs]
          unfolding wrote_within_def k1(1-3,5) d by (auto, metis+)
      qed
    qed
  qed
qed

text \<open>A flush and a write use up the plan and add nothing to it.\<close>

lemma truthful_fsync: "truthful k \<Longrightarrow> sys_fsync k = (r, k') \<Longrightarrow> truthful k'"
  unfolding sys_fsync_def
  by (rule sys_call_cases [of "sys_return ()" k]) (auto simp: sys_return_def truthful_def)

lemma truthful_write_at: "truthful k \<Longrightarrow> truthful (snd (write_at bs off k))"
proof (induction bs off k rule: write_at.induct)
  case (1 bs off k)
  obtain r k1 where w: "sys_pwrite bs off k = (r, k1)" by fastforce
  obtain o1 k0 where o: "next_outcome k = (o1, k0)" by fastforce
  have "truthful k0" using 1(2) next_outcome_plan [OF o] by (auto simp: truthful_def)
  then have t1: "truthful k1" using w o
    by (auto simp: sys_pwrite_def truthful_def Let_def split: outcome.splits if_splits)
  show ?case
  proof (cases "bs = [] \<or> (\<forall>n. r \<noteq> Inr n) \<or> r = Inr 0")
    case True
    then show ?thesis using 1(2) w t1 by (cases r) (auto simp: write_at.simps [of bs off k])
  next
    case False
    then obtain n where n: "bs \<noteq> []" "r = Inr n" "n \<noteq> 0" by auto
    then have "write_at bs off k = write_at (drop n bs) (off + of_nat n) k1"
      using w by (subst write_at.simps) simp
    with 1(1) [OF n(1) w [symmetric] n(2,3) t1] show ?thesis by simp
  qed
qed

text \<open>With a truthful plan success means the mark is gone.\<close>

lemma unmark_fd_Inr:
  assumes "truthful k" "unmark_fd k = (Inr u, k')"
  shows "core (k_file k') = (f_id (k_file k), f_size (k_file k), f_nlink (k_file k), f_data (k_file k), False)"
proof (cases rule: sys_call_cases [of "\<lambda>k. if f_mark (k_file k)
    then (Inr (), k\<lparr>k_file := (k_file k)\<lparr>f_mark := False\<rparr>\<rparr>) else (Inl (Os ENODATA), k)" k])
  case (fails e k0)
  then have "e \<noteq> ENODATA" using assms(1) by (auto simp: truthful_def)
  with fails assms(2) show ?thesis by (simp add: unmark_fd_def sys_remove_mark_def)
next
  case (acts k0)
  show ?thesis
  proof (cases "f_mark (k_file k)")
    case True
    with acts assms(2) have "k' = k0\<lparr>k_file := (k_file k0)\<lparr>f_mark := False\<rparr>\<rparr>"
      by (simp add: unmark_fd_def sys_remove_mark_def)
    with acts show ?thesis by (simp add: core_def)
  next
    case False
    with acts assms(2) have "k' = k0" by (simp add: unmark_fd_def sys_remove_mark_def)
    with acts False show ?thesis by (simp add: core_def)
  qed
qed

text \<open>What a punch can do: bytes go, nothing else moves.\<close>

definition shrunk :: "inode \<Rightarrow> inode \<Rightarrow> bool" where
  "shrunk f f' \<longleftrightarrow> f_id f' = f_id f \<and> f_size f' = f_size f \<and> f_nlink f' = f_nlink f \<and> f_mark f' = f_mark f \<and>
     (\<forall>p. f_data f' p = f_data f p \<or> f_data f' p = None)"

lemma shrunk_refl: "core f' = core f \<Longrightarrow> shrunk f f'"
  by (simp add: shrunk_def core_eq)

lemma shrunk_trans: "shrunk f g \<Longrightarrow> shrunk g h \<Longrightarrow> shrunk f h"
  unfolding shrunk_def by metis

lemma shrunk_agrees: "shrunk f f' \<Longrightarrow> agrees obj f \<Longrightarrow> agrees obj f'"
  unfolding shrunk_def agrees_def by metis

lemma shrunk_punched: "shrunk f (file_punch t s f)"
  by (simp add: shrunk_def file_punch_def file_touch_def data_punch_def)

lemma shrunk_punch_range: "shrunk (k_file k) (k_file (snd (punch_range_fd off n k)))"
proof (cases "punch_range_fd off n k")
  case (Pair r k')
  from punch_range_fd_file [OF Pair] show ?thesis
    using Pair shrunk_punched shrunk_refl [of "k_file k" "k_file k"] by (elim disjE exE) simp_all
qed

lemma shrunk_quiet: "quiet m \<Longrightarrow> shrunk (k_file k) (k_file (snd (m k)))"
  by (rule shrunk_refl) (simp add: quiet_def)

lemma sys_ignore_bind_snd: "snd (sys_bind (sys_ignore m) (\<lambda>_. m') k) = snd (m' (snd (m k)))"
  by (simp add: sys_bind_def sys_ignore_def)

lemma shrunk_rollback: "shrunk (k_file k) (k_file (snd (rollback_fd n k)))"
proof -
  have "snd (rollback_fd n k) = snd (sys_ignore stamp_write_fd (snd (punch_fd n k)))"
    by (simp only: rollback_fd_def sys_ignore_bind_snd)
  moreover have "shrunk (k_file (snd (punch_fd n k)))
      (k_file (snd (sys_ignore stamp_write_fd (snd (punch_fd n k)))))"
    by (intro shrunk_quiet quiet_rules)
  ultimately show ?thesis
    using shrunk_punch_range [of k 0 n] shrunk_trans by (simp add: punch_fd_def)
qed

lemma shrunk_abandon: "shrunk (k_file k) (k_file (snd (abandon n k)))"
proof (cases "punch_fd n k")
  case (Pair r k')
  have p: "shrunk (k_file k) (k_file k')"
    using shrunk_punch_range [of k 0 n] Pair by (simp add: punch_fd_def)
  show ?thesis
  proof (cases r)
    case (Inl e)
    with Pair p show ?thesis by (simp add: abandon_def sys_bind_def)
  next
    case (Inr u)
    have "shrunk (k_file k') (k_file (snd (sys_ignore stamp_write_fd k')))"
      by (intro shrunk_quiet quiet_rules)
    with Pair Inr p show ?thesis
      by (simp add: abandon_def sys_bind_def) (rule shrunk_trans)
  qed
qed

section \<open>Finishing a fill\<close>

text \<open>The three ways \<open>finish_hydration\<close> ends.\<close>

lemma finish_hydration_cases:
  assumes "finish_hydration n k = (r, k')"
  shows "(\<exists>e. r = Inl e) \<and> shrunk (k_file k) (k_file k') \<or>
         f_data (k_file k') = f_data (k_file k) \<and> f_size (k_file k') = f_size (k_file k) \<and>
         f_id (k_file k') = f_id (k_file k) \<and> f_nlink (k_file k') = f_nlink (k_file k) \<and>
         (f_mark (k_file k') \<longrightarrow> f_mark (k_file k)) \<and>
         (truthful k \<and> r = Inr () \<longrightarrow> \<not> f_mark (k_file k'))"
proof (cases "sys_fsync k")
  case (Pair r1 k1)
  have q1: "core (k_file k1) = core (k_file k)" by (rule quietD [OF quiet_fsync Pair])
  show ?thesis
  proof (cases r1)
    case (Inl e)
    have "r = Inl e \<and> k' = snd (rollback_fd n k1)"
      using assms Pair Inl by (simp add: finish_hydration_def sys_bind_def sys_or_else_def)
    then show ?thesis
      using shrunk_trans [OF shrunk_refl [OF q1] shrunk_rollback] by blast
  next
    case (Inr u)
    obtain r2 k2 where m: "unmark_fd k1 = (r2, k2)" by fastforce
    show ?thesis
    proof (cases r2)
      case (Inl e)
      then have "r = Inl e \<and> k' = k2" and "k_file k2 = k_file k1"
        using assms Pair Inr m unmark_fd_file [OF m]
        by (auto simp: finish_hydration_def sys_bind_def sys_or_else_def)
      with q1 show ?thesis by (auto simp: shrunk_refl)
    next
      case (Inr u2)
      have rest: "sys_bind clear_nodump_fd (\<lambda>_. record_fill_fd) k2 = (r, k')"
        using assms Pair \<open>r1 = Inr u\<close> m Inr
        by (simp add: finish_hydration_def sys_bind_def [of "sys_or_else _ _"] sys_bind_def [of unmark_fd]
              sys_or_else_def)
      have "quiet (sys_bind clear_nodump_fd (\<lambda>_. record_fill_fd))" by (intro quiet_rules)
      then have q2: "core (k_file k') = core (k_file k2)" using rest by (rule quietD)
      have t: "truthful k \<Longrightarrow> truthful k1" using truthful_fsync Pair by blast
      have "truthful k \<Longrightarrow> \<not> f_mark (k_file k2)"
        using unmark_fd_Inr [OF t] m Inr by (auto simp: core_def)
      then show ?thesis using q1 q2 unmark_fd_file [OF m] by (auto simp: core_eq)
    qed
  qed
qed

lemma complete_core: "core f' = core f \<Longrightarrow> complete f' = complete f"
  by (simp add: core_eq complete_def)

lemma finish_hydration_mark:
  "finish_hydration n k = (Inr u, k') \<Longrightarrow> truthful k \<Longrightarrow>
     \<not> f_mark (k_file k') \<and> f_data (k_file k') = f_data (k_file k) \<and> f_size (k_file k') = f_size (k_file k)"
  using finish_hydration_cases [of n k "Inr u" k'] by auto

lemma hydrate_fd_is_write_then_finish:
  "of_nat (length content) = expected \<Longrightarrow>
     hydrate_fd content expected =
       sys_bind (sys_or_else (write_at content 0) (rollback_fd expected)) (\<lambda>_. finish_hydration expected)"
  by (simp add: hydrate_fd_def finish_hydration_def)

text \<open>C9: Filling a placeholder through the event descriptor never leaves an unmarked file with
  something missing.  For a marked file of the declared size and every combination of failing and
  short calls, either the mark is still set afterwards, or every byte of the file is the byte that
  was delivered; and when the function reports success (and the kernel does not deny an attribute
  that is there) the mark is gone, so the second case holds.\<close>

theorem hydrate_fd_all_or_nothing:
  assumes "hydrate_fd content expected k = (r, k')"
    and "f_mark (k_file k)" "f_size (k_file k) = expected" "length content < 2 ^ 64"
  shows "f_size (k_file k') = expected \<and>
         (f_mark (k_file k') \<or> (\<forall>p<expected. f_data (k_file k') p = Some (content ! unat p))) \<and>
         (r = Inr () \<and> truthful k \<longrightarrow> \<not> f_mark (k_file k'))"
proof (cases "of_nat (length content) = expected")
  case False
  with assms show ?thesis by (auto simp: hydrate_fd_def sys_fail_def)
next
  case len: True
  then have ul: "unat expected = length content" using assms(4)
    by (auto simp: unat_of_nat take_bit_nat_eq_self)
  obtain r1 k1 where w: "write_at content 0 k = (r1, k1)" by fastforce
  have wi: "wrote_within 0 content (k_file k) (k_file k1)"
    using write_at_within [of 0 content k] assms(4) w by simp
  with assms(3) ul have s1: "f_size (k_file k1) = expected" "f_mark (k_file k1) = f_mark (k_file k)"
    by (simp_all add: wrote_within_def)
  show ?thesis
  proof (cases r1)
    case (Inl e)
    have "r = Inl e" "k' = snd (rollback_fd expected k1)"
      using assms(1) w Inl by (simp_all add: hydrate_fd_is_write_then_finish [OF len] sys_bind_def sys_or_else_def)
    then show ?thesis using shrunk_rollback [of k1 expected] s1 assms(2) by (simp add: shrunk_def)
  next
    case (Inr u)
    have fin: "finish_hydration expected k1 = (r, k')"
      using assms(1) w Inr by (simp add: hydrate_fd_is_write_then_finish [OF len] sys_bind_def sys_or_else_def)
    have "f_data (k_file k1) = data_write (f_data (k_file k)) 0 content"
      using write_at_Inr [of content 0 k u k1] w Inr assms(4) by (simp add: core_def)
    then have all: "\<forall>p<expected. f_data (k_file k1) p = Some (content ! unat p)"
      using ul by (simp add: data_write_def word_less_nat_alt)
    have t: "truthful k \<Longrightarrow> truthful k1" using truthful_write_at [of k content 0] w by simp
    from finish_hydration_cases [OF fin] show ?thesis
      using all s1 assms(2) t by (auto simp: shrunk_def)
  qed
qed

text \<open>C32: A complete file may lose its mark and no other: finishing a fill of a marked file whose
  every byte is present ends, under every combination of faults, in a file that either still carries
  the mark or still has every byte.\<close>

theorem finish_hydration_safe:
  assumes "finish_hydration expected k = (r, k')" "f_mark (k_file k)" "complete (k_file k)"
  shows "file_safe (k_file k') \<and> (r = Inr () \<and> truthful k \<longrightarrow> \<not> f_mark (k_file k') \<and> complete (k_file k'))"
  using finish_hydration_cases [OF assms(1)] assms(2,3)
  by (auto simp: file_safe_def complete_def shrunk_def)

lemma abandon_Inr:
  assumes "abandon n k = (Inr u, k')" "p < n"
  shows "f_data (k_file k') p = None"
proof -
  obtain k1 where p: "punch_range_fd 0 n k = (Inr (), k1)" and s: "sys_ignore stamp_write_fd k1 = (Inr u, k')"
    using assms(1) by (auto simp: abandon_def punch_fd_def sys_bind_Inr)
  have "p \<in> span_bytes (span_new 0 n)"
    using assms(2) by (simp add: span_bytes_def span_end_def span_new_def sat_add_def)
  then have "f_data (k_file k1) p = None" using punch_range_fd_Inr [OF p] by blast
  moreover have "core (k_file k') = core (k_file k1)"
    using quiet_ignore [OF quiet_stamp] s by (rule quietD)
  ultimately show ?thesis by (simp add: core_eq)
qed

text \<open>C33: The defect of the error path.  \<open>decide_and_fill\<close> answers an error of
  \<open>finish_hydration\<close> with \<open>abandon\<close>.  Where the error came after the mark was cleared (clearing the
  \<open>nodump\<close> flag failed for another reason than being unsupported), the content is punched out of a
  file that no longer carries the mark: a file of holes that every later reader is served as zeros.\<close>

theorem abandon_after_unmark_unsafe:
  assumes "finish_hydration n k = (Inl e, k1)" "\<not> f_mark (k_file k1)"
    and "abandon n k1 = (Inr (), k2)" "0 < f_size (k_file k)" "f_size (k_file k) = n"
  shows "\<not> file_safe (k_file k2)"
proof -
  have f: "f_size (k_file k1) = n"
    using finish_hydration_cases [OF assms(1)] assms(5) by (auto simp: shrunk_def)
  have s: "shrunk (k_file k1) (k_file k2)" using shrunk_abandon [of k1 n] assms(3) by simp
  have "f_data (k_file k2) 0 = None" using abandon_Inr [OF assms(3)] assms(4,5) by simp
  moreover have "0 < f_size (k_file k2)" using s f assms(4,5) by (simp add: shrunk_def)
  ultimately show ?thesis using s assms(2) by (auto simp: file_safe_def complete_def shrunk_def)
qed

definition sample_inode :: inode where
  "sample_inode = \<lparr>f_id = FileId 1 2, f_size = 3, f_nlink = 1, f_data = (\<lambda>p. if p < 3 then Some 7 else None),
     f_mark = True, f_flags = 0x40, f_mtime = 100, f_mtime_nsec = 5, f_stamp = None, f_hydrated_at = None\<rparr>"

definition sample_kernel :: "outcome list \<Rightarrow> kernel" where
  "sample_kernel plan =
     \<lparr>k_file = sample_inode, k_plan = plan, k_time = (101, 0), k_wall = 1700000000, k_errno = 0\<rparr>"

text \<open>Flush, unmark and reading the flags succeed; writing the flags fails with \<open>EIO\<close>.\<close>

lemmas placeholder_eval =
  finish_hydration_def abandon_def hydrate_fd_def rollback_fd_def record_fill_fd_def clear_nodump_fd_def
  unmark_fd_def punch_fd_def punch_range_fd_def sys_bind_def sys_or_else_def sys_ignore_def sys_return_def
  sys_fail_def sys_call_def next_outcome_def sys_fsync_def sys_remove_mark_def sys_punch_def sys_set_mark_def
  sys_getflags_def sys_setflags_def sys_fstat_def sys_set_stamp_def sys_set_hydrated_def sys_map_err_def
  set_nodump_fd_def unsupported_or_def stamp_write_fd_def hydrated_write_fd_def nodump_def Let_def
  kind_of_errno_def file_punch_def file_touch_def sample_kernel_def sample_inode_def

lemma abandon_after_unmark_unsafe_witness:
  "\<not> file_safe (k_file (snd (abandon 3
       (snd (finish_hydration 3 (sample_kernel [SysOk, SysOk, SysOk, SysErr EIO]))))))"
  by (rule abandon_after_unmark_unsafe [where n = 3 and k = "sample_kernel [SysOk, SysOk, SysOk, SysErr EIO]"
        and e = "Os EIO"])
     (simp add: placeholder_eval)+

lemma complete_sample: "complete (k_file (sample_kernel plan))"
  by (simp add: complete_def sample_kernel_def sample_inode_def)

lemma hydrate_fd_all_or_nothing_witness:
  "f_size (k_file (snd (hydrate_fd [1, 2, 3] 3 (sample_kernel [])))) = 3 \<and>
   \<not> f_mark (k_file (snd (hydrate_fd [1, 2, 3] 3 (sample_kernel []))))"
proof -
  obtain r k' where h: "hydrate_fd [1, 2, 3] 3 (sample_kernel []) = (r, k')" by fastforce
  moreover have "r = Inr ()"
    using h by (simp add: placeholder_eval write_at.simps sys_pwrite_def file_write_def)
  ultimately show ?thesis
    using hydrate_fd_all_or_nothing [OF h] by (simp add: sample_kernel_def sample_inode_def truthful_def)
qed

lemma finish_hydration_safe_witness:
  "file_safe (k_file (snd (finish_hydration 3 (sample_kernel [SysErr EIO]))))"
proof -
  obtain r k' where h: "finish_hydration 3 (sample_kernel [SysErr EIO]) = (r, k')" by fastforce
  from finish_hydration_safe [OF h] show ?thesis
    using h complete_sample by (simp add: sample_kernel_def sample_inode_def)
qed

section \<open>Dropping the content of a named file\<close>

lemma sys_open_file: "sys_open k = (r, k') \<Longrightarrow> core (k_file k') = core (k_file k)"
  using quiet_open by (rule quietD)

text \<open>A file that was dehydrated successfully is a placeholder: it carries the mark, every byte
  of it is in a hole, and its size and identity are what they were.\<close>

theorem dehydrate_ok:
  assumes "dehydrate k = (Inr u, k')"
  shows "f_mark (k_file k') \<and> (\<forall>p<f_size (k_file k'). f_data (k_file k') p = None) \<and>
         f_size (k_file k') = f_size (k_file k) \<and> f_id (k_file k') = f_id (k_file k)"
proof -
  obtain k1 k2 st k3 k4 where o: "sys_open k = (Inr (), k1)" and s: "sys_fstat k1 = (Inr st, k2)"
    and p: "sys_punch 0 (f_size st) k2 = (Inr (), k3)" and m: "sys_set_mark k3 = (Inr (), k4)"
    and w: "sys_ignore stamp_write_fd k4 = (Inr u, k')"
    using assms by (auto simp: dehydrate_def sys_bind_Inr mark_dehydrated_def)
  have c1: "core (k_file k1) = core (k_file k)" by (rule sys_open_file [OF o])
  have st: "st = k_file k1" "k_file k2 = k_file k1" using sys_fstat_Inr [OF s] by auto
  obtain t where p3: "k_file k3 = file_punch t (span_new 0 (f_size st)) (k_file k2)"
    using sys_punch_Inr [OF p] by blast
  have k4: "k_file k4 = (k_file k3)\<lparr>f_mark := True\<rparr>" using sys_set_mark_file [OF m] by auto
  have "core (k_file k') = core (k_file k4)" using quiet_ignore [OF quiet_stamp] w by (rule quietD)
  then show ?thesis using c1
    by (simp add: core_eq k4 p3 st file_punch_def file_touch_def data_punch_def span_bytes_def span_end_def
        span_new_def sat_add_def)
qed

lemma dehydrate_ok_witness:
  "f_mark (k_file (snd (dehydrate (sample_kernel []))))"
proof -
  obtain u k' where h: "dehydrate (sample_kernel []) = (Inr u, k')"
    by (simp add: placeholder_eval dehydrate_def sys_open_def mark_dehydrated_def)
  from dehydrate_ok [OF h] h show ?thesis by simp
qed

text \<open>The order of \<open>dehydrate\<close>: the content goes first and the mark is set second, so when
  setting the mark fails the file is one of holes that nothing says is empty.\<close>

theorem dehydrate_interrupted_unsafe:
  assumes "k_plan k = [SysOk, SysOk, SysOk, SysErr e]" "\<not> f_mark (k_file k)" "0 < f_size (k_file k)"
  shows "fst (dehydrate k) = Inl (Os e) \<and> \<not> file_safe (k_file (snd (dehydrate k)))"
proof -
  have z: "f_size (k_file k) \<noteq> 0" using assms(3) by simp
  have "0 \<in> span_bytes (span_new 0 (f_size (k_file k)))"
    using assms(3) by (simp add: span_bytes_def span_end_def span_new_def sat_add_def)
  then show ?thesis using assms z
    by (auto simp: dehydrate_def sys_open_def mark_dehydrated_def placeholder_eval data_punch_def
        file_safe_def complete_def intro!: exI [of _ 0])
qed

lemma dehydrate_interrupted_unsafe_witness:
  "\<not> file_safe (k_file (snd (dehydrate
      ((sample_kernel [SysOk, SysOk, SysOk, SysErr EIO])\<lparr>k_file := sample_inode\<lparr>f_mark := False\<rparr>\<rparr>))))"
  by (rule dehydrate_interrupted_unsafe [where e = EIO, THEN conjunct2])
     (simp_all add: sample_kernel_def sample_inode_def)

end
