(* ===== verification/Wire.thy ===== *)
theory Wire
  imports Span
begin

text \<open>
  The messages of \<open>crates/hydration-protocol/src/lib.rs\<close> and the byte streams that carry them.
  A message is one line; the text of a line is \<open>serde_json\<close>'s, which is not in the repository, so
  the two functions \<open>to_string\<close> and \<open>from_str\<close> are arguments (a \<open>codec\<close>) and what the framing
  relies on is the predicate \<open>codec_ok\<close>: what was written reads back, a line of text holds no
  newline and is UTF-8.  The stream a reader sees is the bytes that will arrive and how it ends:
  closed by the peer, broken by an error, or silent for ever.
\<close>

section \<open>Messages\<close>

record fetch_request =
  fr_id :: u64
  fr_file :: file_id
  fr_offset :: u64
  fr_len :: u64
  fr_cgroup :: "string option"

datatype fetch_response = Ready u64 u64 | Failed u64 int string | Denied u64 string

fun response_id :: "fetch_response \<Rightarrow> u64" where
  "response_id (Ready i _) = i"
| "response_id (Failed i _ _) = i"
| "response_id (Denied i _) = i"

datatype control = Dehydrated file_id | Rehydrated file_id

datatype to_helper =
  Fetch fetch_response | Control control | Chunk u64 u64 | Done u64 | Abort u64 int string

datatype from_helper =
  FetchReq fetch_request | ExposureChanged "string list" | Changed "file_id list" | Resync

definition MAX_CHUNK :: u64 where "MAX_CHUNK = push_bit 20 1"

definition MAX_OBJECT :: u64 where "MAX_OBJECT = push_bit 40 1"

lemma MAX_CHUNK_eq [simp]: "MAX_CHUNK = 1048576" by (simp add: MAX_CHUNK_def push_bit_eq_mult)

lemma MAX_OBJECT_eq [simp]: "MAX_OBJECT = 1099511627776" by (simp add: MAX_OBJECT_def push_bit_eq_mult)

section \<open>Lines\<close>

type_synonym 'm codec = "('m \<Rightarrow> u8 list) \<times> (u8 list \<Rightarrow> 'm option)"

abbreviation newline :: u8 where "newline \<equiv> 10"

definition encode :: "'m codec \<Rightarrow> 'm \<Rightarrow> u8 list" where
  "encode c m = fst c m @ [newline]"

definition trim_newlines :: "u8 list \<Rightarrow> u8 list" where
  "trim_newlines l = rev (dropWhile (\<lambda>b. b = newline) (rev l))"

definition decode :: "'m codec \<Rightarrow> u8 list \<Rightarrow> 'm option" where
  "decode c l = snd c (trim_newlines l)"

text \<open>The check of \<open>str::from_utf8\<close>, by the ranges of the standard.\<close>

definition cont_byte :: "u8 \<Rightarrow> bool" where
  "cont_byte b \<longleftrightarrow> 0x80 \<le> b \<and> b \<le> 0xBF"

fun utf8 :: "u8 list \<Rightarrow> bool" where
  "utf8 [] \<longleftrightarrow> True"
| "utf8 (a # bs) \<longleftrightarrow>
     (if a \<le> 0x7F then utf8 bs
      else if 0xC2 \<le> a \<and> a \<le> 0xDF then
        (case bs of b # cs \<Rightarrow> cont_byte b \<and> utf8 cs | _ \<Rightarrow> False)
      else if 0xE0 \<le> a \<and> a \<le> 0xEF then
        (case bs of b # c # ds \<Rightarrow>
           cont_byte b \<and> cont_byte c \<and> (a = 0xE0 \<longrightarrow> 0xA0 \<le> b) \<and> (a = 0xED \<longrightarrow> b \<le> 0x9F) \<and> utf8 ds
         | _ \<Rightarrow> False)
      else if 0xF0 \<le> a \<and> a \<le> 0xF4 then
        (case bs of b # c # d # es \<Rightarrow>
           cont_byte b \<and> cont_byte c \<and> cont_byte d \<and>
           (a = 0xF0 \<longrightarrow> 0x90 \<le> b) \<and> (a = 0xF4 \<longrightarrow> b \<le> 0x8F) \<and> utf8 es
         | _ \<Rightarrow> False)
      else False)"

definition codec_ok :: "'m codec \<Rightarrow> bool" where
  "codec_ok c \<longleftrightarrow>
     (\<forall>m. snd c (fst c m) = Some m \<and> newline \<notin> set (fst c m) \<and> utf8 (fst c m @ [newline]))"

section \<open>Reading\<close>

datatype tail = Closed | Broken io_error | Silent

record stream =
  st_bytes :: "u8 list"
  st_tail :: tail

datatype 'a reading = Got 'a | Raised io_error | Never

text \<open>\<open>read_line\<close>: up to and including the newline; a peer that closed ends the last line early.\<close>

definition read_line :: "stream \<Rightarrow> u8 list reading \<times> stream" where
  "read_line s =
     (let l = takeWhile (\<lambda>b. b \<noteq> newline) (st_bytes s);
          r = dropWhile (\<lambda>b. b \<noteq> newline) (st_bytes s)
      in case r of
           b # r' \<Rightarrow> (if utf8 (l @ [b]) then Got (l @ [b]) else Raised (Custom InvalidData), s\<lparr>st_bytes := r'\<rparr>)
         | [] \<Rightarrow>
             (case st_tail s of
                Closed \<Rightarrow> (if utf8 l then Got l else Raised (Custom InvalidData), s\<lparr>st_bytes := []\<rparr>)
              | Broken e \<Rightarrow> (Raised e, s\<lparr>st_bytes := []\<rparr>)
              | Silent \<Rightarrow> (Never, s\<lparr>st_bytes := []\<rparr>)))"

definition read_exact :: "nat \<Rightarrow> stream \<Rightarrow> u8 list reading \<times> stream" where
  "read_exact n s =
     (if n \<le> length (st_bytes s) then (Got (take n (st_bytes s)), s\<lparr>st_bytes := drop n (st_bytes s)\<rparr>)
      else case st_tail s of
             Closed \<Rightarrow> (Raised (Custom UnexpectedEof), s\<lparr>st_bytes := []\<rparr>)
           | Broken e \<Rightarrow> (Raised e, s\<lparr>st_bytes := []\<rparr>)
           | Silent \<Rightarrow> (Never, s\<lparr>st_bytes := []\<rparr>))"

section \<open>Facts\<close>

lemma trim_newlines_line: "newline \<notin> set l \<Longrightarrow> trim_newlines (l @ [newline]) = l"
proof (cases "rev l")
  case Nil
  then show "newline \<notin> set l \<Longrightarrow> trim_newlines (l @ [newline]) = l" by (simp add: trim_newlines_def)
next
  case (Cons a as)
  then have l: "l = rev as @ [a]" by (metis rev.simps(2) rev_rev_ident)
  show "newline \<notin> set l \<Longrightarrow> trim_newlines (l @ [newline]) = l"
    unfolding l by (simp add: trim_newlines_def)
qed

lemma decode_encode: "codec_ok c \<Longrightarrow> decode c (encode c m) = Some m"
  by (simp add: codec_ok_def decode_def encode_def trim_newlines_line)

lemma read_line_encode:
  assumes "codec_ok c" "st_bytes s = encode c m @ rest"
  shows "read_line s = (Got (encode c m), s\<lparr>st_bytes := rest\<rparr>)"
proof -
  have n: "\<forall>b \<in> set (fst c m). b \<noteq> newline" and u: "utf8 (fst c m @ [newline])"
    using assms(1) by (auto simp: codec_ok_def)
  have "takeWhile (\<lambda>b. b \<noteq> newline) (fst c m @ newline # rest) = fst c m"
    using n by (subst takeWhile_append2) auto
  moreover have "dropWhile (\<lambda>b. b \<noteq> newline) (fst c m @ newline # rest) = newline # rest"
    using n by (subst dropWhile_append2) auto
  ultimately show ?thesis using assms(2) u by (simp add: read_line_def encode_def)
qed

lemma read_exact_Got:
  "read_exact n s = (Got bs, s') \<longleftrightarrow>
     n \<le> length (st_bytes s) \<and> bs = take n (st_bytes s) \<and> s' = s\<lparr>st_bytes := drop n (st_bytes s)\<rparr>"
  by (auto simp: read_exact_def split: tail.splits)

lemma read_line_shorter:
  "read_line s = (Got l, s') \<Longrightarrow> l \<noteq> [] \<Longrightarrow> length (st_bytes s') < length (st_bytes s)"
  using length_dropWhile_le [of "\<lambda>b. b \<noteq> newline" "st_bytes s"]
  by (auto simp: read_line_def Let_def split: list.splits tail.splits if_splits)

lemma read_exact_length: "length (st_bytes (snd (read_exact n s))) \<le> length (st_bytes s)"
  by (auto simp: read_exact_def split: tail.splits)

end
