(* ===== verification/Sample_Codec.thy ===== *)
theory Sample_Codec
  imports Wire
begin

text \<open>
  One line format that satisfies \<open>codec_ok\<close>, so that the theorems about framing have an instance: a
  message is a list of fields, a field its number in unary and a comma.  It stands for no code of the
  repository; the format the program uses is \<open>serde_json\<close>'s.
\<close>

definition sign_code :: "int \<Rightarrow> nat" where
  "sign_code e = (if e < 0 then 2 * nat (- e) + 1 else 2 * nat e)"

definition sign_decode :: "nat \<Rightarrow> int" where
  "sign_decode n = (if odd n then - int (n div 2) else int (n div 2))"

definition text_code :: "string \<Rightarrow> nat list" where
  "text_code = map of_char"

definition text_decode :: "nat list \<Rightarrow> string" where
  "text_decode = map char_of"

fun fields :: "to_helper \<Rightarrow> nat list" where
  "fields (Fetch (Ready i n)) = [0, unat i, unat n]"
| "fields (Fetch (Failed i e r)) = 1 # unat i # sign_code e # text_code r"
| "fields (Fetch (Denied i r)) = 2 # unat i # text_code r"
| "fields (Control (Dehydrated f)) = [3, unat (fsid f), unat (ino f)]"
| "fields (Control (Rehydrated f)) = [4, unat (fsid f), unat (ino f)]"
| "fields (Chunk i n) = [5, unat i, unat n]"
| "fields (Done i) = [6, unat i]"
| "fields (Abort i e r) = 7 # unat i # sign_code e # text_code r"

definition of_fields :: "nat list \<Rightarrow> to_helper option" where
  "of_fields fs =
     (case fs of
        t # i # r \<Rightarrow>
          (if t = 0 \<and> r \<noteq> [] then Some (Fetch (Ready (of_nat i) (of_nat (hd r))))
           else if t = 1 \<and> r \<noteq> [] then Some (Fetch (Failed (of_nat i) (sign_decode (hd r)) (text_decode (tl r))))
           else if t = 2 then Some (Fetch (Denied (of_nat i) (text_decode r)))
           else if t = 3 \<and> r \<noteq> [] then Some (Control (Dehydrated (FileId (of_nat i) (of_nat (hd r)))))
           else if t = 4 \<and> r \<noteq> [] then Some (Control (Rehydrated (FileId (of_nat i) (of_nat (hd r)))))
           else if t = 5 \<and> r \<noteq> [] then Some (Chunk (of_nat i) (of_nat (hd r)))
           else if t = 6 then Some (Done (of_nat i))
           else if t = 7 \<and> r \<noteq> [] then Some (Abort (of_nat i) (sign_decode (hd r)) (text_decode (tl r)))
           else None)
      | _ \<Rightarrow> None)"

definition unary :: "nat list \<Rightarrow> u8 list" where
  "unary fs = concat (map (\<lambda>n. replicate n 49 @ [44]) fs)"

fun split_fields :: "nat \<Rightarrow> u8 list \<Rightarrow> nat list" where
  "split_fields a [] = []"
| "split_fields a (b # bs) = (if b = 44 then a # split_fields 0 bs else split_fields (Suc a) bs)"

definition sample_codec :: "to_helper codec" where
  "sample_codec = (unary \<circ> fields, of_fields \<circ> split_fields 0)"

lemma sign_decode_code [simp]: "sign_decode (sign_code e) = e"
  by (auto simp: sign_decode_def sign_code_def)

lemma text_decode_code [simp]: "text_decode (text_code s) = s"
  by (simp add: text_decode_def text_code_def comp_def)

lemma of_fields_fields: "of_fields (fields m) = Some m"
  by (cases m rule: fields.cases) (auto simp: of_fields_def)

lemma split_unary1: "split_fields a (replicate n 49 @ 44 # r) = (a + n) # split_fields 0 r"
  by (induction n arbitrary: a) auto

lemma split_unary: "split_fields 0 (unary fs) = fs"
  by (induction fs) (auto simp: unary_def split_unary1)

lemma utf8_ascii: "\<forall>b \<in> set l. b \<le> 0x7F \<Longrightarrow> utf8 l"
  by (induction l rule: utf8.induct) auto

lemma unary_bytes: "set (unary fs) \<subseteq> {49, 44}"
  by (auto simp: unary_def)

lemma sample_codec_ok: "codec_ok sample_codec"
proof -
  have "utf8 (unary fs @ [newline])" for fs
    by (rule utf8_ascii) (use unary_bytes [of fs] in auto)
  moreover have "newline \<notin> set (unary fs)" for fs
    using unary_bytes [of fs] by auto
  ultimately show ?thesis
    by (simp add: codec_ok_def sample_codec_def split_unary of_fields_fields)
qed

end
