(* ===== verification/Transport.thy ===== *)
theory Transport
  imports Sample_Codec
begin

text \<open>
  \<open>crates/hydration-protocol/src/transport.rs\<close>: the framing of the privilege boundary.  The helper's
  side is \<open>recv_streamed\<close>, which hands a body to a sink chunk by chunk; what a sink may rely on is
  the locale \<open>chunk_sink\<close>.  The daemon's side is \<open>Body\<close>, which cannot send more than it promised.
\<close>

section \<open>The helper's end\<close>

datatype streamed = Complete | Aborted int string | Refused fetch_response

type_synonym 's sink = "u8 list \<Rightarrow> u64 \<Rightarrow> 's \<Rightarrow> (io_error + unit) \<times> 's"

datatype frame_step = More u64 | End "streamed reading"

fun frame_id :: "to_helper \<Rightarrow> u64 option" where
  "frame_id (Fetch r) = Some (response_id r)"
| "frame_id (Chunk i _) = Some i"
| "frame_id (Done i) = Some i"
| "frame_id (Abort i _ _) = Some i"
| "frame_id (Control _) = None"

text \<open>One turn of the loop of \<open>recv_streamed\<close>: a frame, and the bytes that follow it.\<close>

definition recv_frame ::
  "to_helper codec \<Rightarrow> u64 \<Rightarrow> u64 \<Rightarrow> 's sink \<Rightarrow> (u64 \<Rightarrow> 's \<Rightarrow> 's) \<Rightarrow> u64 \<Rightarrow> stream \<Rightarrow> 's
     \<Rightarrow> frame_step \<times> stream \<times> 's" where
  "recv_frame c want expected dest progress moved s \<sigma> =
     (case read_line s of
        (Raised e, s1) \<Rightarrow> (End (Raised e), s1, \<sigma>)
      | (Never, s1) \<Rightarrow> (End Never, s1, \<sigma>)
      | (Got line, s1) \<Rightarrow>
          if line = [] then (End (Raised (Custom UnexpectedEof)), s1, \<sigma>)
          else (case decode c line of
             None \<Rightarrow> (End (Raised (Custom Other)), s1, \<sigma>)
           | Some msg \<Rightarrow>
               if frame_id msg \<noteq> None \<and> frame_id msg \<noteq> Some want
               then (End (Raised (Custom InvalidData)), s1, \<sigma>)
               else (case msg of
                  Fetch (Ready _ n) \<Rightarrow>
                    if n \<noteq> expected then (End (Raised (Custom InvalidData)), s1, \<sigma>) else (More moved, s1, \<sigma>)
                | Chunk _ n \<Rightarrow>
                    if n = 0 \<or> MAX_CHUNK < n \<or> expected < moved + n
                    then (End (Raised (Custom InvalidData)), s1, \<sigma>)
                    else (case read_exact (unat n) s1 of
                       (Raised e, s2) \<Rightarrow> (End (Raised e), s2, \<sigma>)
                     | (Never, s2) \<Rightarrow> (End Never, s2, \<sigma>)
                     | (Got buf, s2) \<Rightarrow>
                         (case dest buf moved \<sigma> of
                            (Inl e, \<sigma>1) \<Rightarrow> (End (Raised e), s2, \<sigma>1)
                          | (Inr _, \<sigma>1) \<Rightarrow> (More (moved + n), s2, progress (moved + n) \<sigma>1)))
                | Done _ \<Rightarrow>
                    if moved \<noteq> expected then (End (Raised (Custom InvalidData)), s1, \<sigma>)
                    else (End (Got Complete), s1, \<sigma>)
                | Abort _ errno reason \<Rightarrow> (End (Got (Aborted errno reason)), s1, \<sigma>)
                | Fetch other \<Rightarrow> (End (Got (Refused other)), s1, \<sigma>)
                | Control _ \<Rightarrow> (More moved, s1, \<sigma>))))"

lemma recv_frame_shorter:
  assumes "recv_frame c want expected dest progress moved s \<sigma> = (More t, s', \<sigma>')"
  shows "length (st_bytes s') < length (st_bytes s)"
proof -
  obtain line s1 where l: "read_line s = (Got line, s1)" "line \<noteq> []"
    using assms by (auto simp: recv_frame_def split: prod.splits reading.splits if_splits)
  have s1: "length (st_bytes s1) < length (st_bytes s)" using read_line_shorter [OF l] .
  obtain msg where m: "decode c line = Some msg"
    using assms l by (auto simp: recv_frame_def split: option.splits)
  have "length (st_bytes s') \<le> length (st_bytes s1)"
  proof (cases msg)
    case (Chunk i n)
    obtain r s2 where "read_exact (unat n) s1 = (r, s2)" by fastforce
    then show ?thesis using assms l m Chunk read_exact_length [of "unat n" s1]
      by (auto simp: recv_frame_def split: reading.splits prod.splits sum.splits if_splits)
  next
    case (Fetch r)
    then show ?thesis using assms l m
      by (cases r) (auto simp: recv_frame_def split: if_splits)
  qed (use assms l m in \<open>auto simp: recv_frame_def split: if_splits\<close>)
  with s1 show ?thesis by simp
qed

function recv_loop ::
  "to_helper codec \<Rightarrow> u64 \<Rightarrow> u64 \<Rightarrow> 's sink \<Rightarrow> (u64 \<Rightarrow> 's \<Rightarrow> 's) \<Rightarrow> u64 \<Rightarrow> stream \<Rightarrow> 's
     \<Rightarrow> streamed reading \<times> stream \<times> 's" where
  "recv_loop c want expected dest progress moved s \<sigma> =
     (case recv_frame c want expected dest progress moved s \<sigma> of
        (More t, s', \<sigma>') \<Rightarrow> recv_loop c want expected dest progress t s' \<sigma>'
      | (End r, s', \<sigma>') \<Rightarrow> (r, s', \<sigma>'))"
  by pat_completeness auto

termination
  by (relation "measure (\<lambda>(_, _, _, _, _, _, s, _). length (st_bytes s))")
     (auto dest: recv_frame_shorter [OF sym])

declare recv_loop.simps [simp del]

definition recv_streamed ::
  "to_helper codec \<Rightarrow> u64 \<Rightarrow> u64 \<Rightarrow> 's sink \<Rightarrow> (u64 \<Rightarrow> 's \<Rightarrow> 's) \<Rightarrow> stream \<Rightarrow> 's
     \<Rightarrow> streamed reading \<times> stream \<times> 's" where
  "recv_streamed c want expected dest progress s \<sigma> =
     (if MAX_OBJECT < expected then (Raised (Custom InvalidData), s, \<sigma>)
      else recv_loop c want expected dest progress 0 s \<sigma>)"

text \<open>The whole-body receiver.\<close>

definition recv :: "to_helper codec \<Rightarrow> u64 \<Rightarrow> stream \<Rightarrow> (fetch_response \<times> u8 list) reading \<times> stream" where
  "recv c expected s =
     (case read_line s of
        (Raised e, s1) \<Rightarrow> (Raised e, s1)
      | (Never, s1) \<Rightarrow> (Never, s1)
      | (Got line, s1) \<Rightarrow>
          if line = [] then (Raised (Custom UnexpectedEof), s1)
          else (case decode c line of
             None \<Rightarrow> (Raised (Custom Other), s1)
           | Some (Fetch (Ready i n)) \<Rightarrow>
               if n \<noteq> expected then (Raised (Custom InvalidData), s1)
               else (case read_exact (unat n) s1 of
                  (Got buf, s2) \<Rightarrow> (Got (Ready i n, buf), s2)
                | (Raised e, s2) \<Rightarrow> (Raised e, s2)
                | (Never, s2) \<Rightarrow> (Never, s2))
           | Some (Fetch resp) \<Rightarrow> (Got (resp, []), s1)
           | Some _ \<Rightarrow> (Raised (Custom InvalidData), s1)))"

section \<open>A socket that is written to\<close>

text \<open>
  Each entry of \<open>sk_plan\<close> is the fate of one \<open>write_all\<close>: it succeeds, or some bytes get out and it
  fails.  After a shutdown every write fails.
\<close>

record sock =
  sk_sent :: "u8 list"
  sk_plan :: "(nat \<times> io_error) option list"
  sk_shut :: bool

definition write_all :: "u8 list \<Rightarrow> sock \<Rightarrow> (io_error + unit) \<times> sock" where
  "write_all bs k =
     (if sk_shut k then (Inl (Os EPIPE), k)
      else case sk_plan k of
             [] \<Rightarrow> (Inr (), k\<lparr>sk_sent := sk_sent k @ bs\<rparr>)
           | None # ps \<Rightarrow> (Inr (), k\<lparr>sk_sent := sk_sent k @ bs, sk_plan := ps\<rparr>)
           | Some (n, e) # ps \<Rightarrow>
               (Inl e, k\<lparr>sk_sent := sk_sent k @ take n (butlast bs), sk_plan := ps\<rparr>))"

definition notify_send :: "from_helper codec \<Rightarrow> from_helper \<Rightarrow> sock \<Rightarrow> (io_error + unit) \<times> sock" where
  "notify_send c m k = write_all (encode c m) k"

section \<open>The daemon's end\<close>

definition daemon_recv :: "from_helper codec \<Rightarrow> stream \<Rightarrow> from_helper option reading \<times> stream" where
  "daemon_recv c s =
     (case read_line s of
        (Raised e, s1) \<Rightarrow> (Raised e, s1)
      | (Never, s1) \<Rightarrow> (Never, s1)
      | (Got line, s1) \<Rightarrow>
          if line = [] then (Got None, s1)
          else (case decode c line of
                  None \<Rightarrow> (Raised (Custom Other), s1)
                | Some m \<Rightarrow> (Got (Some m), s1)))"

record body =
  b_sock :: sock
  b_id :: u64
  b_promised :: u64
  b_written :: u64
  b_finished :: bool
  b_poisoned :: bool

definition body_begin :: "to_helper codec \<Rightarrow> u64 \<Rightarrow> u64 \<Rightarrow> sock \<Rightarrow> (io_error + body) \<times> sock" where
  "body_begin c i n k =
     (case write_all (encode c (Fetch (Ready i n))) k of
        (Inl e, k') \<Rightarrow> (Inl e, k')
      | (Inr _, k') \<Rightarrow>
          (Inr \<lparr>b_sock = k', b_id = i, b_promised = n, b_written = 0, b_finished = False,
                b_poisoned = False\<rparr>, k'))"

definition body_remaining :: "body \<Rightarrow> u64" where
  "body_remaining b = sat_sub (b_promised b) (b_written b)"

definition send_line :: "u8 list \<Rightarrow> body \<Rightarrow> (io_error + unit) \<times> body" where
  "send_line l b =
     (if b_poisoned b
      then (Inl (Custom BrokenPipe), b\<lparr>b_sock := (b_sock b)\<lparr>sk_shut := True\<rparr>\<rparr>)
      else case write_all l (b_sock b) of (r, k') \<Rightarrow> (r, b\<lparr>b_sock := k'\<rparr>))"

definition abort_with :: "to_helper codec \<Rightarrow> int \<Rightarrow> string \<Rightarrow> body \<Rightarrow> (io_error + unit) \<times> body" where
  "abort_with c errno reason b =
     send_line (encode c (Abort (b_id b) errno reason)) (b\<lparr>b_finished := True\<rparr>)"

definition body_finish :: "to_helper codec \<Rightarrow> string \<Rightarrow> body \<Rightarrow> (io_error + unit) \<times> body" where
  "body_finish c short b =
     (if b_written b \<noteq> b_promised b
      then (case abort_with c EIO short b of
              (Inl e, b') \<Rightarrow> (Inl e, b')
            | (Inr _, b') \<Rightarrow> (Inl (Custom UnexpectedEof), b'))
      else send_line (encode c (Done (b_id b))) (b\<lparr>b_finished := True\<rparr>))"

definition body_write :: "to_helper codec \<Rightarrow> u8 list \<Rightarrow> body \<Rightarrow> (io_error + nat) \<times> body" where
  "body_write c buf b =
     (if buf = [] then (Inr 0, b)
      else if b_promised b < b_written b + of_nat (length buf) then (Inl (Custom InvalidData), b)
      else let n = min (length buf) (unat MAX_CHUNK) in
        (case write_all (encode c (Chunk (b_id b) (of_nat n))) (b_sock b) of
           (Inl e, k1) \<Rightarrow> (Inl e, b\<lparr>b_sock := k1\<rparr>)
         | (Inr _, k1) \<Rightarrow>
             (case write_all (take n buf) k1 of
                (Inl e, k2) \<Rightarrow> (Inl e, b\<lparr>b_sock := k2, b_poisoned := True\<rparr>)
              | (Inr _, k2) \<Rightarrow> (Inr n, b\<lparr>b_sock := k2, b_written := b_written b + of_nat n\<rparr>))))"

text \<open>A body dropped unfinished says so.\<close>

definition body_drop :: "to_helper codec \<Rightarrow> string \<Rightarrow> body \<Rightarrow> body" where
  "body_drop c reason b = (if b_finished b then b else snd (abort_with c EIO reason b))"

definition send_ready :: "to_helper codec \<Rightarrow> u64 \<Rightarrow> u8 list \<Rightarrow> sock \<Rightarrow> (io_error + unit) \<times> sock" where
  "send_ready c i content k =
     (case write_all (encode c (Fetch (Ready i (of_nat (length content))))) k of
        (Inl e, k') \<Rightarrow> (Inl e, k')
      | (Inr _, k') \<Rightarrow> write_all content k')"

definition send_response :: "to_helper codec \<Rightarrow> fetch_response \<Rightarrow> sock \<Rightarrow> (io_error + unit) \<times> sock" where
  "send_response c r k = write_all (encode c (Fetch r)) k"

section \<open>What a sink may rely on\<close>

text \<open>
  The contract between the receiver and the sink it fills: chunks come in order, none is empty or
  larger than \<open>MAX_CHUNK\<close>, none runs past the length that was asked for.  \<open>I n \<sigma>\<close> is what the sink
  keeps after \<open>n\<close> bytes, \<open>J \<sigma>\<close> what holds however the transfer ends.
\<close>

locale chunk_sink =
  fixes expected :: u64
    and dest :: "'s sink"
    and progress :: "u64 \<Rightarrow> 's \<Rightarrow> 's"
    and I :: "u64 \<Rightarrow> 's \<Rightarrow> bool"
    and J :: "'s \<Rightarrow> bool"
  assumes landed: "I n \<sigma> \<Longrightarrow> bs \<noteq> [] \<Longrightarrow> length bs \<le> unat MAX_CHUNK \<Longrightarrow>
      unat n + length bs \<le> unat expected \<Longrightarrow> dest bs n \<sigma> = (Inr u, \<sigma>') \<Longrightarrow>
      I (n + of_nat (length bs)) (progress (n + of_nat (length bs)) \<sigma>')"
    and refused: "I n \<sigma> \<Longrightarrow> bs \<noteq> [] \<Longrightarrow> length bs \<le> unat MAX_CHUNK \<Longrightarrow>
      unat n + length bs \<le> unat expected \<Longrightarrow> dest bs n \<sigma> = (Inl e, \<sigma>') \<Longrightarrow> J \<sigma>'"
    and settled: "I n \<sigma> \<Longrightarrow> n \<le> expected \<Longrightarrow> J \<sigma>"
begin

lemma chunk_fits:
  assumes "expected \<le> MAX_OBJECT" "moved \<le> expected"
    and "\<not> (n = 0 \<or> MAX_CHUNK < n \<or> expected < moved + n)"
  shows "unat moved + unat n \<le> unat expected" "unat n \<le> unat MAX_CHUNK" "0 < unat n"
proof -
  have "unat moved \<le> 1099511627776" "unat n \<le> 1048576"
    using assms by (auto simp: word_le_nat_alt word_less_nat_alt)
  then have "unat (moved + n) = unat moved + unat n" by (subst unat_add_lem [THEN iffD1]) auto
  then show "unat moved + unat n \<le> unat expected" "unat n \<le> unat MAX_CHUNK" "0 < unat n"
    using assms(3) by (auto simp: word_le_nat_alt word_less_nat_alt unat_eq_0 word_neq_0_conv)
qed

lemma frame_keeps:
  assumes f: "recv_frame c want expected dest progress moved s \<sigma> = (st, s', \<sigma>')"
    and i: "I moved \<sigma>" "moved \<le> expected" "expected \<le> MAX_OBJECT"
  shows "case st of More t \<Rightarrow> I t \<sigma>' \<and> t \<le> expected
                  | End r \<Rightarrow> J \<sigma>' \<and> (r = Got Complete \<longrightarrow> I expected \<sigma>')"
proof -
  have j: "J \<sigma>" using settled i(1,2) .
  obtain r1 s1 where l: "read_line s = (r1, s1)" by fastforce
  show ?thesis
  proof (cases "(\<exists>line msg. r1 = Got line \<and> line \<noteq> [] \<and> decode c line = Some msg \<and>
                  (frame_id msg = None \<or> frame_id msg = Some want))")
    case False
    then show ?thesis using f l j
      by (auto simp: recv_frame_def split: reading.splits if_splits option.splits)
  next
    case True
    then obtain line msg where m: "r1 = Got line" "line \<noteq> []" "decode c line = Some msg"
      "frame_id msg = None \<or> frame_id msg = Some want" by blast
    show ?thesis
    proof (cases msg)
      case (Chunk k n)
      show ?thesis
      proof (cases "n = 0 \<or> MAX_CHUNK < n \<or> expected < moved + n")
        case True
        then show ?thesis using f l m Chunk j by (auto simp: recv_frame_def)
      next
        case ok: False
        note fit = chunk_fits [OF i(3) i(2) ok]
        obtain r2 s2 where x: "read_exact (unat n) s1 = (r2, s2)" by fastforce
        show ?thesis
        proof (cases r2)
          case (Got buf)
          with x have b: "length buf = unat n" "buf \<noteq> []"
            using fit(3) by (auto simp: read_exact_Got)
          obtain r3 \<sigma>1 where d: "dest buf moved \<sigma> = (r3, \<sigma>1)" by fastforce
          show ?thesis
          proof (cases r3)
            case (Inl e)
            have "J \<sigma>1" using refused [of moved \<sigma> buf e \<sigma>1] i(1) b fit d Inl by simp
            then show ?thesis using f l m Chunk ok x Got d Inl by (auto simp: recv_frame_def)
          next
            case (Inr u)
            have n: "of_nat (length buf) = n" using b by simp
            have "I (moved + n) (progress (moved + n) \<sigma>1)"
              using landed [of moved \<sigma> buf u \<sigma>1] i(1) b fit d Inr by simp
            moreover have "moved + n \<le> expected" using ok by (simp add: not_less)
            ultimately show ?thesis using f l m Chunk ok x Got d Inr by (auto simp: recv_frame_def)
          qed
        qed (use f l m Chunk ok x j in \<open>auto simp: recv_frame_def\<close>)
      qed
    next
      case (Fetch r)
      then show ?thesis using f l m i j by (cases r) (auto simp: recv_frame_def split: if_splits)
    qed (use f l m i j in \<open>auto simp: recv_frame_def split: if_splits\<close>)
  qed
qed

lemma loop_keeps:
  assumes "recv_loop c want expected dest progress moved s \<sigma> = (r, s', \<sigma>')"
    and "I moved \<sigma>" "moved \<le> expected" "expected \<le> MAX_OBJECT"
  shows "J \<sigma>' \<and> (r = Got Complete \<longrightarrow> I expected \<sigma>')"
  using assms
proof (induction "length (st_bytes s)" arbitrary: moved s \<sigma> rule: less_induct)
  case less
  obtain st s1 \<sigma>1 where f: "recv_frame c want expected dest progress moved s \<sigma> = (st, s1, \<sigma>1)"
    by (cases "recv_frame c want expected dest progress moved s \<sigma>") auto
  note k = frame_keeps [OF f less.prems(2-4)]
  show ?case
  proof (cases st)
    case (More t)
    with f less.prems(1) have "recv_loop c want expected dest progress t s1 \<sigma>1 = (r, s', \<sigma>')"
      by (subst (asm) recv_loop.simps) simp
    moreover have "length (st_bytes s1) < length (st_bytes s)"
      using recv_frame_shorter [of c want expected dest progress moved s \<sigma> t s1 \<sigma>1] f More by simp
    moreover have "I t \<sigma>1" "t \<le> expected" using k More by simp_all
    ultimately show ?thesis using less.hyps less.prems(4) by blast
  next
    case (End r')
    with f less.prems(1) k show ?thesis by (subst (asm) recv_loop.simps) auto
  qed
qed

lemma streamed_keeps:
  assumes "recv_streamed c want expected dest progress s \<sigma> = (r, s', \<sigma>')" "I 0 \<sigma>"
  shows "J \<sigma>' \<and> (r = Got Complete \<longrightarrow> I expected \<sigma>' \<and> expected \<le> MAX_OBJECT)"
  using assms loop_keeps [of c want 0 s \<sigma> r s' \<sigma>'] settled
  by (auto simp: recv_streamed_def not_less split: if_splits)

end

section \<open>The recording sink\<close>

text \<open>Every call of the sink, with its offset; \<open>layout\<close> places chunks end to end.\<close>

definition record_sink :: "(u64 \<times> u8 list) list sink" where
  "record_sink bs off log = (Inr (), log @ [(off, bs)])"

fun layout :: "nat \<Rightarrow> u8 list list \<Rightarrow> (u64 \<times> u8 list) list" where
  "layout n [] = []"
| "layout n (b # bs) = (of_nat n, b) # layout (n + length b) bs"

definition log_ok :: "u64 \<Rightarrow> (u64 \<times> u8 list) list \<Rightarrow> bool" where
  "log_ok n log \<longleftrightarrow>
     log = layout 0 (map snd log) \<and> unat n = length (concat (map snd log)) \<and>
     (\<forall>b \<in> set (map snd log). b \<noteq> [] \<and> length b \<le> unat MAX_CHUNK)"

lemma layout_append: "layout n (bs @ cs) = layout n bs @ layout (n + length (concat bs)) cs"
  by (induction bs arbitrary: n) (auto simp: add.assoc)

lemma log_ok_snoc:
  assumes "log_ok n log" "bs \<noteq> []" "length bs \<le> unat MAX_CHUNK" "unat n + length bs < 2 ^ 64"
  shows "log_ok (n + of_nat (length bs)) (log @ [(n, bs)])"
proof -
  have "unat (of_nat (length bs) :: u64) = length bs"
    using assms(4) by (simp add: unat_of_nat take_bit_nat_eq_self)
  then have "unat (n + of_nat (length bs)) = unat n + length bs"
    using assms(4) by (subst unat_add_lem [THEN iffD1]) auto
  moreover have "of_nat (length (concat (map snd log))) = (of_nat (unat n) :: u64)"
    using assms(1) unfolding log_ok_def by (elim conjE) (simp only:)
  ultimately show ?thesis using assms by (auto simp: log_ok_def layout_append)
qed

interpretation rec: chunk_sink expected record_sink "\<lambda>_ \<sigma>. \<sigma>" log_ok
  "\<lambda>log. \<exists>n. log_ok n log \<and> n \<le> expected" for expected
proof unfold_locales
  fix n log bs u log'
  assume a: "log_ok n log" "bs \<noteq> []" "length bs \<le> unat MAX_CHUNK" "unat n + length bs \<le> unat expected"
    "record_sink bs n log = (Inr u, log')"
  have "unat n + length bs < 2 ^ 64"
    using a(4) unsigned_less [of expected, where ?'a = nat] by simp
  then show "log_ok (n + of_nat (length bs)) log'"
    using log_ok_snoc [OF a(1-3)] a(5) by (simp add: record_sink_def)
qed (auto simp: record_sink_def)

text \<open>C7: What a daemon can make the privileged side do, whatever bytes it sends and however the stream
  ends: the chunks handed to the sink lie end to end from the start of the body, none is empty or
  larger than a mebibyte, together they never exceed the length the helper asked for, and completion
  is reported only when every byte has been handed over.\<close>

theorem recv_streamed_contained:
  assumes "recv_streamed c want expected record_sink (\<lambda>_ \<sigma>. \<sigma>) s [] = (r, s', log)"
  shows "(\<exists>n. log_ok n log \<and> n \<le> expected) \<and>
         (r = Got Complete \<longrightarrow> log_ok expected log \<and> expected \<le> MAX_OBJECT)"
  using rec.streamed_keeps [OF assms] by (auto simp: log_ok_def)

section \<open>A whole object, sent\<close>

text \<open>
  \<open>Write::write_all\<close> over a \<open>Body\<close>, and a provider that writes its pieces and finishes.  (The
  socket's own \<open>write_all\<close> retries an interrupted call, so none is seen here.)
\<close>

function body_write_all :: "to_helper codec \<Rightarrow> u8 list \<Rightarrow> body \<Rightarrow> (io_error + unit) \<times> body" where
  "body_write_all c buf b =
     (if buf = [] then (Inr (), b)
      else case body_write c buf b of
             (Inl e, b') \<Rightarrow> (Inl e, b')
           | (Inr n, b') \<Rightarrow>
               if n = 0 then (Inl (Custom WriteZero), b') else body_write_all c (drop n buf) b')"
  by pat_completeness auto

termination
  by (relation "measure (\<lambda>(_, buf, _). length buf)") auto

declare body_write_all.simps [simp del]

fun body_write_each :: "to_helper codec \<Rightarrow> u8 list list \<Rightarrow> body \<Rightarrow> (io_error + unit) \<times> body" where
  "body_write_each c [] b = (Inr (), b)"
| "body_write_each c (buf # bufs) b =
     (case body_write_all c buf b of
        (Inl e, b') \<Rightarrow> (Inl e, b')
      | (Inr _, b') \<Rightarrow> body_write_each c bufs b')"

definition send_object ::
  "to_helper codec \<Rightarrow> u64 \<Rightarrow> u64 \<Rightarrow> u8 list list \<Rightarrow> sock \<Rightarrow> (io_error + unit) \<times> sock" where
  "send_object c i n bufs k =
     (case body_begin c i n k of
        (Inl e, k') \<Rightarrow> (Inl e, k')
      | (Inr b, _) \<Rightarrow>
          (case body_write_each c bufs b of
             (Inl e, b') \<Rightarrow> (Inl e, b_sock (body_drop c ''abandoned'' b'))
           | (Inr _, b') \<Rightarrow> (case body_finish c ''short'' b' of (r, b'') \<Rightarrow> (r, b_sock b''))))"

text \<open>The frames one buffer becomes.\<close>

function frames :: "to_helper codec \<Rightarrow> u64 \<Rightarrow> u8 list \<Rightarrow> u8 list" where
  "frames c i buf =
     (if buf = [] then []
      else let n = min (length buf) (unat MAX_CHUNK)
           in encode c (Chunk i (of_nat n)) @ take n buf @ frames c i (drop n buf))"
  by pat_completeness auto

termination
  by (relation "measure (\<lambda>(_, _, buf). length buf)") auto

declare frames.simps [simp del]

lemma write_all_ok: "sk_plan k = [] \<Longrightarrow> \<not> sk_shut k \<Longrightarrow> write_all bs k = (Inr (), k\<lparr>sk_sent := sk_sent k @ bs\<rparr>)"
  by (simp add: write_all_def)

lemma body_write_all_ok:
  assumes "sk_plan (b_sock b) = []" "\<not> sk_shut (b_sock b)"
    and "unat (b_written b) + length buf \<le> unat (b_promised b)"
  shows "body_write_all c buf b =
    (Inr (), b\<lparr>b_sock := (b_sock b)\<lparr>sk_sent := sk_sent (b_sock b) @ frames c (b_id b) buf\<rparr>,
               b_written := b_written b + of_nat (length buf)\<rparr>)"
  using assms
proof (induction "length buf" arbitrary: buf b rule: less_induct)
  case less
  show ?case
  proof (cases "buf = []")
    case True
    then show ?thesis by (simp add: body_write_all.simps frames.simps)
  next
    case False
    define n where "n = min (length buf) (unat MAX_CHUNK)"
    have n: "0 < n" "n \<le> length buf" using False by (auto simp: n_def)
    have lt: "unat (b_written b) + length buf < 2 ^ 64"
      using less.prems(3) unsigned_less [of "b_promised b", where ?'a = nat] by simp
    have un: "unat (of_nat k :: u64) = k" if "k \<le> length buf" for k
      using that lt by (simp add: unat_of_nat take_bit_nat_eq_self)
    have ua: "unat (b_written b + of_nat k) = unat (b_written b) + k" if "k \<le> length buf" for k
      using that lt un [OF that] by (subst unat_add_lem [THEN iffD1]) auto
    have fits: "\<not> b_promised b < b_written b + of_nat (length buf)"
      using ua [of "length buf"] less.prems(3) by (simp add: word_less_nat_alt)
    define b1 where "b1 = b\<lparr>b_sock := (b_sock b)\<lparr>sk_sent := sk_sent (b_sock b) @ encode c (Chunk (b_id b) (of_nat n)) @ take n buf\<rparr>,
               b_written := b_written b + of_nat n\<rparr>"
    have w: "body_write c buf b = (Inr n, b1)"
      using False fits less.prems(1,2) by (simp add: body_write_def n_def b1_def write_all_ok Let_def)
    have "body_write_all c (drop n buf) b1 =
      (Inr (), b1\<lparr>b_sock := (b_sock b1)\<lparr>sk_sent := sk_sent (b_sock b1) @ frames c (b_id b1) (drop n buf)\<rparr>,
               b_written := b_written b1 + of_nat (length (drop n buf))\<rparr>)"
      by (rule less.hyps) (use n less.prems ua [of n] in \<open>simp_all add: b1_def\<close>)
    moreover have "body_write_all c buf b = body_write_all c (drop n buf) b1"
      using False n w by (subst body_write_all.simps) simp
    moreover have "frames c (b_id b) buf = encode c (Chunk (b_id b) (of_nat n)) @ take n buf @ frames c (b_id b) (drop n buf)"
      using False by (subst frames.simps) (simp add: n_def Let_def)
    moreover have "b_written b + of_nat n + of_nat (length buf - n) = b_written b + of_nat (length buf)"
      using n by (simp add: of_nat_diff)
    ultimately show ?thesis by (simp add: b1_def)
  qed
qed

lemma recv_frames:
  assumes "codec_ok c" "expected \<le> MAX_OBJECT" "unat moved + length buf \<le> unat expected"
  shows "\<exists>log'. recv_loop c i expected record_sink (\<lambda>_ \<sigma>. \<sigma>) moved \<lparr>st_bytes = frames c i buf @ rest, st_tail = e\<rparr> log =
                recv_loop c i expected record_sink (\<lambda>_ \<sigma>. \<sigma>) (moved + of_nat (length buf)) \<lparr>st_bytes = rest, st_tail = e\<rparr> (log @ log')
              \<and> concat (map snd log') = buf"
  using assms(3)
proof (induction "length buf" arbitrary: buf moved log rule: less_induct)
  case less
  show ?case
  proof (cases "buf = []")
    case True
    then show ?thesis by (intro exI [of _ "[]"]) (simp add: frames.simps)
  next
    case False
    define n where "n = min (length buf) (unat MAX_CHUNK)"
    have n: "0 < n" "n \<le> length buf" "n \<le> 1048576" using False by (auto simp: n_def)
    have lt: "unat moved + length buf < 2 ^ 64"
      using less.prems unsigned_less [of expected, where ?'a = nat] by simp
    have un: "unat (of_nat n :: u64) = n"
      using n lt by (simp add: unat_of_nat take_bit_nat_eq_self)
    have ua: "unat (moved + of_nat n) = unat moved + n"
      using n lt un by (subst unat_add_lem [THEN iffD1]) auto
    have ok: "\<not> ((of_nat n :: u64) = 0 \<or> MAX_CHUNK < of_nat n \<or> expected < moved + of_nat n)"
      using n un ua less.prems by (auto simp: word_less_nat_alt unat_eq_0 [symmetric])
    have fr: "frames c i buf @ rest = encode c (Chunk i (of_nat n)) @ take n buf @ frames c i (drop n buf) @ rest"
      using False by (subst frames.simps) (simp add: n_def Let_def)
    have ne: "encode c (Chunk i (of_nat n)) \<noteq> []" by (simp add: encode_def)
    have step: "recv_frame c i expected record_sink (\<lambda>_ \<sigma>. \<sigma>) moved \<lparr>st_bytes = frames c i buf @ rest, st_tail = e\<rparr> log =
      (More (moved + of_nat n), \<lparr>st_bytes = frames c i (drop n buf) @ rest, st_tail = e\<rparr>, log @ [(moved, take n buf)])"
      unfolding fr using ok ne un n
      by (simp add: recv_frame_def read_line_encode [OF assms(1)] decode_encode [OF assms(1)] read_exact_def
            record_sink_def)
    have h: "length (drop n buf) < length buf" "unat (moved + of_nat n) + length (drop n buf) \<le> unat expected"
      using n ua less.prems by simp_all
    from less.hyps [OF h, of "log @ [(moved, take n buf)]"] obtain log' where
      "recv_loop c i expected record_sink (\<lambda>_ \<sigma>. \<sigma>) (moved + of_nat n) \<lparr>st_bytes = frames c i (drop n buf) @ rest, st_tail = e\<rparr> (log @ [(moved, take n buf)]) =
       recv_loop c i expected record_sink (\<lambda>_ \<sigma>. \<sigma>) (moved + of_nat n + of_nat (length (drop n buf))) \<lparr>st_bytes = rest, st_tail = e\<rparr> ((log @ [(moved, take n buf)]) @ log')"
      "concat (map snd log') = drop n buf" by (elim exE conjE)
    note hyp = this
    have e2: "moved + of_nat n + of_nat (length (drop n buf)) = moved + of_nat (length buf)"
      using n by (simp add: of_nat_diff)
    have "recv_loop c i expected record_sink (\<lambda>_ \<sigma>. \<sigma>) moved \<lparr>st_bytes = frames c i buf @ rest, st_tail = e\<rparr> log =
      recv_loop c i expected record_sink (\<lambda>_ \<sigma>. \<sigma>) (moved + of_nat n) \<lparr>st_bytes = frames c i (drop n buf) @ rest, st_tail = e\<rparr>
        (log @ [(moved, take n buf)])"
      using step by (subst recv_loop.simps) simp
    also note hyp(1) [unfolded e2]
    finally show ?thesis using hyp(2)
      by (intro exI [of _ "(moved, take n buf) # log'"]) simp
  qed
qed

lemma body_write_each_ok:
  assumes "sk_plan (b_sock b) = []" "\<not> sk_shut (b_sock b)"
    and "unat (b_written b) + length (concat bufs) \<le> unat (b_promised b)"
  shows "body_write_each c bufs b =
    (Inr (), b\<lparr>b_sock := (b_sock b)\<lparr>sk_sent := sk_sent (b_sock b) @ concat (map (frames c (b_id b)) bufs)\<rparr>,
               b_written := b_written b + of_nat (length (concat bufs))\<rparr>)"
  using assms
proof (induction bufs arbitrary: b)
  case (Cons buf bufs)
  have lt: "unat (b_written b) + length buf < 2 ^ 64"
    using Cons.prems(3) unsigned_less [of "b_promised b", where ?'a = nat] by simp
  then have "unat (of_nat (length buf) :: u64) = length buf"
    by (simp add: unat_of_nat take_bit_nat_eq_self)
  then have ua: "unat (b_written b + of_nat (length buf)) = unat (b_written b) + length buf"
    using lt by (subst unat_add_lem [THEN iffD1]) auto
  show ?case using Cons ua by (simp add: body_write_all_ok add.assoc)
qed simp

lemma recv_all_frames:
  assumes "codec_ok c" "expected \<le> MAX_OBJECT" "unat moved + length (concat bufs) \<le> unat expected"
  shows "\<exists>log'. recv_loop c i expected record_sink (\<lambda>_ \<sigma>. \<sigma>) moved
                  \<lparr>st_bytes = concat (map (frames c i) bufs) @ rest, st_tail = e\<rparr> log =
                recv_loop c i expected record_sink (\<lambda>_ \<sigma>. \<sigma>) (moved + of_nat (length (concat bufs)))
                  \<lparr>st_bytes = rest, st_tail = e\<rparr> (log @ log')
              \<and> concat (map snd log') = concat bufs"
  using assms(3)
proof (induction bufs arbitrary: moved log)
  case Nil
  then show ?case by (intro exI [of _ "[]"]) simp
next
  case (Cons buf bufs)
  have lt: "unat moved + length buf < 2 ^ 64"
    using Cons.prems unsigned_less [of expected, where ?'a = nat] by simp
  then have "unat (of_nat (length buf) :: u64) = length buf"
    by (simp add: unat_of_nat take_bit_nat_eq_self)
  then have ua: "unat (moved + of_nat (length buf)) = unat moved + length buf"
    using lt by (subst unat_add_lem [THEN iffD1]) auto
  have "unat moved + length buf \<le> unat expected" using Cons.prems by simp
  from recv_frames [OF assms(1,2) this, of i "concat (map (frames c i) bufs) @ rest" e log]
  obtain l1 where 1: "recv_loop c i expected record_sink (\<lambda>_ \<sigma>. \<sigma>) moved
      \<lparr>st_bytes = frames c i buf @ concat (map (frames c i) bufs) @ rest, st_tail = e\<rparr> log =
     recv_loop c i expected record_sink (\<lambda>_ \<sigma>. \<sigma>) (moved + of_nat (length buf))
      \<lparr>st_bytes = concat (map (frames c i) bufs) @ rest, st_tail = e\<rparr> (log @ l1)"
    "concat (map snd l1) = buf" by (elim exE conjE)
  have "unat (moved + of_nat (length buf)) + length (concat bufs) \<le> unat expected"
    using ua Cons.prems by simp
  from Cons.IH [OF this, of "log @ l1"] obtain l2 where 2:
    "recv_loop c i expected record_sink (\<lambda>_ \<sigma>. \<sigma>) (moved + of_nat (length buf))
      \<lparr>st_bytes = concat (map (frames c i) bufs) @ rest, st_tail = e\<rparr> (log @ l1) =
     recv_loop c i expected record_sink (\<lambda>_ \<sigma>. \<sigma>) (moved + of_nat (length buf) + of_nat (length (concat bufs)))
      \<lparr>st_bytes = rest, st_tail = e\<rparr> ((log @ l1) @ l2)"
    "concat (map snd l2) = concat bufs" by (elim exE conjE)
  show ?case using 1 2 by (intro exI [of _ "l1 @ l2"]) (simp add: add.assoc)
qed

lemma recv_loop_ready:
  assumes "codec_ok c"
  shows "recv_loop c i n d p moved \<lparr>st_bytes = encode c (Fetch (Ready i n)) @ rest, st_tail = e\<rparr> \<sigma> =
    recv_loop c i n d p moved \<lparr>st_bytes = rest, st_tail = e\<rparr> \<sigma>"
proof -
  have "encode c (Fetch (Ready i n)) \<noteq> []" by (simp add: encode_def)
  then show ?thesis
    by (subst recv_loop.simps)
       (simp add: recv_frame_def read_line_encode [OF assms] decode_encode [OF assms])
qed

lemma recv_loop_done:
  assumes "codec_ok c"
  shows "recv_loop c i n d p n \<lparr>st_bytes = encode c (Done i) @ rest, st_tail = e\<rparr> \<sigma> =
    (Got Complete, \<lparr>st_bytes = rest, st_tail = e\<rparr>, \<sigma>)"
proof -
  have "encode c (Done i) \<noteq> []" by (simp add: encode_def)
  then show ?thesis
    by (subst recv_loop.simps)
       (simp add: recv_frame_def read_line_encode [OF assms] decode_encode [OF assms])
qed

text \<open>C20: The round trip across the privilege boundary.  A provider that writes its object in any
  pieces through a \<open>Body\<close>, onto a socket that works, succeeds, and the helper reading what went onto
  the wire (with anything at all behind it) completes, hands its sink exactly the object's bytes in
  order, and leaves the stream at the first byte after the transfer: framing never drifts.\<close>

theorem streamed_round_trip:
  assumes "codec_ok c" "sk_plan k = []" "\<not> sk_shut k"
    and "length (concat bufs) = unat n" "n \<le> MAX_OBJECT"
  shows "\<exists>wire k'. send_object c i n bufs k = (Inr (), k') \<and> sk_sent k' = sk_sent k @ wire \<and>
    (\<exists>log. recv_streamed c i n record_sink (\<lambda>_ \<sigma>. \<sigma>) \<lparr>st_bytes = wire @ rest, st_tail = e\<rparr> []
             = (Got Complete, \<lparr>st_bytes = rest, st_tail = e\<rparr>, log) \<and>
           concat (map snd log) = concat bufs \<and> log_ok n log)"
proof -
  define wire where "wire = encode c (Fetch (Ready i n)) @ concat (map (frames c i) bufs) @ encode c (Done i)"
  define b where "b = \<lparr>b_sock = k\<lparr>sk_sent := sk_sent k @ encode c (Fetch (Ready i n))\<rparr>, b_id = i,
    b_promised = n, b_written = 0, b_finished = False, b_poisoned = False\<rparr>"
  have n: "of_nat (length (concat bufs)) = n" using assms(4) by simp
  have w: "body_write_each c bufs b =
    (Inr (), b\<lparr>b_sock := (b_sock b)\<lparr>sk_sent := sk_sent (b_sock b) @ concat (map (frames c (b_id b)) bufs)\<rparr>,
               b_written := b_written b + of_nat (length (concat bufs))\<rparr>)"
    by (rule body_write_each_ok) (use assms in \<open>simp_all add: b_def\<close>)
  have "send_object c i n bufs k = (Inr (), k\<lparr>sk_sent := sk_sent k @ wire\<rparr>)"
    using assms(2,3) w n
    by (simp add: send_object_def body_begin_def write_all_ok b_def [symmetric])
       (simp add: b_def body_finish_def send_line_def write_all_ok wire_def)
  moreover
  have "unat (0 :: u64) + length (concat bufs) \<le> unat n" using assms(4) by simp
  from recv_all_frames [OF assms(1,5) this, of i "encode c (Done i) @ rest" e "[]"]
  obtain log where l: "recv_loop c i n record_sink (\<lambda>_ \<sigma>. \<sigma>) 0
      \<lparr>st_bytes = concat (map (frames c i) bufs) @ encode c (Done i) @ rest, st_tail = e\<rparr> [] =
     recv_loop c i n record_sink (\<lambda>_ \<sigma>. \<sigma>) n \<lparr>st_bytes = encode c (Done i) @ rest, st_tail = e\<rparr> log"
    "concat (map snd log) = concat bufs"
    unfolding n by (elim exE conjE) simp
  have "recv_streamed c i n record_sink (\<lambda>_ \<sigma>. \<sigma>) \<lparr>st_bytes = wire @ rest, st_tail = e\<rparr> []
      = (Got Complete, \<lparr>st_bytes = rest, st_tail = e\<rparr>, log)"
    using assms(5) l(1)
    by (simp add: recv_streamed_def wire_def recv_loop_ready [OF assms(1)] recv_loop_done [OF assms(1)])
  moreover from rec.streamed_keeps [OF this] have "log_ok n log" by (simp add: log_ok_def)
  ultimately show ?thesis using l(2)
    by (intro exI [of _ wire] exI [of _ "k\<lparr>sk_sent := sk_sent k @ wire\<rparr>"]) auto
qed

definition sample_sock :: sock where
  "sample_sock = \<lparr>sk_sent = [], sk_plan = [], sk_shut = False\<rparr>"

lemma streamed_round_trip_witness:
  "\<exists>wire k'. send_object sample_codec 1 3 [[7], [8, 9]] sample_sock = (Inr (), k') \<and> sk_sent k' = wire \<and>
    (\<exists>log. recv_streamed sample_codec 1 3 record_sink (\<lambda>_ \<sigma>. \<sigma>) \<lparr>st_bytes = wire @ [5], st_tail = Silent\<rparr> []
             = (Got Complete, \<lparr>st_bytes = [5], st_tail = Silent\<rparr>, log) \<and> concat (map snd log) = [7, 8, 9])"
  using streamed_round_trip [OF sample_codec_ok, of sample_sock "[[7], [8, 9]]" 3 1 "[5]" Silent]
  by (auto simp: sample_sock_def)

lemma recv_streamed_contained_witness:
  "\<exists>r s' log. recv_streamed sample_codec 1 3 record_sink (\<lambda>_ \<sigma>. \<sigma>) \<lparr>st_bytes = [1, 10], st_tail = Closed\<rparr> []
       = (r, s', log) \<and> (\<exists>n. log_ok n log \<and> n \<le> 3)"
  using recv_streamed_contained
  by (cases "recv_streamed sample_codec 1 3 record_sink (\<lambda>_ \<sigma>. \<sigma>) \<lparr>st_bytes = [1, 10], st_tail = Closed\<rparr> []")
     blast

end
