(* ===== verification/Fetch_Effects.thy ===== *)
theory Fetch_Effects
  imports Placeholder
begin

text \<open>
  What the fetch thread of \<open>crates/hydrationd/src/daemon.rs\<close> does for one job, as the sequence of its
  effects: bytes it put into the file through its own descriptor, and what it told the worker.  The
  contract the worker relies on is the locale \<open>fetch_contract\<close>: writes stay inside the span that was
  asked for and progress is reported only for bytes that are in place.
\<close>

section \<open>Effects\<close>

datatype step = Progress u64 | StepDone | StepFailed io_error

text \<open>\<open>Died\<close>: the thread is gone and both channels with it.\<close>

datatype effect = Wrote u64 "u8 list" | Said step | Died

definition bytes_of :: "u64 \<Rightarrow> u8 list \<Rightarrow> u64 set" where
  "bytes_of off bs = {p. unat off \<le> unat p \<and> unat p < unat off + length bs}"

fun covered :: "effect list \<Rightarrow> u64 set" where
  "covered [] = {}"
| "covered (Wrote off bs # es) = bytes_of off bs \<union> covered es"
| "covered (Said st # es) = covered es"
| "covered (Died # es) = covered es"

text \<open>\<open>seen\<close> is what earlier effects covered.\<close>

fun honest :: "span \<Rightarrow> u64 set \<Rightarrow> effect list \<Rightarrow> bool" where
  "honest sp seen [] \<longleftrightarrow> True"
| "honest sp seen (Wrote off bs # es) \<longleftrightarrow>
     unat (sp_offset sp) \<le> unat off \<and> unat off + length bs \<le> unat (sp_offset sp) + unat (sp_len sp) \<and>
     honest sp (seen \<union> bytes_of off bs) es"
| "honest sp seen (Said (Progress n) # es) \<longleftrightarrow>
     span_bytes (span_new (sp_offset sp) n) \<subseteq> seen \<and> honest sp seen es"
| "honest sp seen (Said st # es) \<longleftrightarrow> honest sp seen es"
| "honest sp seen (Died # es) \<longleftrightarrow> honest sp seen es"

text \<open>Every byte written is the object's.\<close>

definition writes_agree :: "(u64 \<Rightarrow> u8) \<Rightarrow> effect list \<Rightarrow> bool" where
  "writes_agree obj es \<longleftrightarrow>
     (\<forall>off bs. Wrote off bs \<in> set es \<longrightarrow> (\<forall>i<length bs. bs ! i = obj (off + of_nat i)))"

section \<open>The thread's sink\<close>

record thread =
  th_plan :: "outcome list"
  th_errno :: int
  th_trace :: "effect list"

text \<open>\<open>write_at\<close> as the thread runs it: each \<open>pwrite\<close> that wrote something is an effect.\<close>

function thread_write_at :: "u8 list \<Rightarrow> u64 \<Rightarrow> thread \<Rightarrow> (io_error + unit) \<times> thread" where
  "thread_write_at bs off th =
     (if bs = [] then (Inr (), th)
      else case th_plan th of
             SysErr e # ps \<Rightarrow> (Inl (Os e), th\<lparr>th_plan := ps\<rparr>)
           | SysShort n # ps \<Rightarrow>
               let ws = take n bs
               in if ws = [] then (Inl (Os (th_errno th)), th\<lparr>th_plan := ps\<rparr>)
                  else thread_write_at (drop (length ws) bs) (off + of_nat (length ws))
                         (th\<lparr>th_plan := ps, th_trace := th_trace th @ [Wrote off ws]\<rparr>)
           | ps \<Rightarrow> (Inr (), th\<lparr>th_plan := tl ps, th_trace := th_trace th @ [Wrote off bs]\<rparr>))"
  by pat_completeness auto

termination
  by (relation "measure (\<lambda>(bs, _, _). length bs)") auto

declare thread_write_at.simps [simp del]

definition thread_tick :: "u64 \<Rightarrow> thread \<Rightarrow> thread" where
  "thread_tick n th = th\<lparr>th_trace := th_trace th @ [Said (Progress n)]\<rparr>"

definition run_effect :: "effect \<Rightarrow> kernel \<Rightarrow> kernel" where
  "run_effect ef k =
     (case ef of Wrote off bs \<Rightarrow> k\<lparr>k_file := file_write (k_time k) off bs (k_file k)\<rparr> | _ \<Rightarrow> k)"

section \<open>The contract\<close>

text \<open>
  \<open>script q f sz sp\<close> is what the thread does for job \<open>q\<close>: effects, each with the time that passes
  before it.
\<close>

locale fetch_contract =
  fixes script :: "u64 \<Rightarrow> file_id \<Rightarrow> u64 \<Rightarrow> span \<Rightarrow> (nat \<times> effect) list"
  assumes script_honest:
    "unat (sp_offset sp) + unat (sp_len sp) \<le> unat sz \<Longrightarrow> honest sp {} (map snd (script q f sz sp))"

section \<open>Facts\<close>

lemma covered_append [simp]: "covered (xs @ ys) = covered xs \<union> covered ys"
  by (induction xs rule: covered.induct) auto

lemma honest_append: "honest sp seen (xs @ ys) \<longleftrightarrow> honest sp seen xs \<and> honest sp (seen \<union> covered xs) ys"
  by (induction sp seen xs rule: honest.induct) (auto simp: Un_assoc)

lemma honest_mono: "honest sp seen es \<Longrightarrow> seen \<subseteq> seen' \<Longrightarrow> honest sp seen' es"
proof (induction sp seen es arbitrary: seen' rule: honest.induct)
  case (2 sp seen off bs es)
  have "seen \<union> bytes_of off bs \<subseteq> seen' \<union> bytes_of off bs" using 2(3) by auto
  with 2 show ?case by simp
qed auto

lemma bytes_of_append:
  assumes "unat off + length bs < 2 ^ 64" "n \<le> length bs"
  shows "bytes_of off (take n bs) \<union> bytes_of (off + of_nat n) (drop n bs) = bytes_of off bs"
  using assms by (auto simp: bytes_of_def unat_add_len)

lemma bytes_of_Nil [simp]: "bytes_of off [] = {}"
  by (auto simp: bytes_of_def)

lemma data_write_bytes_of:
  "data_write d off bs p = (if p \<in> bytes_of off bs then Some (bs ! (unat p - unat off)) else d p)"
proof (cases "off \<le> p")
  case True
  then have "unat (p - off) = unat p - unat off" by (simp add: unat_sub)
  with True show ?thesis by (auto simp: data_write_def bytes_of_def word_le_nat_alt)
next
  case False
  then show ?thesis by (auto simp: data_write_def bytes_of_def word_le_nat_alt)
qed

lemma span_bytes_of:
  "unat off + unat n < 2 ^ 64 \<Longrightarrow>
     span_bytes (span_new off n) = {p. unat off \<le> unat p \<and> unat p < unat off + unat n}"
  by (auto simp: span_bytes_def span_end_def span_new_def word_order)

text \<open>The thread's write covers its range when it succeeds, and never leaves it.\<close>

lemma thread_write_at_trace:
  assumes "thread_write_at bs off th = (r, th')" "unat off + length bs < 2 ^ 64"
  shows "\<exists>es. th_trace th' = th_trace th @ es \<and>
    (\<forall>ef \<in> set es. \<exists>o1 ws. ef = Wrote o1 ws \<and> unat off \<le> unat o1 \<and> unat o1 + length ws \<le> unat off + length bs \<and>
        (\<forall>i<length ws. ws ! i = bs ! (unat o1 - unat off + i))) \<and>
    (r = Inr () \<longrightarrow> covered es = bytes_of off bs)"
  using assms
proof (induction bs off th rule: thread_write_at.induct)
  case (1 bs off th)
  show ?case
  proof (cases "bs = []")
    case True
    with 1(2) show ?thesis by (auto simp: thread_write_at.simps)
  next
    case ne: False
    have whole: ?thesis if "r = Inr ()" "th_trace th' = th_trace th @ [Wrote off bs]"
      using that by auto
    show ?thesis
    proof (cases "th_plan th")
      case Nil
      with 1(2) ne show ?thesis by (intro whole) (auto simp: thread_write_at.simps [of bs off th])
    next
      case (Cons o1 ps)
      show ?thesis
      proof (cases o1)
        case SysOk
        with Cons 1(2) ne show ?thesis by (intro whole) (auto simp: thread_write_at.simps [of bs off th])
      next
        case (SysErr e)
        with Cons 1(2) ne show ?thesis by (intro exI [of _ "[]"]) (auto simp: thread_write_at.simps [of bs off th])
      next
        case (SysShort n)
        define ws where "ws = take n bs"
        show ?thesis
        proof (cases "ws = []")
          case True
          with Cons SysShort 1(2) ne show ?thesis
            by (intro exI [of _ "[]"]) (auto simp: thread_write_at.simps [of bs off th] ws_def)
        next
          case False
          define l where "l = length ws"
          have l: "l \<le> length bs" "take l bs = ws" by (simp_all add: l_def ws_def min_def)
          have e: "unat (off + of_nat l) = unat off + l" using l 1(3) by (intro unat_add_len) simp
          have rest: "thread_write_at (drop l bs) (off + of_nat l)
              (th\<lparr>th_plan := ps, th_trace := th_trace th @ [Wrote off ws]\<rparr>) = (r, th')"
            using Cons SysShort 1(2) ne False
            by (subst (asm) thread_write_at.simps) (simp add: ws_def [symmetric] l_def)
          have "unat (off + of_nat l) + length (drop l bs) < 2 ^ 64" using e l 1(3) by simp
          from 1(1) [OF ne Cons SysShort ws_def False rest [unfolded l_def] this [unfolded l_def]]
          obtain es where es: "th_trace th' = th_trace th @ Wrote off ws # es"
            "\<forall>ef \<in> set es. \<exists>o1 cs. ef = Wrote o1 cs \<and> unat off + l \<le> unat o1 \<and>
               unat o1 + length cs \<le> unat off + l + length (drop l bs) \<and>
               (\<forall>i<length cs. cs ! i = drop l bs ! (unat o1 - (unat off + l) + i))"
            "r = Inr () \<longrightarrow> covered es = bytes_of (off + of_nat l) (drop l bs)"
            by (auto simp: l_def [symmetric] e)
          have w2: "bytes_of off ws \<union> bytes_of (off + of_nat l) (drop l bs) = bytes_of off bs"
            using bytes_of_append [OF 1(3) l(1)] l(2) by simp
          show ?thesis
          proof (intro exI [of _ "Wrote off ws # es"] conjI ballI)
            show "th_trace th' = th_trace th @ Wrote off ws # es" by fact
            show "r = Inr () \<longrightarrow> covered (Wrote off ws # es) = bytes_of off bs" using es(3) w2 by auto
          next
            fix ef assume "ef \<in> set (Wrote off ws # es)"
            then consider "ef = Wrote off ws" | "ef \<in> set es" by auto
            then show "\<exists>o1 ws. ef = Wrote o1 ws \<and> unat off \<le> unat o1 \<and> unat o1 + length ws \<le> unat off + length bs \<and>
                (\<forall>i<length ws. ws ! i = bs ! (unat o1 - unat off + i))"
            proof cases
              case 1
              then show ?thesis using l by (auto simp: ws_def)
            next
              case 2
              then obtain o2 cs where c: "ef = Wrote o2 cs" "unat off + l \<le> unat o2"
                "unat o2 + length cs \<le> unat off + l + length (drop l bs)"
                "\<forall>i<length cs. cs ! i = drop l bs ! (unat o2 - (unat off + l) + i)" using es(2) by blast
              have "\<forall>i<length cs. cs ! i = bs ! (unat o2 - unat off + i)"
                using c(2-4) l(1) by (auto simp: nth_drop)
              with c l(1) show ?thesis by auto
            qed
          qed
        qed
      qed
    qed
  qed
qed

end
