(* ===== verification/Remote.thy ===== *)
theory Remote
  imports Transport Fetch_Effects
begin

text \<open>
  \<open>crates/hydrationd/src/remote.rs\<close>: content fetched over the socket.  Each knock on the socket path
  is an entry of the network's script; a successful one brings a fresh stream, a fresh socket and
  what \<open>SO_PEERCRED\<close> says of the peer.  \<open>fetch_into\<close> retries once after a lost connection.
\<close>

section \<open>Connecting\<close>

text \<open>Whether an error says the connection is gone (\<open>is_connection_lost\<close> of \<open>daemon.rs\<close>).\<close>

definition is_connection_lost :: "io_error \<Rightarrow> bool" where
  "is_connection_lost e \<longleftrightarrow>
     kind_of e \<in> {UnexpectedEof, ConnectionReset, ConnectionAborted, BrokenPipe, NotConnected}"

text \<open>What one \<open>connect\<close> meets; \<open>pr_replace\<close> is an error of installing the new stream.\<close>

record peer =
  pr_cred :: "io_error + int \<times> u32"
  pr_stream :: stream
  pr_sock :: sock
  pr_replace :: "io_error option"

type_synonym knock = "io_error + peer"

record net =
  net_knocks :: "knock list"
  net_slept :: nat

definition RECONNECT_TRIES :: nat where "RECONNECT_TRIES = 8"

definition RECONNECT_PAUSE :: nat where "RECONNECT_PAUSE = 250"

definition next_knock :: "net \<Rightarrow> knock \<times> net" where
  "next_knock w =
     (case net_knocks w of [] \<Rightarrow> (Inl (Os ECONNREFUSED), w) | k # ks \<Rightarrow> (k, w\<lparr>net_knocks := ks\<rparr>))"

definition connect_checked :: "u32 option \<Rightarrow> net \<Rightarrow> (io_error + peer) \<times> net" where
  "connect_checked expected_uid w =
     (case next_knock w of
        (Inl e, w') \<Rightarrow> (Inl e, w')
      | (Inr p, w') \<Rightarrow>
          (case expected_uid of
             None \<Rightarrow> (Inr p, w')
           | Some expected \<Rightarrow>
               (case pr_cred p of
                  Inl e \<Rightarrow> (Inl e, w')
                | Inr (_, actual) \<Rightarrow>
                    if actual \<noteq> expected then (Inl (Custom PermissionDenied), w') else (Inr p, w'))))"

record reconnect =
  rc_uid :: "u32 option"
  rc_peer_pid :: "int option"

record socket_fetch =
  sf_stream :: stream
  sf_sock :: sock
  sf_mount :: "io_error + u64"
  sf_next_id :: u64
  sf_reconnect :: "reconnect option"
  sf_dead :: bool
  sf_knocked :: bool

definition socket_fetch_new :: "stream \<Rightarrow> sock \<Rightarrow> io_error + u64 \<Rightarrow> socket_fetch" where
  "socket_fetch_new s k m =
     \<lparr>sf_stream = s, sf_sock = k, sf_mount = m, sf_next_id = 1, sf_reconnect = None, sf_dead = False,
      sf_knocked = False\<rparr>"

definition socket_fetch_reconnecting :: "stream \<Rightarrow> sock \<Rightarrow> io_error + u64 \<Rightarrow> u32 option \<Rightarrow> socket_fetch" where
  "socket_fetch_reconnecting s k m uid =
     (socket_fetch_new s k m)\<lparr>sf_reconnect := Some \<lparr>rc_uid = uid, rc_peer_pid = None\<rparr>\<rparr>"

definition with_peer_pid :: "int \<Rightarrow> socket_fetch \<Rightarrow> socket_fetch" where
  "with_peer_pid cell sf =
     (case sf_reconnect sf of
        None \<Rightarrow> sf
      | Some rc \<Rightarrow> sf\<lparr>sf_reconnect := Some (rc\<lparr>rc_peer_pid := Some cell\<rparr>)\<rparr>)"

text \<open>\<open>HelperConn::replace\<close>: the residue of the old connection goes with it.\<close>

definition conn_replace :: "peer \<Rightarrow> socket_fetch \<Rightarrow> (io_error + unit) \<times> socket_fetch" where
  "conn_replace p sf =
     (case pr_replace p of
        Some e \<Rightarrow> (Inl e, sf)
      | None \<Rightarrow> (Inr (), sf\<lparr>sf_stream := pr_stream p, sf_sock := pr_sock p\<rparr>))"

text \<open>A stream that was accepted is installed and the fetcher is alive again.\<close>

definition adopt :: "reconnect \<Rightarrow> peer \<Rightarrow> socket_fetch \<Rightarrow> (io_error + unit) \<times> socket_fetch" where
  "adopt rc p sf =
     (let pid = (case pr_cred p of Inr c \<Rightarrow> fst c | Inl _ \<Rightarrow> 0)
      in case conn_replace p sf of
           (Inl e, sf') \<Rightarrow> (Inl e, sf')
         | (Inr _, sf') \<Rightarrow>
             (Inr (), sf'\<lparr>sf_reconnect := Some (rc\<lparr>rc_peer_pid := map_option (\<lambda>_. pid) (rc_peer_pid rc)\<rparr>),
                          sf_dead := False, sf_knocked := False\<rparr>))"

text \<open>The loop of \<open>revive\<close>, attempt by attempt; an impostor ends it.\<close>

function revive_from :: "nat \<Rightarrow> nat \<Rightarrow> reconnect \<Rightarrow> net \<Rightarrow> socket_fetch \<Rightarrow> (io_error + unit) \<times> net \<times> socket_fetch" where
  "revive_from attempt tries rc w sf =
     (if tries \<le> attempt then (Inl (Custom NotConnected), w, sf\<lparr>sf_knocked := True\<rparr>)
      else
        let w0 = (if 0 < attempt then w\<lparr>net_slept := net_slept w + RECONNECT_PAUSE\<rparr> else w)
        in case connect_checked (rc_uid rc) w0 of
             (Inr p, w1) \<Rightarrow> (case adopt rc p sf of (r, sf') \<Rightarrow> (r, w1, sf'))
           | (Inl e, w1) \<Rightarrow>
               if kind_of e = PermissionDenied
               then (Inl (Custom NotConnected), w1, sf\<lparr>sf_knocked := True\<rparr>)
               else revive_from (Suc attempt) tries rc w1 sf)"
  by pat_completeness auto

termination
  by (relation "measure (\<lambda>(attempt, tries, _). tries - attempt)") auto

declare revive_from.simps [simp del]

definition revive :: "net \<Rightarrow> socket_fetch \<Rightarrow> (io_error + unit) \<times> net \<times> socket_fetch" where
  "revive w sf =
     (case sf_reconnect sf of
        None \<Rightarrow> (Inl (Custom NotConnected), w, sf)
      | Some rc \<Rightarrow> revive_from 0 (if sf_knocked sf then 1 else RECONNECT_TRIES) rc w sf)"

definition sf_reconnect_now :: "net \<Rightarrow> socket_fetch \<Rightarrow> (io_error + unit) \<times> net \<times> socket_fetch" where
  "sf_reconnect_now w sf = revive w (sf\<lparr>sf_dead := True\<rparr>)"

section \<open>Fetching\<close>

text \<open>How a transfer that ended without an error of the stream is reported.\<close>

fun streamed_result :: "streamed \<Rightarrow> io_error + unit" where
  "streamed_result Complete = Inr ()"
| "streamed_result (Aborted errno _) = Inl (Custom (kind_of_errno errno))"
| "streamed_result (Refused (Failed _ errno _)) = Inl (Custom (kind_of_errno errno))"
| "streamed_result (Refused (Denied _ _)) = Inl (Custom PermissionDenied)"
| "streamed_result (Refused (Ready _ _)) = Inl (Custom InvalidData)"

text \<open>One request and its answer.  The request is sent, then the body is read into place.\<close>

definition exchange ::
  "from_helper codec \<Rightarrow> to_helper codec \<Rightarrow> file_id \<Rightarrow> span \<Rightarrow> 's sink \<Rightarrow> (u64 \<Rightarrow> 's \<Rightarrow> 's) \<Rightarrow> socket_fetch \<Rightarrow> 's
     \<Rightarrow> streamed reading \<times> socket_fetch \<times> 's" where
  "exchange fc tc f sp dest progress sf \<sigma> =
     (let i = sf_next_id sf;
          sf1 = sf\<lparr>sf_next_id := i + 1\<rparr>;
          place = (\<lambda>buf at. dest buf (sp_offset sp + at))
      in case notify_send fc (FetchReq \<lparr>fr_id = i, fr_file = f, fr_offset = sp_offset sp, fr_len = sp_len sp,
                                         fr_cgroup = None\<rparr>) (sf_sock sf1) of
           (Inl e, k) \<Rightarrow> (Raised e, sf1\<lparr>sf_sock := k\<rparr>, \<sigma>)
         | (Inr _, k) \<Rightarrow>
             (case recv_streamed tc i (sp_len sp) place progress (sf_stream sf1) \<sigma> of
                (r, s, \<sigma>') \<Rightarrow> (r, sf1\<lparr>sf_sock := k, sf_stream := s\<rparr>, \<sigma>')))"

text \<open>The loop of \<open>fetch_into\<close>: at most one more attempt, and only after a lost connection.\<close>

function fetch_loop ::
  "bool \<Rightarrow> from_helper codec \<Rightarrow> to_helper codec \<Rightarrow> file_id \<Rightarrow> span \<Rightarrow> 's sink \<Rightarrow> (u64 \<Rightarrow> 's \<Rightarrow> 's)
     \<Rightarrow> net \<Rightarrow> socket_fetch \<Rightarrow> 's \<Rightarrow> unit reading \<times> net \<times> socket_fetch \<times> 's" where
  "fetch_loop retried fc tc f sp dest progress w sf \<sigma> =
     (case (if sf_dead sf then revive w sf else (Inr (), w, sf)) of
        (Inl e, w1, sf1) \<Rightarrow> (Raised e, w1, sf1, \<sigma>)
      | (Inr _, w1, sf1) \<Rightarrow>
          (case exchange fc tc f sp dest progress sf1 \<sigma> of
             (Raised e, sf2, \<sigma>') \<Rightarrow>
               (let sf3 = sf2\<lparr>sf_dead := True\<rparr>
                in if is_connection_lost e \<and> \<not> retried \<and> sf_reconnect sf3 \<noteq> None
                   then fetch_loop True fc tc f sp dest progress w1 sf3 \<sigma>'
                   else (Raised e, w1, sf3, \<sigma>'))
           | (Never, sf2, \<sigma>') \<Rightarrow> (Never, w1, sf2, \<sigma>')
           | (Got st, sf2, \<sigma>') \<Rightarrow>
               ((case streamed_result st of Inr _ \<Rightarrow> Got () | Inl e \<Rightarrow> Raised e), w1, sf2, \<sigma>')))"
  by pat_completeness auto

termination
  by (relation "measure (\<lambda>(retried, _). if retried then 0 else 1)") (auto split: if_splits)

declare fetch_loop.simps [simp del]

definition fetch_into ::
  "from_helper codec \<Rightarrow> to_helper codec \<Rightarrow> file_id \<Rightarrow> u64 \<Rightarrow> span \<Rightarrow> 's sink \<Rightarrow> (u64 \<Rightarrow> 's \<Rightarrow> 's)
     \<Rightarrow> net \<Rightarrow> socket_fetch \<Rightarrow> 's \<Rightarrow> unit reading \<times> net \<times> socket_fetch \<times> 's" where
  "fetch_into fc tc f sz sp dest progress w sf \<sigma> =
     (case sf_mount sf of
        Inl e \<Rightarrow> (Raised e, w, sf, \<sigma>)
      | Inr ours \<Rightarrow>
          if fsid f \<noteq> ours then (Raised (Custom PermissionDenied), w, sf, \<sigma>)
          else if sz < span_end sp then (Raised (Custom InvalidInput), w, sf, \<sigma>)
          else fetch_loop False fc tc f sp dest progress w sf \<sigma>)"

section \<open>A job of the fetch thread\<close>

definition socket_job ::
  "from_helper codec \<Rightarrow> to_helper codec \<Rightarrow> net \<Rightarrow> socket_fetch \<Rightarrow> outcome list \<Rightarrow> int
     \<Rightarrow> file_id \<Rightarrow> u64 \<Rightarrow> span \<Rightarrow> effect list" where
  "socket_job fc tc w sf plan errno f sz sp =
     (case fetch_into fc tc f sz sp thread_write_at thread_tick w sf
             \<lparr>th_plan = plan, th_errno = errno, th_trace = []\<rparr> of
        (Got _, _, _, th) \<Rightarrow> th_trace th @ [Said StepDone]
      | (Raised e, _, _, th) \<Rightarrow> th_trace th @ [Said (StepFailed e)]
      | (Never, _, _, th) \<Rightarrow> th_trace th)"

definition paced :: "(nat \<Rightarrow> nat) \<Rightarrow> effect list \<Rightarrow> (nat \<times> effect) list" where
  "paced d es = map (\<lambda>(i, ef). (d i, ef)) (enumerate 0 es)"

lemma map_snd_paced [simp]: "map snd (paced d es) = es"
  by (simp add: paced_def enumerate_eq_zip case_prod_unfold comp_def)

section \<open>What the thread writes\<close>

definition fits :: "span \<Rightarrow> bool" where
  "fits sp \<longleftrightarrow> unat (sp_offset sp) + unat (sp_len sp) < 2 ^ 64"

definition placed :: "span \<Rightarrow> u64 \<Rightarrow> thread \<Rightarrow> bool" where
  "placed sp n th \<longleftrightarrow> fits sp \<and> honest sp {} (th_trace th) \<and> n \<le> sp_len sp \<and>
     span_bytes (span_new (sp_offset sp) n) \<subseteq> covered (th_trace th)"

definition place :: "span \<Rightarrow> thread sink" where
  "place sp buf at = thread_write_at buf (sp_offset sp + at)"

lemma honest_writes:
  "\<forall>ef \<in> set es. \<exists>o1 ws. ef = Wrote o1 ws \<and> unat (sp_offset sp) \<le> unat o1 \<and>
       unat o1 + length ws \<le> unat (sp_offset sp) + unat (sp_len sp) \<Longrightarrow> honest sp seen es"
  by (induction es arbitrary: seen) force+

lemma place_step:
  assumes p: "placed sp n th" and l: "unat n + length bs \<le> unat (sp_len sp)"
    and w: "place sp bs n th = (r, th')"
  shows "honest sp {} (th_trace th')"
    and "r = Inr () \<Longrightarrow> placed sp (n + of_nat (length bs)) (thread_tick (n + of_nat (length bs)) th')"
proof -
  have f: "fits sp" and h: "honest sp {} (th_trace th)"
    and c: "span_bytes (span_new (sp_offset sp) n) \<subseteq> covered (th_trace th)"
    using p by (auto simp: placed_def)
  have lt: "unat (sp_offset sp) + unat n + length bs < 2 ^ 64" using f l by (simp add: fits_def)
  have on: "unat (sp_offset sp + n) = unat (sp_offset sp) + unat n"
    using lt by (subst unat_add_lem [THEN iffD1]) auto
  have un: "unat (n + of_nat (length bs)) = unat n + length bs"
    using lt by (intro unat_add_len) simp
  have lt2: "unat (sp_offset sp + n) + length bs < 2 ^ 64" using lt on by simp
  from thread_write_at_trace [OF w [unfolded place_def] lt2] obtain es where
    es: "th_trace th' = th_trace th @ es"
      "\<forall>ef \<in> set es. \<exists>o1 ws. ef = Wrote o1 ws \<and> unat (sp_offset sp + n) \<le> unat o1 \<and>
         unat o1 + length ws \<le> unat (sp_offset sp + n) + length bs \<and>
         (\<forall>i<length ws. ws ! i = bs ! (unat o1 - unat (sp_offset sp + n) + i))"
      "r = Inr () \<longrightarrow> covered es = bytes_of (sp_offset sp + n) bs"
    by (elim exE conjE)
  have he: "honest sp seen es" for seen
  proof (rule honest_writes, rule ballI)
    fix ef assume "ef \<in> set es"
    then obtain o1 ws where "ef = Wrote o1 ws" "unat (sp_offset sp + n) \<le> unat o1"
      "unat o1 + length ws \<le> unat (sp_offset sp + n) + length bs" using es(2) by blast
    then show "\<exists>o1 ws. ef = Wrote o1 ws \<and> unat (sp_offset sp) \<le> unat o1 \<and>
        unat o1 + length ws \<le> unat (sp_offset sp) + unat (sp_len sp)"
      using on l by (intro exI [of _ o1] exI [of _ ws]) simp
  qed
  show h': "honest sp {} (th_trace th')" using h he es(1) by (simp add: honest_append)
  assume r: "r = Inr ()"
  have b: "span_bytes (span_new (sp_offset sp) (n + of_nat (length bs))) \<subseteq> covered (th_trace th')"
  proof
    fix q assume "q \<in> span_bytes (span_new (sp_offset sp) (n + of_nat (length bs)))"
    then have q: "unat (sp_offset sp) \<le> unat q" "unat q < unat (sp_offset sp) + unat n + length bs"
      using lt un by (simp_all add: span_bytes_of)
    show "q \<in> covered (th_trace th')"
    proof (cases "unat q < unat (sp_offset sp) + unat n")
      case True
      then have "q \<in> span_bytes (span_new (sp_offset sp) n)" using q lt by (simp add: span_bytes_of)
      then show ?thesis using c es(1) by auto
    next
      case False
      then have "q \<in> covered es" using es(3) r q on by (simp add: bytes_of_def)
      then show ?thesis using es(1) by simp
    qed
  qed
  then show "placed sp (n + of_nat (length bs)) (thread_tick (n + of_nat (length bs)) th')"
    using f h' l un by (auto simp: placed_def thread_tick_def honest_append word_le_nat_alt)
qed

text \<open>The thread's sink keeps the contract of the receiver.\<close>

interpretation place: chunk_sink "sp_len sp" "place sp" thread_tick "placed sp"
  "\<lambda>th. fits sp \<and> honest sp {} (th_trace th)" for sp
proof unfold_locales
  fix n th bs u th'
  assume "placed sp n th" "unat n + length bs \<le> unat (sp_len sp)" "place sp bs n th = (Inr u, th')"
  then show "placed sp (n + of_nat (length bs)) (thread_tick (n + of_nat (length bs)) th')"
    using place_step(2) [of sp n th bs "Inr u" th'] by simp
next
  fix n th bs e th'
  assume a: "placed sp n th" "unat n + length bs \<le> unat (sp_len sp)" "place sp bs n th = (Inl e, th')"
  then have "fits sp" by (simp add: placed_def)
  then show "fits sp \<and> honest sp {} (th_trace th')"
    using place_step(1) [OF a] by simp
qed (simp add: placed_def)

lemma exchange_keeps:
  assumes "exchange fc tc f sp thread_write_at thread_tick sf th = (r, sf', th')"
    and "fits sp" "honest sp {} (th_trace th)"
  shows "honest sp {} (th_trace th') \<and> (r = Got Complete \<longrightarrow> placed sp (sp_len sp) th')"
proof -
  have p0: "placed sp 0 th" using assms(2,3) by (auto simp: placed_def span_bytes_of fits_def)
  obtain r1 k where n: "notify_send fc (FetchReq \<lparr>fr_id = sf_next_id sf, fr_file = f, fr_offset = sp_offset sp,
      fr_len = sp_len sp, fr_cgroup = None\<rparr>) (sf_sock sf) = (r1, k)" by fastforce
  show ?thesis
  proof (cases r1)
    case (Inl e)
    with n assms show ?thesis by (auto simp: exchange_def Let_def)
  next
    case (Inr u)
    obtain r2 s th2 where v: "recv_streamed tc (sf_next_id sf) (sp_len sp) (place sp) thread_tick (sf_stream sf) th
        = (r2, s, th2)" by (metis prod_cases3)
    have "(\<lambda>buf at. thread_write_at buf (sp_offset sp + at)) = place sp"
      by (intro ext) (simp add: place_def)
    then have "r = r2" "th' = th2" using assms(1) n Inr v by (auto simp: exchange_def Let_def)
    with place.streamed_keeps [OF v p0] show ?thesis by auto
  qed
qed

lemma fetch_loop_keeps:
  assumes "fetch_loop retried fc tc f sp thread_write_at thread_tick w sf th = (r, w', sf', th')"
    and "fits sp" "honest sp {} (th_trace th)"
  shows "honest sp {} (th_trace th') \<and> (r = Got () \<longrightarrow> placed sp (sp_len sp) th')"
  using assms
proof (induction "if retried then (0::nat) else 1" arbitrary: retried w sf th rule: less_induct)
  case less
  obtain r0 w1 sf1 where v: "(if sf_dead sf then revive w sf else (Inr (), w, sf)) = (r0, w1, sf1)"
    by (metis prod_cases3)
  show ?case
  proof (cases r0)
    case (Inl e)
    with less.prems v show ?thesis by (auto simp: fetch_loop.simps)
  next
    case (Inr u)
    obtain r2 sf2 th2 where x: "exchange fc tc f sp thread_write_at thread_tick sf1 th = (r2, sf2, th2)"
      by (metis prod_cases3)
    note k = exchange_keeps [OF x less.prems(2,3)]
    show ?thesis
    proof (cases r2)
      case (Got st)
      with less.prems(1) v Inr x k show ?thesis
        by (cases st rule: streamed_result.cases) (auto simp: fetch_loop.simps)
    next
      case (Raised e)
      show ?thesis
      proof (cases "is_connection_lost e \<and> \<not> retried \<and> sf_reconnect sf2 \<noteq> None")
        case True
        then have "fetch_loop True fc tc f sp thread_write_at thread_tick w1 (sf2\<lparr>sf_dead := True\<rparr>) th2 = (r, w', sf', th')"
          using less.prems(1) v Inr x Raised by (subst (asm) fetch_loop.simps) simp
        then show ?thesis using less.hyps [of True] less.prems(2) k True by auto
      next
        case False
        then show ?thesis using less.prems(1) v Inr x Raised k by (subst (asm) fetch_loop.simps) auto
      qed
    next
      case Never
      with less.prems(1) v Inr x k show ?thesis by (subst (asm) fetch_loop.simps) auto
    qed
  qed
qed

lemma socket_job_honest:
  assumes "unat (sp_offset sp) + unat (sp_len sp) \<le> unat sz"
  shows "honest sp {} (socket_job fc tc w sf plan errno f sz sp)"
proof -
  have f: "fits sp" using assms unsigned_less [of sz, where ?'a = nat] by (simp add: fits_def)
  obtain r w' sf' th where i: "fetch_into fc tc f sz sp thread_write_at thread_tick w sf
      \<lparr>th_plan = plan, th_errno = errno, th_trace = []\<rparr> = (r, w', sf', th)" by (metis prod_cases4)
  have "honest sp {} (th_trace th)"
    using i fetch_loop_keeps [OF _ f, of False fc tc f w sf] 
    by (auto simp: fetch_into_def split: sum.splits if_splits)
  then show ?thesis using i by (cases r) (simp_all add: socket_job_def honest_append)
qed

text \<open>The socket fetcher keeps the contract of the worker, whatever the network, the daemon and the
  file system do to it.\<close>

interpretation socket: fetch_contract
  "\<lambda>q f sz sp. paced (d q) (socket_job fc tc (w q) (sf q) (plan q) (errno q) f sz sp)" for d fc tc w sf plan errno
  by unfold_locales (simp add: socket_job_honest)

text \<open>C26: What a fetch over the socket can do to the file, for every network, every daemon and every
  failing write: each write lies inside the span the worker asked for, progress is reported only for
  bytes that have been written, and a fetch that reports success has written exactly the span.\<close>

theorem fetch_into_contained:
  assumes "fetch_into fc tc f sz sp thread_write_at thread_tick w sf \<lparr>th_plan = plan, th_errno = errno, th_trace = []\<rparr>
             = (r, w', sf', th)"
    and "unat (sp_offset sp) + unat (sp_len sp) \<le> unat sz"
  shows "honest sp {} (th_trace th) \<and> (r = Got () \<longrightarrow> span_bytes sp \<subseteq> covered (th_trace th))"
proof -
  have f: "fits sp" using assms(2) unsigned_less [of sz, where ?'a = nat] by (simp add: fits_def)
  have s: "span_new (sp_offset sp) (sp_len sp) = sp" by (simp add: span_new_def)
  have "honest sp {} (th_trace th) \<and> (r = Got () \<longrightarrow> placed sp (sp_len sp) th)"
    using assms(1) fetch_loop_keeps [OF _ f, of False fc tc f w sf]
    by (auto simp: fetch_into_def split: sum.splits if_splits)
  then show ?thesis by (simp add: placed_def s)
qed

section \<open>Reconnecting\<close>

text \<open>The kernel says the peer runs as the user this helper was told to expect.\<close>

definition vouched :: "reconnect \<Rightarrow> peer \<Rightarrow> bool" where
  "vouched rc p \<longleftrightarrow> (\<forall>u. rc_uid rc = Some u \<longrightarrow> (\<exists>pid. pr_cred p = Inr (pid, u)))"

definition same_connection :: "socket_fetch \<Rightarrow> socket_fetch \<Rightarrow> bool" where
  "same_connection sf sf' \<longleftrightarrow> sf_stream sf' = sf_stream sf \<and> sf_sock sf' = sf_sock sf \<and> sf_dead sf' = sf_dead sf"

lemma connect_checked_Inr:
  assumes "connect_checked uid w = (Inr p, w')"
  shows "Inr p \<in> set (net_knocks w) \<and> set (net_knocks w') \<subseteq> set (net_knocks w) \<and> net_slept w' = net_slept w \<and>
    (\<forall>u. uid = Some u \<longrightarrow> (\<exists>pid. pr_cred p = Inr (pid, u)))"
  using assms
  by (auto simp: connect_checked_def next_knock_def split: list.splits sum.splits option.splits if_splits)

lemma connect_checked_Inl:
  assumes "connect_checked uid w = (Inl e, w')"
  shows "set (net_knocks w') \<subseteq> set (net_knocks w) \<and> net_slept w' = net_slept w"
  using assms
  by (auto simp: connect_checked_def next_knock_def split: list.splits sum.splits option.splits if_splits)

lemma adopt_cases:
  "adopt rc p sf = (r, sf') \<Longrightarrow>
     (\<exists>e. pr_replace p = Some e \<and> r = Inl e \<and> sf' = sf) \<or>
     (pr_replace p = None \<and> r = Inr () \<and> sf_sock sf' = pr_sock p \<and> sf_stream sf' = pr_stream p \<and>
      \<not> sf_dead sf' \<and> \<not> sf_knocked sf' \<and> sf_next_id sf' = sf_next_id sf)"
  by (auto simp: adopt_def conn_replace_def Let_def split: option.splits)

lemma revive_from_cases:
  assumes "revive_from a n rc w sf = (r, w', sf')"
  shows "net_slept w' \<le> net_slept w + RECONNECT_PAUSE * (n - max a 1) \<and>
    set (net_knocks w') \<subseteq> set (net_knocks w) \<and> sf_next_id sf' = sf_next_id sf \<and>
    (case r of
       Inl e \<Rightarrow> same_connection sf sf' \<and>
         (e = Custom NotConnected \<or> (\<exists>p. Inr p \<in> set (net_knocks w) \<and> vouched rc p \<and> pr_replace p = Some e))
     | Inr _ \<Rightarrow> \<exists>p. Inr p \<in> set (net_knocks w) \<and> sf_sock sf' = pr_sock p \<and> sf_stream sf' = pr_stream p \<and>
         vouched rc p \<and> \<not> sf_dead sf' \<and> \<not> sf_knocked sf')"
  using assms
proof (induction a n rc w sf arbitrary: r w' sf' rule: revive_from.induct)
  case (1 a n rc w sf)
  show ?case
  proof (cases "n \<le> a")
    case True
    with 1(2) show ?thesis by (auto simp: revive_from.simps same_connection_def)
  next
    case False
    define w0 where "w0 = (if 0 < a then w\<lparr>net_slept := net_slept w + RECONNECT_PAUSE\<rparr> else w)"
    have w0: "net_knocks w0 = net_knocks w" "net_slept w0 \<le> net_slept w + (if 0 < a then RECONNECT_PAUSE else 0)"
      by (simp_all add: w0_def)
    have le: "(if 0 < a then RECONNECT_PAUSE else 0) + RECONNECT_PAUSE * (n - max (Suc a) 1)
        \<le> RECONNECT_PAUSE * (n - max a 1)"
    proof -
      obtain m where "n = Suc (a + m)" using False less_iff_Suc_add by (auto simp: not_le)
      then show ?thesis by (cases a) auto
    qed
    obtain r1 w1 where c: "connect_checked (rc_uid rc) w0 = (r1, w1)" by fastforce
    show ?thesis
    proof (cases r1)
      case (Inr p)
      obtain r2 sf2 where ad: "adopt rc p sf = (r2, sf2)" by fastforce
      have eq: "r = r2" "w' = w1" "sf' = sf2"
        using 1(2) False c Inr ad by (auto simp: revive_from.simps [of a] w0_def [symmetric] Let_def)
      from adopt_cases [OF ad] connect_checked_Inr [OF c [unfolded Inr]] w0 le show ?thesis
        unfolding eq by (auto simp: word_order vouched_def same_connection_def split: sum.splits)
    next
      case (Inl e)
      note ci = connect_checked_Inl [OF c [unfolded Inl]]
      show ?thesis
      proof (cases "kind_of e = PermissionDenied")
        case True
        with 1(2) False c Inl ci w0 le show ?thesis
          by (auto simp: revive_from.simps [of a] w0_def [symmetric] Let_def same_connection_def)
      next
        case pd: False
        have rest: "revive_from (Suc a) n rc w1 sf = (r, w', sf')"
          using 1(2) False c Inl pd by (auto simp: revive_from.simps [of a] w0_def [symmetric] Let_def)
        note ih = 1(1) [OF False w0_def c [symmetric, unfolded Inl] refl pd rest]
        have s: "net_slept w' \<le> net_slept w + RECONNECT_PAUSE * (n - max a 1)"
          using ih ci w0(2) le by linarith
        have k: "set (net_knocks w1) \<subseteq> set (net_knocks w)" using ci w0(1) by simp
        show ?thesis
        proof (cases r)
          case (Inl e2)
          with ih s k show ?thesis by auto
        next
          case (Inr u2)
          with ih k obtain p where "Inr p \<in> set (net_knocks w)" "sf_sock sf' = pr_sock p" "sf_stream sf' = pr_stream p"
            "vouched rc p" "\<not> sf_dead sf'" "\<not> sf_knocked sf'"
            by auto
          with ih s k Inr show ?thesis by auto
        qed
      qed
    qed
  qed
qed

lemma revive_cases:
  assumes "revive w sf = (r, w', sf')"
  shows "net_slept w' \<le> net_slept w + (if sf_knocked sf then 0 else 1750) \<and>
    sf_next_id sf' = sf_next_id sf \<and>
    (case r of
       Inl e \<Rightarrow> same_connection sf sf' \<and>
         (e = Custom NotConnected \<or>
          (\<exists>p rc. sf_reconnect sf = Some rc \<and> Inr p \<in> set (net_knocks w) \<and> vouched rc p \<and> pr_replace p = Some e))
     | Inr _ \<Rightarrow> \<exists>p rc. sf_reconnect sf = Some rc \<and> Inr p \<in> set (net_knocks w) \<and> sf_sock sf' = pr_sock p \<and>
         sf_stream sf' = pr_stream p \<and> vouched rc p \<and> \<not> sf_dead sf' \<and> \<not> sf_knocked sf')"
proof (cases "sf_reconnect sf")
  case None
  with assms show ?thesis by (auto simp: revive_def same_connection_def)
next
  case (Some rc)
  with assms have "revive_from 0 (if sf_knocked sf then 1 else RECONNECT_TRIES) rc w sf = (r, w', sf')"
    by (simp add: revive_def)
  from revive_from_cases [OF this] Some show ?thesis
    by (cases r) (auto simp: RECONNECT_TRIES_def RECONNECT_PAUSE_def split: if_splits)
qed

text \<open>C27: Reviving a dead connection.  A success means the stream and the socket now in use are those
  of one peer that answered, that the kernel vouched for the uid this helper was told to expect, and
  that the fetcher is marked alive.  A failure leaves the connection as it was, and is \<open>NotConnected\<close>, which
  counts as a lost connection, unless a peer that was vouched for answered and its stream could not be
  installed: that error comes out as it is.  The pauses add up to at most seven of a quarter of a second,
  none at all once a whole window has failed.\<close>

theorem revive_authenticated_and_bounded:
  assumes "revive w sf = (r, w', sf')"
  shows "(case r of
       Inl e \<Rightarrow> sf_stream sf' = sf_stream sf \<and> sf_sock sf' = sf_sock sf \<and> sf_dead sf' = sf_dead sf \<and>
         (e = Custom NotConnected \<and> is_connection_lost e \<or>
          (\<exists>p rc. sf_reconnect sf = Some rc \<and> Inr p \<in> set (net_knocks w) \<and> pr_replace p = Some e \<and>
             (\<forall>u. rc_uid rc = Some u \<longrightarrow> (\<exists>pid. pr_cred p = Inr (pid, u)))))
     | Inr _ \<Rightarrow> \<exists>p rc. sf_reconnect sf = Some rc \<and> Inr p \<in> set (net_knocks w) \<and> sf_sock sf' = pr_sock p \<and>
         sf_stream sf' = pr_stream p \<and>
         (\<forall>u. rc_uid rc = Some u \<longrightarrow> (\<exists>pid. pr_cred p = Inr (pid, u))) \<and> \<not> sf_dead sf')
    \<and> net_slept w' \<le> net_slept w + (if sf_knocked sf then 0 else 1750)"
  using revive_cases [OF assms]
  by (cases r) (auto simp: vouched_def same_connection_def is_connection_lost_def)

lemma exchange_next_id:
  "exchange fc tc f sp dest progress sf \<sigma> = (r, sf', \<sigma>') \<Longrightarrow> sf_next_id sf' = sf_next_id sf + 1"
  by (auto simp: exchange_def Let_def split: sum.splits prod.splits)

lemma fetch_loop_bounds:
  assumes "fetch_loop retried fc tc f sp dest progress w sf \<sigma> = (r, w', sf', \<sigma>')"
  shows "net_slept w' \<le> net_slept w + (if retried then 1750 else 3500) \<and>
    (\<exists>n \<le> (if retried then 1 else 2). sf_next_id sf' = sf_next_id sf + of_nat n)"
  using assms
proof (induction "if retried then (0::nat) else 1" arbitrary: retried w sf \<sigma> rule: less_induct)
  case less
  obtain r0 w1 sf1 where v: "(if sf_dead sf then revive w sf else (Inr (), w, sf)) = (r0, w1, sf1)"
    by (metis prod_cases3)
  have v1: "net_slept w1 \<le> net_slept w + 1750 \<and> sf_next_id sf1 = sf_next_id sf"
    using v revive_cases [of w sf r0 w1 sf1] by (auto split: if_splits)
  show ?case
  proof (cases r0)
    case (Inl e)
    with less.prems v v1 show ?thesis by (auto simp: fetch_loop.simps intro!: exI [of _ 0])
  next
    case (Inr u)
    obtain r2 sf2 \<sigma>2 where x: "exchange fc tc f sp dest progress sf1 \<sigma> = (r2, sf2, \<sigma>2)"
      by (metis prod_cases3)
    have x1: "sf_next_id sf2 = sf_next_id sf + of_nat 1" using exchange_next_id [OF x] v1 by simp
    show ?thesis
    proof (cases "\<exists>e. r2 = Raised e \<and> is_connection_lost e \<and> \<not> retried \<and> sf_reconnect sf2 \<noteq> None")
      case True
      then have "fetch_loop True fc tc f sp dest progress w1 (sf2\<lparr>sf_dead := True\<rparr>) \<sigma>2 = (r, w', sf', \<sigma>')"
        using less.prems(1) v Inr x by (subst (asm) fetch_loop.simps) auto
      moreover have "(if True then (0 :: nat) else 1) < (if retried then 0 else 1)" using True by auto
      ultimately obtain n where
        "net_slept w' \<le> net_slept w1 + 1750" "n \<le> 1" "sf_next_id sf' = sf_next_id sf2 + of_nat n"
        using less.hyps [of True w1 "sf2\<lparr>sf_dead := True\<rparr>" \<sigma>2] by auto
      with v1 x1 True show ?thesis by (auto intro!: exI [of _ "Suc n"])
    next
      case False
      then have "w' = w1 \<and> sf_next_id sf' = sf_next_id sf2"
        using less.prems(1) v Inr x by (subst (asm) fetch_loop.simps) (cases r2; auto simp: Let_def)
      with v1 x1 show ?thesis by (auto intro!: exI [of _ "1 :: nat"])
    qed
  qed
qed

definition FIRST_BYTE_BUDGET :: nat where "FIRST_BYTE_BUDGET = 30000"

text \<open>C28: One fetch sends at most two requests and sleeps at most three and a half seconds, which is
  inside the thirty seconds the worker waits for a first byte.\<close>

theorem fetch_into_bounded:
  assumes "fetch_into fc tc f sz sp dest progress w sf \<sigma> = (r, w', sf', \<sigma>')"
  shows "net_slept w' - net_slept w \<le> 3500 \<and> net_slept w' - net_slept w < FIRST_BYTE_BUDGET \<and>
    (\<exists>n \<le> 2. sf_next_id sf' = sf_next_id sf + of_nat n)"
proof -
  have "net_slept w' \<le> net_slept w + 3500 \<and> (\<exists>n \<le> 2. sf_next_id sf' = sf_next_id sf + of_nat n)"
    using assms fetch_loop_bounds [of False fc tc f sp dest progress w sf \<sigma> r w' sf' \<sigma>']
    by (auto simp: fetch_into_def split: sum.splits if_splits intro!: exI [of _ "0 :: nat"])
  then show ?thesis by (auto simp: FIRST_BYTE_BUDGET_def)
qed

text \<open>An error of installing the stream of a peer that answered is not one of the kinds that count
  as a lost connection: reviving returns it as it is, with the connection still dead, although the
  documentation of \<open>revive\<close> says that every error out of it is \<open>NotConnected\<close>.\<close>

theorem revive_replace_error_escapes:
  assumes "sf_reconnect sf = Some rc" "net_knocks w = Inr p # ks" "rc_uid rc = None" "pr_replace p = Some e"
    and "\<not> is_connection_lost e"
  shows "\<exists>w' sf'. revive w sf = (Inl e, w', sf') \<and> sf_dead sf' = sf_dead sf \<and> sf_knocked sf' = sf_knocked sf \<and>
    \<not> is_connection_lost e"
  using assms
  by (simp add: revive_def revive_from.simps connect_checked_def next_knock_def adopt_def conn_replace_def
      RECONNECT_TRIES_def Let_def)

section \<open>Instances\<close>

definition request_codec :: "from_helper codec" where
  "request_codec = ((\<lambda>_. [49]), (\<lambda>_. None))"

definition sample_peer :: "u8 list \<Rightarrow> io_error option \<Rightarrow> peer" where
  "sample_peer bs e =
     \<lparr>pr_cred = Inr (40, 1000), pr_stream = \<lparr>st_bytes = bs, st_tail = Closed\<rparr>, pr_sock = sample_sock, pr_replace = e\<rparr>"

definition sample_fetch :: socket_fetch where
  "sample_fetch = (socket_fetch_reconnecting \<lparr>st_bytes = [], st_tail = Closed\<rparr> sample_sock (Inr 1) (Some 1000))
     \<lparr>sf_dead := True\<rparr>"

definition sample_net :: net where
  "sample_net = \<lparr>net_knocks = [Inl (Os ENOENT), Inr (sample_peer [1, 10] None)], net_slept = 0\<rparr>"

lemma revive_authenticated_and_bounded_witness:
  "\<exists>w' sf'. revive sample_net sample_fetch = (Inr (), w', sf') \<and> \<not> sf_dead sf' \<and> net_slept w' \<le> 1750"
proof -
  obtain w' sf' where r: "revive sample_net sample_fetch = (Inr (), w', sf')"
    by (simp add: revive_def sample_fetch_def socket_fetch_reconnecting_def socket_fetch_new_def revive_from.simps
        connect_checked_def next_knock_def sample_net_def sample_peer_def adopt_def conn_replace_def kind_of_errno_def
        RECONNECT_TRIES_def Let_def)
  from revive_authenticated_and_bounded [OF r] r show ?thesis
    by (auto simp: sample_net_def sample_fetch_def socket_fetch_reconnecting_def socket_fetch_new_def)
qed

lemma revive_replace_error_escapes_witness:
  "\<exists>w' sf'. revive (sample_net\<lparr>net_knocks := [Inr (sample_peer [] (Some (Os 24)))]\<rparr>)
       (sample_fetch\<lparr>sf_reconnect := Some \<lparr>rc_uid = None, rc_peer_pid = None\<rparr>\<rparr>) = (Inl (Os 24), w', sf')
     \<and> sf_dead sf' = True \<and> sf_knocked sf' = False"
  using revive_replace_error_escapes [of "sample_fetch\<lparr>sf_reconnect := Some \<lparr>rc_uid = None, rc_peer_pid = None\<rparr>\<rparr>"
      "\<lparr>rc_uid = None, rc_peer_pid = None\<rparr>" "sample_net\<lparr>net_knocks := [Inr (sample_peer [] (Some (Os 24)))]\<rparr>"
      "sample_peer [] (Some (Os 24))" "[]" "Os 24"]
  by (simp add: sample_peer_def sample_net_def is_connection_lost_def kind_of_errno_def sample_fetch_def
      socket_fetch_reconnecting_def socket_fetch_new_def)

lemma fetch_into_contained_witness:
  "\<exists>r w' sf' th. fetch_into request_codec sample_codec (FileId 1 2) 100 (span_new 10 3) thread_write_at thread_tick
      sample_net sample_fetch \<lparr>th_plan = [], th_errno = 0, th_trace = []\<rparr> = (r, w', sf', th)
    \<and> honest (span_new 10 3) {} (th_trace th)"
proof -
  obtain r w' sf' th where i: "fetch_into request_codec sample_codec (FileId 1 2) 100 (span_new 10 3) thread_write_at
      thread_tick sample_net sample_fetch \<lparr>th_plan = [], th_errno = 0, th_trace = []\<rparr> = (r, w', sf', th)"
    by (metis prod_cases4)
  from fetch_into_contained [OF i] i show ?thesis by (simp add: span_new_def)
qed

lemma fetch_into_bounded_witness:
  "\<exists>r w' sf' th. fetch_into request_codec sample_codec (FileId 1 2) 100 (span_new 10 3) thread_write_at thread_tick
      sample_net sample_fetch \<lparr>th_plan = [], th_errno = 0, th_trace = []\<rparr> = (r, w', sf', th)
    \<and> net_slept w' \<le> 3500"
proof -
  obtain r w' sf' th where i: "fetch_into request_codec sample_codec (FileId 1 2) 100 (span_new 10 3) thread_write_at
      thread_tick sample_net sample_fetch \<lparr>th_plan = [], th_errno = 0, th_trace = []\<rparr> = (r, w', sf', th)"
    by (metis prod_cases4)
  from fetch_into_bounded [OF i] i show ?thesis by (simp add: sample_net_def)
qed

end
