(* ===== verification/Timed.thy ===== *)
theory Timed
  imports Remote
begin

text \<open>
  The bounded transfer of \<open>crates/hydrationd/src/daemon.rs\<close> (\<open>Timed\<close>): the worker waits on a channel
  while the fetch thread runs, and three limits decide when it stops waiting.  Time is counted in
  milliseconds and passes only while the worker waits.  The channel is the list of the effects the
  thread will still have, each with its time, the job it belongs to and the file of that job: a
  transfer that was given up on keeps running, and its effects are met by whoever waits next.
\<close>

section \<open>State\<close>

datatype transfer_error =
  Short u64 u64 | NoFirstByte | Stalled u64 u64 | TooLong u64 u64 | Unresponsive | Gone | Provider io_error

record limits =
  first_byte :: nat
  stall :: nat
  total_time :: nat

definition HEARTBEAT :: nat where "HEARTBEAT = 500"

definition PROGRESS_EVERY :: nat where "PROGRESS_EVERY = 5000"

definition WEDGED_AFTER :: u32 where "WEDGED_AFTER = 3"

definition WEDGED_LIMIT :: nat where "WEDGED_LIMIT = 300000"

definition default_limits :: limits where
  "default_limits = \<lparr>first_byte = FIRST_BYTE_BUDGET, stall = 60000, total_time = 600000\<rparr>"

definition limits_with_deadline :: "nat \<Rightarrow> limits" where
  "limits_with_deadline d = \<lparr>first_byte = d, stall = d, total_time = d * 20\<rparr>"

type_synonym item = "nat \<times> u64 \<times> file_id \<times> effect"

record timed =
  tm_seq :: u64
  tm_missed :: u32
  tm_abandoned :: u32
  tm_lost :: u32
  tm_since :: "nat option"
  tm_pending :: "item list"
  tm_gone :: bool
  tm_now :: nat
  tm_beats :: "nat list"
  tm_reports :: "(u64 \<times> u64) list"

definition timed_new :: timed where
  "timed_new = \<lparr>tm_seq = 0, tm_missed = 0, tm_abandoned = 0, tm_lost = 0, tm_since = None, tm_pending = [],
     tm_gone = False, tm_now = 0, tm_beats = [], tm_reports = []\<rparr>"

definition wedged :: "timed \<Rightarrow> bool" where
  "wedged t \<longleftrightarrow> WEDGED_AFTER \<le> tm_missed t \<or> WEDGED_AFTER \<le> tm_abandoned t \<or> WEDGED_AFTER \<le> tm_lost t"

definition expensive_to_probe :: "timed \<Rightarrow> bool" where
  "expensive_to_probe t \<longleftrightarrow> WEDGED_AFTER \<le> tm_missed t \<or> WEDGED_AFTER \<le> tm_abandoned t"

definition wedged_for :: "timed \<Rightarrow> nat" where
  "wedged_for t = (case tm_since t of Some s \<Rightarrow> if wedged t then tm_now t - s else 0 | None \<Rightarrow> 0)"

definition should_give_up :: "timed \<Rightarrow> bool" where
  "should_give_up t \<longleftrightarrow> WEDGED_LIMIT \<le> wedged_for t"

definition start_clock :: "timed \<Rightarrow> timed" where
  "start_clock t = t\<lparr>tm_since := Some (case tm_since t of Some s \<Rightarrow> s | None \<Rightarrow> tm_now t)\<rparr>"

definition missed_one :: "timed \<Rightarrow> timed" where
  "missed_one t = start_clock (t\<lparr>tm_missed := tm_missed t + 1\<rparr>)"

definition lost_one :: "timed \<Rightarrow> timed" where
  "lost_one t = start_clock (t\<lparr>tm_lost := tm_lost t + 1\<rparr>)"

definition abandoned_one :: "timed \<Rightarrow> timed" where
  "abandoned_one t = start_clock (t\<lparr>tm_abandoned := tm_abandoned t + 1\<rparr>)"

definition answered :: "timed \<Rightarrow> timed" where
  "answered t = t\<lparr>tm_missed := 0, tm_abandoned := 0, tm_lost := 0, tm_since := None\<rparr>"

section \<open>The channel\<close>

datatype received = Msg u64 step | TimedOut | Disconnected

definition run_item :: "file_id \<Rightarrow> effect \<Rightarrow> kernel \<Rightarrow> kernel" where
  "run_item f ef k = (if f = f_id (k_file k) then run_effect ef k else k)"

text \<open>What the channel gives before \<open>limit\<close>; the thread's writes happen as their time comes.\<close>

fun receive :: "nat \<Rightarrow> item list \<Rightarrow> kernel \<Rightarrow> received \<times> nat \<times> item list \<times> kernel" where
  "receive limit [] k = (TimedOut, limit, [], k)"
| "receive limit ((at, q, f, ef) # rest) k =
     (if limit < at then (TimedOut, limit, (at, q, f, ef) # rest, k)
      else case ef of
             Said st \<Rightarrow> (Msg q st, at, rest, k)
           | Died \<Rightarrow> (Disconnected, at, [], k)
           | Wrote off bs \<Rightarrow> receive limit rest (run_item f ef k))"

definition recv_timeout :: "nat \<Rightarrow> timed \<Rightarrow> kernel \<Rightarrow> received \<times> timed \<times> kernel" where
  "recv_timeout d t k =
     (if tm_gone t then (Disconnected, t, k)
      else case receive (tm_now t + d) (tm_pending t) k of
             (r, at, rest, k') \<Rightarrow>
               (r, t\<lparr>tm_now := max (tm_now t) at, tm_pending := rest, tm_gone := (r = Disconnected)\<rparr>, k'))"

text \<open>A job is queued behind what the thread is still doing.\<close>

fun arrivals :: "nat \<Rightarrow> u64 \<Rightarrow> file_id \<Rightarrow> (nat \<times> effect) list \<Rightarrow> item list" where
  "arrivals at q f [] = []"
| "arrivals at q f ((d, ef) # es) = (at + d, q, f, ef) # arrivals (at + d) q f es"

definition queue_end :: "timed \<Rightarrow> nat" where
  "queue_end t = (if tm_pending t = [] then tm_now t else max (tm_now t) (fst (last (tm_pending t))))"

type_synonym script = "u64 \<Rightarrow> file_id \<Rightarrow> u64 \<Rightarrow> span \<Rightarrow> (nat \<times> effect) list"

definition send_job :: "script \<Rightarrow> file_id \<Rightarrow> u64 \<Rightarrow> span \<Rightarrow> timed \<Rightarrow> bool \<times> timed" where
  "send_job script f sz sp t =
     (let q = tm_seq t + 1; t1 = t\<lparr>tm_seq := q\<rparr>
      in if tm_gone t then (False, t1)
         else (True, t1\<lparr>tm_pending := tm_pending t1 @ arrivals (queue_end t1) q f (script q f sz sp)\<rparr>))"

section \<open>One transfer\<close>

record waiting =
  wt_deadline :: nat
  wt_moved :: u64
  wt_said :: nat

datatype turn = Again waiting | Over "transfer_error + u64"

text \<open>A transfer that moves says so, but not more often than every five seconds.\<close>

definition announce :: "span \<Rightarrow> waiting \<Rightarrow> timed \<Rightarrow> waiting \<times> timed" where
  "announce sp w t =
     (if 0 < wt_moved w \<and> PROGRESS_EVERY \<le> tm_now t - wt_said w
      then (w\<lparr>wt_said := tm_now t\<rparr>, t\<lparr>tm_reports := tm_reports t @ [(wt_moved w, sp_len sp)]\<rparr>)
      else (w, t))"

text \<open>The wait of one turn, and what the message it ends with means.\<close>

definition run_wait :: "u64 \<Rightarrow> span \<Rightarrow> limits \<Rightarrow> waiting \<Rightarrow> timed \<Rightarrow> kernel \<Rightarrow> turn \<times> timed \<times> kernel" where
  "run_wait want sp lim w t k =
     (let moved = wt_moved w;
          left = wt_deadline w - tm_now t
      in if left = 0
         then (if moved = 0 then (Over (Inl NoFirstByte), missed_one t, k)
               else (Over (Inl (Stalled moved (sp_len sp))), abandoned_one t, k))
         else
           (case recv_timeout (min left HEARTBEAT) t k of
              (Msg q st, t2, k2) \<Rightarrow>
                if q \<noteq> want then (Again w, t2, k2)
                else (case st of
                   Progress n \<Rightarrow>
                     if moved < n
                     then (Again (w\<lparr>wt_moved := n, wt_deadline := tm_now t2 + stall lim\<rparr>),
                           (if moved = 0 then answered t2 else t2), k2)
                     else (Again w, t2, k2)
                 | StepDone \<Rightarrow>
                     (Over (if moved \<noteq> sp_len sp then Inl (Short moved (sp_len sp)) else Inr moved),
                      answered t2, k2)
                 | StepFailed e \<Rightarrow>
                     (Over (Inl (Provider e)),
                      (if is_connection_lost e then lost_one t2 else if 0 < moved then answered t2 else t2), k2))
            | (TimedOut, t2, k2) \<Rightarrow> (Again w, t2, k2)
            | (Disconnected, t2, k2) \<Rightarrow> (Over (Inl Gone), t2, k2)))"

text \<open>One turn of the loop of \<open>run\<close>.\<close>

definition run_turn :: "u64 \<Rightarrow> span \<Rightarrow> limits \<Rightarrow> nat \<Rightarrow> waiting \<Rightarrow> timed \<Rightarrow> kernel \<Rightarrow> turn \<times> timed \<times> kernel" where
  "run_turn want sp lim began w t0 k =
     (let t = t0\<lparr>tm_beats := tm_now t0 # tm_beats t0\<rparr>
      in if total_time lim < tm_now t - began
         then (Over (Inl (TooLong (wt_moved w) (sp_len sp))), abandoned_one t, k)
         else (case announce sp w t of (w1, t1) \<Rightarrow> run_wait want sp lim w1 t1 k))"

text \<open>What a receive leaves: fewer items, or a later time.\<close>

lemma receive_facts:
  "receive limit xs k = (r, at, rest, k') \<Longrightarrow>
     length rest \<le> length xs \<and> (r = TimedOut \<longrightarrow> at = limit) \<and> at \<le> limit \<and>
     ((\<exists>q st. r = Msg q st) \<longrightarrow> length rest < length xs)"
  by (induction limit xs k rule: receive.induct) (auto split: if_splits effect.splits)

lemma recv_timeout_facts:
  assumes "recv_timeout d t k = (r, t', k')"
  shows "length (tm_pending t') \<le> length (tm_pending t)" "tm_now t \<le> tm_now t'" "tm_now t' \<le> tm_now t + d"
    and "r = TimedOut \<Longrightarrow> tm_now t' = tm_now t + d"
    and "r = Msg q st \<Longrightarrow> length (tm_pending t') < length (tm_pending t)"
    and "tm_missed t' = tm_missed t" "tm_abandoned t' = tm_abandoned t" "tm_lost t' = tm_lost t"
    and "tm_since t' = tm_since t" "tm_seq t' = tm_seq t" "tm_beats t' = tm_beats t"
  using assms receive_facts [of "tm_now t + d" "tm_pending t" k]
  by (auto simp: recv_timeout_def split: if_splits prod.splits)

lemma turn_fields [simp]:
  "tm_pending (answered t) = tm_pending t" "tm_now (answered t) = tm_now t"
  "tm_pending (start_clock t) = tm_pending t" "tm_now (start_clock t) = tm_now t"
  "tm_pending (missed_one t) = tm_pending t" "tm_now (missed_one t) = tm_now t"
  "tm_pending (abandoned_one t) = tm_pending t" "tm_now (abandoned_one t) = tm_now t"
  "tm_pending (lost_one t) = tm_pending t" "tm_now (lost_one t) = tm_now t"
  "tm_beats (answered t) = tm_beats t" "tm_beats (missed_one t) = tm_beats t"
  "tm_beats (abandoned_one t) = tm_beats t" "tm_beats (lost_one t) = tm_beats t"
  by (simp_all add: answered_def start_clock_def missed_one_def abandoned_one_def lost_one_def)

text \<open>Draining what already arrived; whether anything had.\<close>

function drain :: "timed \<Rightarrow> kernel \<Rightarrow> bool \<times> timed \<times> kernel" where
  "drain t k =
     (case recv_timeout 0 t k of
        (Msg q st, t', k') \<Rightarrow> (case drain t' k' of (_, t'', k'') \<Rightarrow> (True, t'', k''))
      | (_, t', k') \<Rightarrow> (False, t', k'))"
  by pat_completeness auto

termination
  by (relation "measure (\<lambda>(t, _). length (tm_pending t))")
     (auto dest!: recv_timeout_facts(5) [OF sym])

declare drain.simps [simp del]

lemma announce_same:
  "announce sp w t = (w1, t1) \<Longrightarrow>
     wt_moved w1 = wt_moved w \<and> wt_deadline w1 = wt_deadline w \<and> tm_now t1 = tm_now t \<and>
     tm_pending t1 = tm_pending t \<and> tm_beats t1 = tm_beats t \<and> tm_missed t1 = tm_missed t \<and>
     tm_abandoned t1 = tm_abandoned t \<and> tm_lost t1 = tm_lost t \<and> tm_since t1 = tm_since t \<and>
     tm_seq t1 = tm_seq t \<and> tm_gone t1 = tm_gone t"
  by (auto simp: announce_def split: if_splits)

text \<open>
  \<open>closes t t'\<close>: the fields of the channel, the clock and the beats are the same; only the counters
  differ.
\<close>

definition closes :: "timed \<Rightarrow> timed \<Rightarrow> bool" where
  "closes t t' \<longleftrightarrow> tm_now t' = tm_now t \<and> tm_pending t' = tm_pending t \<and> tm_beats t' = tm_beats t \<and>
     tm_seq t' = tm_seq t \<and> tm_gone t' = tm_gone t"

lemma closes_counters [simp]:
  "closes t t" "closes t (answered t)" "closes t (missed_one t)" "closes t (abandoned_one t)" "closes t (lost_one t)"
  by (simp_all add: closes_def answered_def missed_one_def abandoned_one_def lost_one_def start_clock_def)

text \<open>A wait ends at once, or after one receive of at most a heartbeat.\<close>

lemma run_wait_cases:
  assumes "run_wait want sp lim w t k = (o1, t', k')"
  obtains (early) e where "o1 = Over (Inl e)" "k' = k" "closes t t'" "wt_deadline w \<le> tm_now t"
      "wt_moved w = 0 \<Longrightarrow> e = NoFirstByte \<and> t' = missed_one t"
      "wt_moved w \<noteq> 0 \<Longrightarrow> t' = abandoned_one t"
  | (again) d r t2 w' where "o1 = Again w'" "recv_timeout d t k = (r, t2, k')" "0 < d" "d \<le> HEARTBEAT"
      "tm_now t + d \<le> wt_deadline w" "r \<noteq> Disconnected" "closes t2 t'"
      "w' = w \<and> t' = t2 \<or>
       (\<exists>n. r = Msg want (Progress n) \<and> wt_moved w < n \<and> w' = w\<lparr>wt_moved := n, wt_deadline := tm_now t2 + stall lim\<rparr> \<and>
            t' = (if wt_moved w = 0 then answered t2 else t2))"
  | (over) d r t2 res where "o1 = Over res" "recv_timeout d t k = (r, t2, k')" "0 < d" "d \<le> HEARTBEAT"
      "tm_now t + d \<le> wt_deadline w" "closes t2 t'" "r \<noteq> TimedOut"
      "t' = answered t2 \<or> t' = t2 \<or> t' = lost_one t2"
      "\<And>n. res = Inr n \<Longrightarrow> n = wt_moved w \<and> wt_moved w = sp_len sp \<and> r = Msg want StepDone"
      "\<And>e. res = Inl e \<Longrightarrow> e \<noteq> NoFirstByte"
proof (cases "wt_deadline w - tm_now t = 0")
  case True
  then show ?thesis using assms
    by (intro early [of "if wt_moved w = 0 then NoFirstByte else Stalled (wt_moved w) (sp_len sp)"])
       (auto simp: run_wait_def Let_def split: if_splits)
next
  case False
  define d where "d = min (wt_deadline w - tm_now t) HEARTBEAT"
  have d: "0 < d" "d \<le> HEARTBEAT" "tm_now t + d \<le> wt_deadline w"
    using False by (auto simp: d_def HEARTBEAT_def)
  obtain r t2 k2 where v: "recv_timeout d t k = (r, t2, k2)" by (metis prod_cases3)
  show ?thesis
  proof (cases r)
    case TimedOut
    have "o1 = Again w" "t' = t2" "k' = k2"
      using assms False v TimedOut by (auto simp: run_wait_def Let_def d_def [symmetric])
    then show ?thesis using again [of w d r t2] v d TimedOut by simp
  next
    case Disconnected
    have "o1 = Over (Inl Gone)" "t' = t2" "k' = k2"
      using assms False v Disconnected by (auto simp: run_wait_def Let_def d_def [symmetric])
    then show ?thesis using over [of "Inl Gone" d r t2] v d Disconnected by simp
  next
    case (Msg q st)
    have x: "(o1, t', k') =
        (if q \<noteq> want then (Again w, t2, k2)
         else (case st of
            Progress n \<Rightarrow>
              if wt_moved w < n
              then (Again (w\<lparr>wt_moved := n, wt_deadline := tm_now t2 + stall lim\<rparr>),
                    (if wt_moved w = 0 then answered t2 else t2), k2)
              else (Again w, t2, k2)
          | StepDone \<Rightarrow>
              (Over (if wt_moved w \<noteq> sp_len sp then Inl (Short (wt_moved w) (sp_len sp)) else Inr (wt_moved w)),
               answered t2, k2)
          | StepFailed e \<Rightarrow>
              (Over (Inl (Provider e)),
               (if is_connection_lost e then lost_one t2 else if 0 < wt_moved w then answered t2 else t2), k2)))"
      using assms False v Msg by (simp add: run_wait_def Let_def d_def [symmetric])
    have same: ?thesis if "o1 = Again w" "t' = t2" "k' = k2"
      using again [of w d r t2] that v d Msg by simp
    show ?thesis
    proof (cases "q = want")
      case False
      with x show ?thesis by (intro same) auto
    next
      case q: True
      show ?thesis
      proof (cases st)
        case (Progress n)
        show ?thesis
        proof (cases "wt_moved w < n")
          case True
          then show ?thesis using x q Progress v d Msg
            by (intro again [of "w\<lparr>wt_moved := n, wt_deadline := tm_now t2 + stall lim\<rparr>" d r t2]) auto
        next
          case False
          with x q Progress show ?thesis by (intro same) auto
        qed
      next
        case StepDone
        then show ?thesis using x q v d Msg
          by (intro over [of "if wt_moved w \<noteq> sp_len sp then Inl (Short (wt_moved w) (sp_len sp)) else Inr (wt_moved w)" d r t2])
             (auto split: if_splits)
      next
        case (StepFailed e)
        then show ?thesis using x q v d Msg by (intro over [of "Inl (Provider e)" d r t2]) auto
      qed
    qed
  qed
qed

lemma run_turn_Again:
  assumes "run_turn want sp lim began w t k = (Again w', t', k')"
  shows "tm_now t \<le> began + total_time lim" "tm_now t \<le> tm_now t'" "tm_now t' \<le> tm_now t + HEARTBEAT"
    and "tm_beats t' = tm_now t # tm_beats t"
    and "(began + total_time lim + 1 - tm_now t') + length (tm_pending t')
       < (began + total_time lim + 1 - tm_now t) + length (tm_pending t)"
proof -
  define t0 where "t0 = t\<lparr>tm_beats := tm_now t # tm_beats t\<rparr>"
  have n0: "tm_now t0 = tm_now t" by (simp add: t0_def)
  obtain w1 t1 where a: "announce sp w t0 = (w1, t1)" by fastforce
  have le: "tm_now t \<le> began + total_time lim" and rw: "run_wait want sp lim w1 t1 k = (Again w', t', k')"
    using assms a by (auto simp: run_turn_def Let_def t0_def [symmetric] n0 split: if_splits)
  note s = announce_same [OF a]
  from rw have "tm_now t \<le> began + total_time lim \<and> tm_now t \<le> tm_now t' \<and>
      tm_now t' \<le> tm_now t + HEARTBEAT \<and> tm_beats t' = tm_now t # tm_beats t \<and>
      (began + total_time lim + 1 - tm_now t') + length (tm_pending t')
        < (began + total_time lim + 1 - tm_now t) + length (tm_pending t)"
  proof (cases rule: run_wait_cases)
    case (again d r t2 w2)
    note f = recv_timeout_facts [OF again(2)]
    have t1: "tm_now t1 = tm_now t" "tm_pending t1 = tm_pending t" "tm_beats t1 = tm_now t # tm_beats t"
      using s by (simp_all add: t0_def)
    have c: "tm_now t' = tm_now t2" "tm_pending t' = tm_pending t2" "tm_beats t' = tm_beats t2"
      using again(7) by (simp_all add: closes_def)
    have "(began + total_time lim + 1 - tm_now t2) + length (tm_pending t2)
       < (began + total_time lim + 1 - tm_now t) + length (tm_pending t)"
    proof (cases r)
      case TimedOut
      with f(1,4) t1 le again(3) show ?thesis by simp
    next
      case (Msg q st)
      with f(5) [of q st] f(2) t1 show ?thesis by simp
    qed (use again(6) in simp)
    with c f(2,3,11) t1 le again(4) show ?thesis by simp
  qed simp_all
  then show "tm_now t \<le> began + total_time lim" "tm_now t \<le> tm_now t'" "tm_now t' \<le> tm_now t + HEARTBEAT"
    and "tm_beats t' = tm_now t # tm_beats t"
    and "(began + total_time lim + 1 - tm_now t') + length (tm_pending t')
       < (began + total_time lim + 1 - tm_now t) + length (tm_pending t)" by blast+
qed

text \<open>The loop of \<open>run\<close>.\<close>

function run_loop ::
  "u64 \<Rightarrow> span \<Rightarrow> limits \<Rightarrow> nat \<Rightarrow> waiting \<Rightarrow> timed \<Rightarrow> kernel \<Rightarrow> (transfer_error + u64) \<times> timed \<times> kernel" where
  "run_loop want sp lim began w t k =
     (case run_turn want sp lim began w t k of
        (Over r, t', k') \<Rightarrow> (r, t', k')
      | (Again w', t', k') \<Rightarrow> run_loop want sp lim began w' t' k')"
  by pat_completeness auto

termination
  by (relation "measure (\<lambda>(_, _, lim, began, _, t, _). (began + total_time lim + 1 - tm_now t) + length (tm_pending t))")
     (auto dest!: run_turn_Again(5) [OF sym])

declare run_loop.simps [simp del]

text \<open>The part of \<open>run\<close> before the job is sent.\<close>

definition probe :: "timed \<Rightarrow> kernel \<Rightarrow> bool \<times> timed \<times> kernel" where
  "probe t k =
     (if expensive_to_probe t
      then (case drain t k of (recovered, t1, k2) \<Rightarrow> (recovered, if recovered then answered t1 else t1, k2))
      else (True, t, k))"

text \<open>
  \<open>run\<close>: the descriptor is duplicated, a fetcher that is expensive to probe is only drained, and then
  the job is sent and waited for.
\<close>

definition timed_run ::
  "script \<Rightarrow> file_id \<Rightarrow> u64 \<Rightarrow> span \<Rightarrow> limits \<Rightarrow> timed \<Rightarrow> kernel \<Rightarrow> (transfer_error + u64) \<times> timed \<times> kernel" where
  "timed_run script f sz sp lim t k =
     (case sys_call (sys_return ()) k of
        (Inl e, k1) \<Rightarrow> (Inl (Provider e), t, k1)
      | (Inr _, k1) \<Rightarrow>
          (case probe t k1 of
             (False, t1, k2) \<Rightarrow> (Inl Unresponsive, t1, k2)
           | (True, t1, k2) \<Rightarrow>
               (case send_job script f sz sp t1 of
                  (False, t2) \<Rightarrow> (Inl Gone, t2, k2)
                | (True, t2) \<Rightarrow>
                    run_loop (tm_seq t2) sp lim (tm_now t2)
                      \<lparr>wt_deadline = tm_now t2 + first_byte lim, wt_moved = 0, wt_said = tm_now t2\<rparr> t2 k2)))"

section \<open>Every transfer ends\<close>

text \<open>Consecutive heartbeats are at most \<open>d\<close> apart (the latest first).\<close>

fun spaced :: "nat \<Rightarrow> nat list \<Rightarrow> bool" where
  "spaced d (a # b # xs) \<longleftrightarrow> a \<le> b + d \<and> b \<le> a \<and> spaced d (b # xs)"
| "spaced d _ \<longleftrightarrow> True"

lemma spaced_snoc: "spaced d xs \<Longrightarrow> xs \<noteq> [] \<Longrightarrow> x \<le> last xs \<Longrightarrow> last xs \<le> x + d \<Longrightarrow> spaced d (xs @ [x])"
  by (induction d xs rule: spaced.induct) auto

lemma run_turn_Over:
  assumes "run_turn want sp lim began w t k = (Over r, t', k')"
  shows "tm_now t \<le> tm_now t'" "tm_now t' \<le> tm_now t + HEARTBEAT" "tm_beats t' = tm_now t # tm_beats t"
    and "began + total_time lim < tm_now t \<Longrightarrow> tm_now t' = tm_now t"
proof -
  define t0 where "t0 = t\<lparr>tm_beats := tm_now t # tm_beats t\<rparr>"
  have "tm_now t \<le> tm_now t' \<and> tm_now t' \<le> tm_now t + HEARTBEAT \<and> tm_beats t' = tm_now t # tm_beats t \<and>
      (began + total_time lim < tm_now t \<longrightarrow> tm_now t' = tm_now t)"
  proof (cases "total_time lim < tm_now t - began")
    case True
    with assms show ?thesis by (auto simp: run_turn_def Let_def)
  next
    case False
    have n0: "tm_now t0 = tm_now t" by (simp add: t0_def)
    obtain w1 t1 where a: "announce sp w t0 = (w1, t1)" by fastforce
    have rw: "run_wait want sp lim w1 t1 k = (Over r, t', k')"
      using assms a False by (auto simp: run_turn_def Let_def t0_def [symmetric] n0 split: if_splits)
    have t1: "tm_now t1 = tm_now t" "tm_beats t1 = tm_now t # tm_beats t"
      using announce_same [OF a] by (simp_all add: t0_def)
    from rw show ?thesis
    proof (cases rule: run_wait_cases)
      case (early e)
      with t1 False show ?thesis by (auto simp: closes_def)
    next
      case (over d r t2 res)
      with recv_timeout_facts [OF over(2)] t1 False show ?thesis by (auto simp: closes_def)
    qed simp
  qed
  then show "tm_now t \<le> tm_now t'" "tm_now t' \<le> tm_now t + HEARTBEAT" "tm_beats t' = tm_now t # tm_beats t"
    and "began + total_time lim < tm_now t \<Longrightarrow> tm_now t' = tm_now t" by auto
qed

lemma run_loop_time:
  assumes "run_loop want sp lim began w t k = (r, t', k')"
    and "tm_now t \<le> began + total_time lim + HEARTBEAT"
  shows "tm_now t \<le> tm_now t' \<and> tm_now t' \<le> began + total_time lim + HEARTBEAT \<and>
    (\<exists>bs. tm_beats t' = bs @ tm_beats t \<and> bs \<noteq> [] \<and> last bs = tm_now t \<and> spaced HEARTBEAT (tm_now t' # bs))"
  using assms
proof (induction want sp lim began w t k rule: run_loop.induct)
  case (1 want sp lim began w t k)
  obtain o1 t1 k1 where x: "run_turn want sp lim began w t k = (o1, t1, k1)" by (metis prod_cases3)
  show ?case
  proof (cases o1)
    case (Again w1)
    then have rest: "run_loop want sp lim began w1 t1 k1 = (r, t', k')"
      using 1(2) x by (subst (asm) run_loop.simps) simp
    note a = run_turn_Again [OF x [unfolded Again]]
    have "tm_now t1 \<le> began + total_time lim + HEARTBEAT" using a by simp
    from 1(1) [OF x [symmetric] Again refl rest this]
    obtain bs where ih: "tm_now t1 \<le> tm_now t'" "tm_now t' \<le> began + total_time lim + HEARTBEAT"
      "tm_beats t' = bs @ tm_beats t1" "bs \<noteq> []" "last bs = tm_now t1" "spaced HEARTBEAT (tm_now t' # bs)" by auto
    have "spaced HEARTBEAT (xs @ [tm_now t])" if "spaced HEARTBEAT xs" "xs \<noteq> []" "last xs = tm_now t1" for xs
      using that
    proof (induction HEARTBEAT xs rule: spaced.induct)
      case "2_2"
      then show ?case using a(2,3) by simp
    qed auto
    from this [OF ih(6)] ih(4,5) have "spaced HEARTBEAT (tm_now t' # bs @ [tm_now t])" by simp
    then show ?thesis using ih a by (auto intro!: exI [of _ "bs @ [tm_now t]"])
  next
    case (Over r1)
    then have "t' = t1" using 1(2) x by (subst (asm) run_loop.simps) simp
    note f = run_turn_Over [OF x [unfolded Over]]
    from \<open>t' = t1\<close> f 1(3) show ?thesis
      by (cases "began + total_time lim < tm_now t") (auto intro!: exI [of _ "[tm_now t]"])
  qed
qed

section \<open>What a transfer leaves in the file\<close>

definition grown :: "inode \<Rightarrow> inode \<Rightarrow> bool" where
  "grown f f' \<longleftrightarrow> f_id f' = f_id f \<and> f_size f' = f_size f \<and> f_nlink f' = f_nlink f \<and> f_mark f' = f_mark f \<and>
     present f \<subseteq> present f'"

lemma grown_refl [simp]: "grown f f"
  by (simp add: grown_def)

lemma grown_trans: "grown f g \<Longrightarrow> grown g h \<Longrightarrow> grown f h"
  by (auto simp: grown_def)

text \<open>The writes still to come lie inside their files.\<close>

definition items_in :: "(file_id \<Rightarrow> u64) \<Rightarrow> item list \<Rightarrow> bool" where
  "items_in sizes xs \<longleftrightarrow>
     (\<forall>(at, q, f, ef) \<in> set xs. \<forall>off bs. ef = Wrote off bs \<longrightarrow> unat off + length bs \<le> unat (sizes f))"

definition timed_inv :: "(file_id \<Rightarrow> u64) \<Rightarrow> timed \<Rightarrow> bool" where
  "timed_inv sizes t \<longleftrightarrow>
     items_in sizes (tm_pending t) \<and> (\<forall>(at, q, f, ef) \<in> set (tm_pending t). unat q \<le> unat (tm_seq t))"

text \<open>The effects of one job, and the invariant of waiting for it.\<close>

definition job :: "u64 \<Rightarrow> item list \<Rightarrow> effect list" where
  "job want xs = map (\<lambda>(at, q, f, ef). ef) (filter (\<lambda>(at, q, f, ef). q = want) xs)"

definition job_inv :: "(file_id \<Rightarrow> u64) \<Rightarrow> file_id \<Rightarrow> span \<Rightarrow> u64 \<Rightarrow> item list \<Rightarrow> kernel \<Rightarrow> bool" where
  "job_inv sizes f sp want xs k \<longleftrightarrow>
     f_id (k_file k) = f \<and> f_size (k_file k) = sizes f \<and> items_in sizes xs \<and>
     (\<forall>(at, q, f', ef) \<in> set xs. q = want \<longrightarrow> f' = f) \<and> honest sp (present (k_file k)) (job want xs)"

lemma run_item_Wrote:
  assumes "unat off + length bs \<le> unat (sizes f)" "f_size (k_file k) = sizes (f_id (k_file k))"
  shows "grown (k_file k) (k_file (run_item f (Wrote off bs) k))"
    and "f = f_id (k_file k) \<Longrightarrow> present (k_file (run_item f (Wrote off bs) k)) = present (k_file k) \<union> bytes_of off bs"
    and "f \<noteq> f_id (k_file k) \<Longrightarrow> run_item f (Wrote off bs) k = k"
proof -
  have "max (f_size (k_file k)) (off + of_nat (length bs)) = f_size (k_file k)" if "f = f_id (k_file k)"
  proof -
    have lt: "unat off + length bs < 2 ^ 64"
      using assms(1) unsigned_less [of "sizes f", where ?'a = nat] by simp
    then show ?thesis using that assms by (intro max.absorb1) (simp add: word_le_nat_alt unat_add_len)
  qed
  then show "grown (k_file k) (k_file (run_item f (Wrote off bs) k))"
    by (auto simp: run_item_def run_effect_def grown_def file_write_def file_touch_def present_def data_write_bytes_of)
  show "f = f_id (k_file k) \<Longrightarrow> present (k_file (run_item f (Wrote off bs) k)) = present (k_file k) \<union> bytes_of off bs"
    by (auto simp: run_item_def run_effect_def file_write_def file_touch_def present_def data_write_bytes_of)
  show "f \<noteq> f_id (k_file k) \<Longrightarrow> run_item f (Wrote off bs) k = k"
    by (simp add: run_item_def)
qed

lemma job_Cons:
  "job want ((at, q, f, ef) # xs) = (if q = want then ef # job want xs else job want xs)"
  by (simp add: job_def)

lemma receive_keeps:
  assumes "receive limit xs k = (r, at, rest, k')" "job_inv sizes f sp want xs k"
  shows "grown (k_file k) (k_file k') \<and> job_inv sizes f sp want rest k' \<and> set rest \<subseteq> set xs \<and>
    (\<forall>n. r = Msg want (Progress n) \<longrightarrow> span_bytes (span_new (sp_offset sp) n) \<subseteq> present (k_file k'))"
  using assms
proof (induction limit xs k arbitrary: r at rest k' rule: receive.induct)
  case (1 limit k)
  then show ?case by auto
next
  case (2 limit a q g ef xs k)
  have tl: "items_in sizes xs" "\<forall>(at, q, f', ef) \<in> set xs. q = want \<longrightarrow> f' = f" "q = want \<Longrightarrow> g = f"
    and id: "f_id (k_file k) = f" "f_size (k_file k) = sizes f"
    using 2(3) by (auto simp: job_inv_def items_in_def)
  have h: "honest sp (present (k_file k)) (job want ((a, q, g, ef) # xs))" using 2(3) by (simp add: job_inv_def)
  show ?case
  proof (cases "limit < a")
    case True
    with 2(2,3) show ?thesis by auto
  next
    case False
    show ?thesis
    proof (cases ef)
      case (Said st)
      then have eq: "r = Msg q st" "rest = xs" "k' = k" using 2(2) False by auto
      have "honest sp (present (k_file k)) (job want xs)"
        using h Said by (cases st) (auto simp: job_Cons split: if_splits)
      moreover have "st = Progress n \<Longrightarrow> q = want \<Longrightarrow> span_bytes (span_new (sp_offset sp) n) \<subseteq> present (k_file k)" for n
        using h Said by (auto simp: job_Cons)
      ultimately show ?thesis using eq tl id by (auto simp: job_inv_def)
    next
      case Died
      then show ?thesis using 2(2,3) False by (auto simp: job_inv_def items_in_def job_def)
    next
      case (Wrote off bs)
      define k1 where "k1 = run_item g ef k"
      have rest: "receive limit xs k1 = (r, at, rest, k')" using 2(2) False Wrote by (simp add: k1_def)
      have inb: "unat off + length bs \<le> unat (sizes g)" using 2(3) Wrote by (auto simp: job_inv_def items_in_def)
      have g1: "grown (k_file k) (k_file k1)"
        using run_item_Wrote(1) [of off bs sizes g k, OF inb] id Wrote by (simp add: k1_def)
      have "honest sp (present (k_file k1)) (job want xs)"
      proof (cases "q = want")
        case True
        then have "g = f_id (k_file k)" using tl(3) id by simp
        then have "present (k_file k1) = present (k_file k) \<union> bytes_of off bs"
          using run_item_Wrote(2) [of off bs sizes g k, OF inb] id Wrote by (simp add: k1_def)
        then show ?thesis using h True Wrote by (simp add: job_Cons)
      next
        case False
        then have "honest sp (present (k_file k)) (job want xs)" using h by (simp add: job_Cons)
        then show ?thesis using g1 honest_mono by (auto simp: grown_def)
      qed
      then have "job_inv sizes f sp want xs k1"
        using tl id g1 by (auto simp: job_inv_def grown_def)
      from 2(1) [OF False Wrote rest [unfolded k1_def] this [unfolded k1_def]] g1 show ?thesis
        by (auto simp: k1_def [symmetric] intro: grown_trans)
    qed
  qed
qed

lemma recv_timeout_keeps:
  assumes "recv_timeout d t k = (r, t', k')" "job_inv sizes f sp want (tm_pending t) k"
  shows "grown (k_file k) (k_file k')" "job_inv sizes f sp want (tm_pending t') k'"
    and "set (tm_pending t') \<subseteq> set (tm_pending t)"
    and "r = Msg want (Progress n) \<Longrightarrow> span_bytes (span_new (sp_offset sp) n) \<subseteq> present (k_file k')"
  using assms receive_keeps [of "tm_now t + d" "tm_pending t" k _ _ _ _ sizes f sp want]
  by (auto simp: recv_timeout_def split: if_splits prod.splits)

lemma span_new_self [simp]: "span_new (sp_offset sp) (sp_len sp) = sp"
  by (simp add: span_new_def)

lemma run_turn_keeps:
  assumes "run_turn want sp lim began w t k = (o1, t', k')" "job_inv sizes f sp want (tm_pending t) k"
    and "span_bytes (span_new (sp_offset sp) (wt_moved w)) \<subseteq> present (k_file k)"
  shows "grown (k_file k) (k_file k') \<and> job_inv sizes f sp want (tm_pending t') k' \<and>
    set (tm_pending t') \<subseteq> set (tm_pending t) \<and> tm_seq t' = tm_seq t \<and>
    (case o1 of Again w' \<Rightarrow> span_bytes (span_new (sp_offset sp) (wt_moved w')) \<subseteq> present (k_file k')
              | Over (Inr n) \<Rightarrow> n = sp_len sp \<and> span_bytes sp \<subseteq> present (k_file k')
              | Over (Inl e) \<Rightarrow> True)"
proof -
  define t0 where "t0 = t\<lparr>tm_beats := tm_now t # tm_beats t\<rparr>"
  have n0: "tm_now t0 = tm_now t" by (simp add: t0_def)
  show ?thesis
  proof (cases "total_time lim < tm_now t - began")
    case True
    with assms show ?thesis by (auto simp: run_turn_def Let_def abandoned_one_def start_clock_def)
  next
    case False
    obtain w1 t1 where a: "announce sp w t0 = (w1, t1)" by fastforce
    have rw: "run_wait want sp lim w1 t1 k = (o1, t', k')"
      using assms(1) a False by (auto simp: run_turn_def Let_def t0_def [symmetric] n0 split: if_splits)
    have p1: "tm_pending t1 = tm_pending t" "tm_seq t1 = tm_seq t" "wt_moved w1 = wt_moved w"
      using announce_same [OF a] by (simp_all add: t0_def)
    from rw show ?thesis
    proof (cases rule: run_wait_cases)
      case (early e)
      with assms(2) p1 show ?thesis by (auto simp: closes_def)
    next
      case (again d r t2 w2)
      have ji: "job_inv sizes f sp want (tm_pending t1) k" using assms(2) p1 by simp
      note kp = recv_timeout_keeps [OF again(2) ji]
      note sq = recv_timeout_facts(10) [OF again(2)]
      have mv: "span_bytes (span_new (sp_offset sp) (wt_moved w)) \<subseteq> present (k_file k')"
        using assms(3) kp(1) by (auto simp: grown_def)
      show ?thesis using again(1,7,8) kp mv sq p1 by (auto simp: closes_def)
    next
      case (over d r t2 res)
      have ji: "job_inv sizes f sp want (tm_pending t1) k" using assms(2) p1 by simp
      note kp = recv_timeout_keeps [OF over(2) ji]
      note sq = recv_timeout_facts(10) [OF over(2)]
      have mv: "span_bytes (span_new (sp_offset sp) (wt_moved w)) \<subseteq> present (k_file k')"
        using assms(3) kp(1) by (auto simp: grown_def)
      show ?thesis
      proof (cases res)
        case (Inl e)
        with over(1,6) kp sq p1 show ?thesis by (auto simp: closes_def)
      next
        case (Inr n)
        then have "n = sp_len sp" "wt_moved w = sp_len sp" using over(9) p1 by auto
        with Inr over(1,6) kp sq p1 mv show ?thesis by (auto simp: closes_def)
      qed
    qed
  qed
qed

lemma run_loop_keeps:
  assumes "run_loop want sp lim began w t k = (r, t', k')" "job_inv sizes f sp want (tm_pending t) k"
    and "span_bytes (span_new (sp_offset sp) (wt_moved w)) \<subseteq> present (k_file k)"
  shows "grown (k_file k) (k_file k') \<and> items_in sizes (tm_pending t') \<and>
    set (tm_pending t') \<subseteq> set (tm_pending t) \<and> tm_seq t' = tm_seq t \<and>
    (\<forall>n. r = Inr n \<longrightarrow> n = sp_len sp \<and> span_bytes sp \<subseteq> present (k_file k'))"
  using assms
proof (induction want sp lim began w t k rule: run_loop.induct)
  case (1 want sp lim began w t k)
  obtain o1 t1 k1 where x: "run_turn want sp lim began w t k = (o1, t1, k1)" by (metis prod_cases3)
  note kp = run_turn_keeps [OF x 1(3,4)]
  show ?case
  proof (cases o1)
    case (Again w1)
    then have rest: "run_loop want sp lim began w1 t1 k1 = (r, t', k')"
      using 1(2) x by (subst (asm) run_loop.simps) simp
    have p: "job_inv sizes f sp want (tm_pending t1) k1"
      "span_bytes (span_new (sp_offset sp) (wt_moved w1)) \<subseteq> present (k_file k1)"
      using kp Again by auto
    from 1(1) [OF x [symmetric] Again refl rest p] kp show ?thesis
      by (auto intro: grown_trans)
  next
    case (Over r1)
    then have "r = r1" "t' = t1" "k' = k1" using 1(2) x by (subst (asm) run_loop.simps, simp)+
    with kp Over show ?thesis by (cases r1) (auto simp: job_inv_def)
  qed
qed

lemma drain_facts:
  "drain t k = (b, t', k') \<Longrightarrow>
     tm_now t' = tm_now t \<and> tm_beats t' = tm_beats t \<and> tm_seq t' = tm_seq t \<and> tm_abandoned t' = tm_abandoned t"
proof (induction t k arbitrary: b t' k' rule: drain.induct)
  case (1 t k)
  obtain r t1 k1 where v: "recv_timeout 0 t k = (r, t1, k1)" by (metis prod_cases3)
  note f = recv_timeout_facts [OF v]
  show ?case
  proof (cases r)
    case (Msg q st)
    obtain b2 t2 k2 where d: "drain t1 k1 = (b2, t2, k2)" by (metis prod_cases3)
    then have "t' = t2" using 1(2) v Msg by (subst (asm) drain.simps) simp
    with 1(1) [OF v [symmetric] Msg refl d] f show ?thesis by simp
  qed (use 1(2) v f in \<open>auto simp: drain.simps\<close>)
qed

lemma receive_grown:
  assumes "receive limit xs k = (r, at, rest, k')" "items_in sizes xs" "f_size (k_file k) = sizes (f_id (k_file k))"
  shows "grown (k_file k) (k_file k') \<and> set rest \<subseteq> set xs"
  using assms
proof (induction limit xs k arbitrary: r at rest k' rule: receive.induct)
  case (2 limit a q g ef xs k)
  show ?case
  proof (cases "\<not> limit < a \<and> (\<exists>off bs. ef = Wrote off bs)")
    case False
    with 2(2) show ?thesis by (auto split: if_splits effect.splits)
  next
    case True
    then obtain off bs where w: "ef = Wrote off bs" "\<not> limit < a" by blast
    have inb: "unat off + length bs \<le> unat (sizes g)" and tl: "items_in sizes xs"
      using 2(3) w by (auto simp: items_in_def)
    have g1: "grown (k_file k) (k_file (run_item g ef k))"
      using run_item_Wrote(1) [of off bs sizes g k, OF inb 2(4)] w by simp
    have rest: "receive limit xs (run_item g ef k) = (r, at, rest, k')" using 2(2) w by simp
    have "f_size (k_file (run_item g ef k)) = sizes (f_id (k_file (run_item g ef k)))"
      using g1 2(4) by (simp add: grown_def)
    from 2(1) [OF w(2,1) rest tl this] g1 show ?thesis by (auto intro: grown_trans)
  qed
qed auto

lemma items_in_subset: "items_in sizes xs \<Longrightarrow> set ys \<subseteq> set xs \<Longrightarrow> items_in sizes ys"
  unfolding items_in_def by blast

lemma recv_timeout_grown:
  assumes "recv_timeout d t k = (r, t', k')" "items_in sizes (tm_pending t)" "f_size (k_file k) = sizes (f_id (k_file k))"
  shows "grown (k_file k) (k_file k') \<and> set (tm_pending t') \<subseteq> set (tm_pending t)"
proof (cases "tm_gone t")
  case True
  with assms(1) show ?thesis by (simp add: recv_timeout_def)
next
  case False
  obtain r1 at rest k1 where v: "receive (tm_now t + d) (tm_pending t) k = (r1, at, rest, k1)"
    by (metis prod_cases4)
  with assms(1) False have "k' = k1" "tm_pending t' = rest" by (auto simp: recv_timeout_def)
  with receive_grown [OF v assms(2,3)] show ?thesis by simp
qed

lemma drain_keeps:
  assumes "drain t k = (b, t', k')" "items_in sizes (tm_pending t)" "f_size (k_file k) = sizes (f_id (k_file k))"
  shows "grown (k_file k) (k_file k') \<and> set (tm_pending t') \<subseteq> set (tm_pending t)"
  using assms
proof (induction t k arbitrary: b t' k' rule: drain.induct)
  case (1 t k)
  obtain r t1 k1 where v: "recv_timeout 0 t k = (r, t1, k1)" by (metis prod_cases3)
  note g = recv_timeout_grown [OF v 1(3,4)]
  show ?case
  proof (cases r)
    case (Msg q st)
    obtain b2 t2 k2 where d: "drain t1 k1 = (b2, t2, k2)" by (metis prod_cases3)
    then have "drain t k = (True, t2, k2)" by (subst drain.simps) (simp add: v Msg)
    then have eq: "t' = t2" "k' = k2" using 1(2) by simp_all
    have "items_in sizes (tm_pending t1)" using g 1(3) items_in_subset by blast
    moreover have "f_size (k_file k1) = sizes (f_id (k_file k1))" using g 1(4) by (simp add: grown_def)
    ultimately have "grown (k_file k1) (k_file k2) \<and> set (tm_pending t2) \<subseteq> set (tm_pending t1)"
      using 1(1) [OF v [symmetric] Msg refl d] by blast
    with g eq show ?thesis using grown_trans by blast
  next
    case TimedOut
    then have "drain t k = (False, t1, k1)" by (subst drain.simps) (simp add: v)
    then have "t' = t1 \<and> k' = k1" using 1(2) by simp
    with g show ?thesis by simp
  next
    case Disconnected
    then have "drain t k = (False, t1, k1)" by (subst drain.simps) (simp add: v)
    then have "t' = t1 \<and> k' = k1" using 1(2) by simp
    with g show ?thesis by simp
  qed
qed

section \<open>The transfer under the contract\<close>

lemma arrivals_items: "(a, q', f', ef) \<in> set (arrivals at q f es) \<Longrightarrow> q' = q \<and> f' = f \<and> ef \<in> snd ` set es"
  by (induction at q f es rule: arrivals.induct) (auto simp: image_iff)

lemma job_arrivals: "job q (arrivals at q f es) = map snd es"
  by (induction at q f es rule: arrivals.induct) (auto simp: job_def)

lemma job_append: "job q (xs @ ys) = job q xs @ job q ys"
  by (simp add: job_def)

lemma job_none: "\<forall>(at, q', f, ef) \<in> set xs. q' \<noteq> q \<Longrightarrow> job q xs = []"
  by (auto simp: job_def filter_empty_conv)

lemma honest_in:
  "honest sp seen es \<Longrightarrow> Wrote off bs \<in> set es \<Longrightarrow> unat off + length bs \<le> unat (sp_offset sp) + unat (sp_len sp)"
  by (induction sp seen es rule: honest.induct) auto

lemma send_job_inv:
  assumes s: "send_job script f sz sp t1 = (True, t2)" and inv: "timed_inv sizes t1"
    and seq: "unat (tm_seq t1) + 1 < 2 ^ 64"
    and hs: "honest sp {} (map snd (script (tm_seq t2) f sz sp))"
    and sp: "unat (sp_offset sp) + unat (sp_len sp) \<le> unat (sizes f)"
    and fl: "f_id (k_file k) = f" "f_size (k_file k) = sizes f"
  shows "job_inv sizes f sp (tm_seq t2) (tm_pending t2) k" "timed_inv sizes t2" "unat (tm_seq t2) = unat (tm_seq t1) + 1"
proof -
  have q: "tm_seq t2 = tm_seq t1 + 1" using s by (auto simp: send_job_def Let_def split: if_splits)
  show uq: "unat (tm_seq t2) = unat (tm_seq t1) + 1"
    unfolding q using seq by (subst unat_add_lem [THEN iffD1]) auto
  define xs where "xs = arrivals (queue_end (t1\<lparr>tm_seq := tm_seq t2\<rparr>)) (tm_seq t2) f (script (tm_seq t2) f sz sp)"
  have t2: "tm_pending t2 = tm_pending t1 @ xs"
    using s by (auto simp: send_job_def Let_def xs_def split: if_splits)
  have old: "q' \<noteq> tm_seq t2 \<and> unat q' \<le> unat (tm_seq t2)" if "(at, q', f', ef) \<in> set (tm_pending t1)" for at q' f' ef
    using inv that uq by (fastforce simp: timed_inv_def)
  have new: "q' = tm_seq t2 \<and> f' = f \<and> ef \<in> set (map snd (script (tm_seq t2) f sz sp))"
    if "(at, q', f', ef) \<in> set xs" for at q' f' ef
    using arrivals_items that by (simp add: xs_def)
  have xin: "items_in sizes xs"
    unfolding items_in_def
  proof (clarify)
    fix at q' f' off bs
    assume "(at, q', f', Wrote off bs) \<in> set xs"
    from new [OF this] have "f' = f" "Wrote off bs \<in> set (map snd (script (tm_seq t2) f sz sp))" by simp_all
    with honest_in [OF hs this(2)] sp show "unat off + length bs \<le> unat (sizes f')" by simp
  qed
  have all_in: "items_in sizes (tm_pending t2)" using inv xin t2 by (auto simp: timed_inv_def items_in_def)
  then show "timed_inv sizes t2"
    using old new t2 by (auto simp: timed_inv_def)
  have "job (tm_seq t2) (tm_pending t1) = []" using old by (intro job_none) auto
  then have "job (tm_seq t2) (tm_pending t2) = map snd (script (tm_seq t2) f sz sp)"
    unfolding t2 job_append by (simp add: xs_def job_arrivals)
  moreover have "\<forall>(at, q, f', ef) \<in> set (tm_pending t2). q = tm_seq t2 \<longrightarrow> f' = f"
  proof clarify
    fix at q f' ef
    assume "(at, tm_seq t2, f', ef) \<in> set (tm_pending t2)"
    then consider "(at, tm_seq t2, f', ef) \<in> set (tm_pending t1)" | "(at, tm_seq t2, f', ef) \<in> set xs"
      unfolding t2 by (metis Un_iff set_append)
    then show "f' = f"
    proof cases
      case 1
      from old [OF this] show ?thesis by (elim conjE notE) (rule refl)
    next
      case 2
      from new [OF this] show ?thesis by (elim conjE)
    qed
  qed
  ultimately show "job_inv sizes f sp (tm_seq t2) (tm_pending t2) k"
    using all_in honest_mono [OF hs, of "present (k_file k)"] fl by (simp add: job_inv_def)
qed

lemma probe_keeps:
  assumes "probe t k = (go, t1, k2)" "timed_inv sizes t" "f_size (k_file k) = sizes (f_id (k_file k))"
  shows "grown (k_file k) (k_file k2) \<and> timed_inv sizes t1 \<and> tm_seq t1 = tm_seq t \<and> tm_now t1 = tm_now t \<and>
    tm_beats t1 = tm_beats t"
proof (cases "expensive_to_probe t")
  case True
  obtain b t2 k3 where d: "drain t k = (b, t2, k3)" by (metis prod_cases3)
  have "items_in sizes (tm_pending t)" using assms(2) by (simp add: timed_inv_def)
  note dk = drain_keeps [OF d this assms(3)] and df = drain_facts [OF d]
  have eq: "k2 = k3" "tm_pending t1 = tm_pending t2" "tm_seq t1 = tm_seq t2" "tm_now t1 = tm_now t2" "tm_beats t1 = tm_beats t2"
    using assms(1) True d by (auto simp: probe_def answered_def split: if_splits)
  have "items_in sizes (tm_pending t1)" using dk eq assms(2) items_in_subset by (auto simp: timed_inv_def)
  moreover have "\<forall>(at, q, f, ef) \<in> set (tm_pending t1). unat q \<le> unat (tm_seq t1)"
    using dk df eq assms(2) by (auto simp: timed_inv_def)
  ultimately show ?thesis using dk df eq by (simp add: timed_inv_def)
next
  case False
  with assms show ?thesis by (simp add: probe_def)
qed

context fetch_contract
begin

lemma timed_run_keeps:
  assumes run: "timed_run script f sz sp lim t k = (r, t', k')"
    and inv: "timed_inv sizes t" and fl: "f_id (k_file k) = f" "f_size (k_file k) = sz" "sizes f = sz"
    and sp: "unat (sp_offset sp) + unat (sp_len sp) \<le> unat sz" and seq: "unat (tm_seq t) + 1 < 2 ^ 64"
  shows "grown (k_file k) (k_file k') \<and> timed_inv sizes t' \<and> unat (tm_seq t') \<le> unat (tm_seq t) + 1 \<and>
    (\<forall>n. r = Inr n \<longrightarrow> span_bytes sp \<subseteq> present (k_file k'))"
proof -
  obtain r0 k1 where dup: "sys_call (sys_return ()) k = (r0, k1)" by fastforce
  have k1: "k_file k1 = k_file k"
    by (rule sys_call_cases [of "sys_return ()" k]) (use dup in \<open>auto simp: sys_return_def\<close>)
  obtain go t1 k2 where pr: "probe t k1 = (go, t1, k2)" by (metis prod_cases3)
  have p: "grown (k_file k) (k_file k2)" "timed_inv sizes t1" "tm_seq t1 = tm_seq t"
    using probe_keeps [OF pr inv] k1 fl by auto
  obtain ok t2 where s: "send_job script f sz sp t1 = (ok, t2)" by fastforce
  consider (dup) e where "r0 = Inl e" | (stop) u where "r0 = Inr u" "\<not> go"
    | (gone) u where "r0 = Inr u" "go" "\<not> ok" | (sent) u where "r0 = Inr u" "go" "ok"
    by (cases r0) blast+
  then show ?thesis
  proof cases
    case (dup e)
    with run \<open>sys_call (sys_return ()) k = (r0, k1)\<close> k1 inv show ?thesis by (auto simp: timed_run_def)
  next
    case (stop u)
    with run \<open>sys_call (sys_return ()) k = (r0, k1)\<close> pr p show ?thesis
      by (auto simp: timed_run_def)
  next
    case (gone u)
    then have "r = Inl Gone" "t' = t2" "k' = k2"
      using run \<open>sys_call (sys_return ()) k = (r0, k1)\<close> pr s by (auto simp: timed_run_def)
    moreover have "tm_seq t2 = tm_seq t + 1" "tm_pending t2 = tm_pending t1"
      using s gone(3) p(3) by (auto simp: send_job_def Let_def split: if_splits)
    moreover from this have "unat (tm_seq t2) = unat (tm_seq t) + 1"
      using seq by (simp add: unat_add_lem [THEN iffD1])
    ultimately show ?thesis using p by (auto simp: timed_inv_def)
  next
    case (sent u)
    then have s': "send_job script f sz sp t1 = (True, t2)" using s by simp
    have rl: "run_loop (tm_seq t2) sp lim (tm_now t2)
        \<lparr>wt_deadline = tm_now t2 + first_byte lim, wt_moved = 0, wt_said = tm_now t2\<rparr> t2 k2 = (r, t', k')"
      using run \<open>sys_call (sys_return ()) k = (r0, k1)\<close> pr s' sent by (simp add: timed_run_def)
    have hs: "honest sp {} (map snd (script (tm_seq t2) f sz sp))" using sp by (rule script_honest)
    have fl2: "f_id (k_file k2) = f" "f_size (k_file k2) = sizes f" using p(1) fl by (auto simp: grown_def)
    note ji = send_job_inv [OF s' p(2) _ hs _ fl2]
    have j: "job_inv sizes f sp (tm_seq t2) (tm_pending t2) k2" "timed_inv sizes t2" "unat (tm_seq t2) = unat (tm_seq t1) + 1"
      by (rule ji; use p(3) seq sp fl in simp)+
    have z: "span_bytes (span_new (sp_offset sp) 0) \<subseteq> present (k_file k2)"
      by (simp add: span_bytes_def span_end_def span_new_def)
    from run_loop_keeps [OF rl j(1)] z
    have rk: "grown (k_file k2) (k_file k')" "items_in sizes (tm_pending t')"
      "set (tm_pending t') \<subseteq> set (tm_pending t2)" "tm_seq t' = tm_seq t2"
      "\<forall>n. r = Inr n \<longrightarrow> n = sp_len sp \<and> span_bytes sp \<subseteq> present (k_file k')" by simp_all
    have "timed_inv sizes t'" using rk(2-4) j(2) by (auto simp: timed_inv_def)
    then show ?thesis using rk p j(3) by (auto intro: grown_trans)
  qed
qed

end

section \<open>Properties of a bounded transfer\<close>

lemma send_job_same:
  "send_job script f sz sp t = (ok, t') \<Longrightarrow>
     tm_now t' = tm_now t \<and> tm_beats t' = tm_beats t \<and> tm_abandoned t' = tm_abandoned t \<and> tm_missed t' = tm_missed t \<and>
     tm_gone t' = tm_gone t"
  by (auto simp: send_job_def Let_def split: if_splits)

text \<open>How \<open>run\<close> ends, in one case distinction.\<close>

lemma timed_run_cases:
  assumes "timed_run script f sz sp lim t k = (r, t', k')"
  obtains (stopped) e where "r = Inl e" "t' = t" "e \<noteq> NoFirstByte"
  | (probed) k1 go t1 k2 e where "probe t k1 = (go, t1, k2)" "r = Inl e" "k' = k2"
      "t' = t1 \<or> (\<exists>ok. send_job script f sz sp t1 = (ok, t'))"
  | (ran) k1 t1 k2 t2 where "probe t k1 = (True, t1, k2)" "send_job script f sz sp t1 = (True, t2)"
      "run_loop (tm_seq t2) sp lim (tm_now t2)
         \<lparr>wt_deadline = tm_now t2 + first_byte lim, wt_moved = 0, wt_said = tm_now t2\<rparr> t2 k2 = (r, t', k')"
proof -
  obtain r0 k1 where dup: "sys_call (sys_return ()) k = (r0, k1)" by fastforce
  obtain go t1 k2 where pr: "probe t k1 = (go, t1, k2)" by (metis prod_cases3)
  obtain ok t2 where s: "send_job script f sz sp t1 = (ok, t2)" by fastforce
  show ?thesis
  proof (cases r0)
    case (Inl e)
    then have "r = Inl (Provider e) \<and> t' = t" using assms dup by (simp add: timed_run_def)
    then show ?thesis using stopped [of "Provider e"] by simp
  next
    case (Inr u)
    consider "\<not> go" | "go" "\<not> ok" | "go" "ok" by blast
    then show ?thesis
    proof cases
      case 1
      then have "r = Inl Unresponsive \<and> t' = t1 \<and> k' = k2"
        using assms dup Inr pr by (simp add: timed_run_def)
      then show ?thesis using probed [OF pr, of Unresponsive] by simp
    next
      case 2
      then have "r = Inl Gone \<and> t' = t2 \<and> k' = k2"
        using assms dup Inr pr s by (simp add: timed_run_def)
      then show ?thesis using probed [OF pr, of Gone] s by blast
    next
      case 3
      then have l: "run_loop (tm_seq t2) sp lim (tm_now t2)
         \<lparr>wt_deadline = tm_now t2 + first_byte lim, wt_moved = 0, wt_said = tm_now t2\<rparr> t2 k2 = (r, t', k')"
        using assms dup Inr pr s by (simp add: timed_run_def)
      have "probe t k1 = (True, t1, k2)" "send_job script f sz sp t1 = (True, t2)" using pr s 3 by simp_all
      then show ?thesis using l by (rule ran)
    qed
  qed
qed

lemma probe_same: "probe t k = (go, t1, k2) \<Longrightarrow> tm_now t1 = tm_now t \<and> tm_beats t1 = tm_beats t"
  using drain_facts [of t k] by (auto simp: probe_def answered_def split: if_splits prod.splits)

text \<open>C5: No read is held for ever.  Whatever the fetcher does or does not do, a transfer returns, no
  later than one heartbeat after the total limit; and it proves to the supervisor that it is alive at
  least every heartbeat: from its start to its first proof, from each proof to the next and from the last
  one to its end there is never more than one.\<close>

theorem timed_run_bounded:
  "case timed_run script f sz sp lim t k of (r, t', k') \<Rightarrow>
     tm_now t \<le> tm_now t' \<and> tm_now t' \<le> tm_now t + total_time lim + HEARTBEAT \<and>
     (\<exists>bs. tm_beats t' = bs @ tm_beats t \<and> spaced HEARTBEAT (tm_now t' # bs @ [tm_now t]))"
proof -
  obtain r t' k' where run: "timed_run script f sz sp lim t k = (r, t', k')" by (metis prod_cases3)
  then show ?thesis
  proof (cases rule: timed_run_cases)
    case (stopped e)
    with run show ?thesis by auto
  next
    case (probed k1 go t1 k2 e)
    with run probe_same [OF probed(1)] send_job_same show ?thesis by fastforce
  next
    case (ran k1 t1 k2 t2)
    have n: "tm_now t2 = tm_now t" "tm_beats t2 = tm_beats t"
      using probe_same [OF ran(1)] send_job_same [OF ran(2)] by simp_all
    from run_loop_time [OF ran(3)] n obtain bs where b: "tm_now t \<le> tm_now t'" "tm_now t' \<le> tm_now t + total_time lim + HEARTBEAT"
      "tm_beats t' = bs @ tm_beats t" "bs \<noteq> []" "last bs = tm_now t" "spaced HEARTBEAT (tm_now t' # bs)" by auto
    have "spaced HEARTBEAT ((tm_now t' # bs) @ [tm_now t])" using b(4-6) by (intro spaced_snoc) simp_all
    with run b show ?thesis by auto
  qed
qed

text \<open>C6: A transfer over the socket that reports success has filled its span: every byte of it is
  present in the file.  Whatever it reports, the file keeps its identity, size and mark, loses no byte
  that was present, and what earlier, abandoned transfers still write lies inside their own files.\<close>

theorem socket_transfer_covers:
  assumes "timed_run (\<lambda>q f sz sp. paced (d q) (socket_job fc tc (w q) (sf q) (plan q) (errno q) f sz sp)) f sz sp lim t k
             = (r, t', k')"
    and "timed_inv sizes t" "f_id (k_file k) = f" "f_size (k_file k) = sz" "sizes f = sz"
    and "unat (sp_offset sp) + unat (sp_len sp) \<le> unat sz" "unat (tm_seq t) + 1 < 2 ^ 64"
  shows "grown (k_file k) (k_file k') \<and> timed_inv sizes t' \<and>
    (\<forall>n. r = Inr n \<longrightarrow> span_bytes sp \<subseteq> present (k_file k'))"
  using socket.timed_run_keeps [OF assms] by blast

lemma socket_transfer_covers_witness:
  "\<exists>r t' k'. timed_run (\<lambda>q f sz sp. paced (\<lambda>_. 5) (socket_job request_codec sample_codec sample_net sample_fetch [] 0 f sz sp))
      (FileId 1 2) 3 (span_new 0 3) default_limits timed_new (sample_kernel []) = (r, t', k') \<and>
    grown sample_inode (k_file k')"
proof -
  obtain r t' k' where run: "timed_run (\<lambda>q f sz sp. paced (\<lambda>_. 5) (socket_job request_codec sample_codec sample_net sample_fetch [] 0 f sz sp))
      (FileId 1 2) 3 (span_new 0 3) default_limits timed_new (sample_kernel []) = (r, t', k')" by (metis prod_cases3)
  from socket_transfer_covers [where sizes = "\<lambda>_. 3" and d = "\<lambda>_ _. 5" and w = "\<lambda>_. sample_net" and sf = "\<lambda>_. sample_fetch"
      and plan = "\<lambda>_. []" and errno = "\<lambda>_. 0", OF run] run
  show ?thesis
    by (auto simp: timed_inv_def items_in_def timed_new_def sample_kernel_def sample_inode_def span_new_def)
qed

text \<open>A silent channel.\<close>

lemma silent_loop:
  assumes "run_loop want sp lim began w t k = (r, t', k')"
    and "tm_pending t = []" "\<not> tm_gone t" "wt_moved w = 0" "wt_deadline w \<le> began + total_time lim" "tm_now t \<le> wt_deadline w"
  shows "r = Inl NoFirstByte \<and> tm_now t' = wt_deadline w \<and> tm_missed t' = tm_missed t + 1 \<and> k' = k"
  using assms
proof (induction want sp lim began w t k rule: run_loop.induct)
  case (1 want sp lim began w t k)
  define t0 where "t0 = t\<lparr>tm_beats := tm_now t # tm_beats t\<rparr>"
  have rt: "run_turn want sp lim began w t k = run_wait want sp lim w t0 k"
    using 1(5-7) by (auto simp: run_turn_def announce_def Let_def t0_def)
  show ?case
  proof (cases "wt_deadline w = tm_now t")
    case True
    have "run_loop want sp lim began w t k = (Inl NoFirstByte, missed_one t0, k)"
      using True 1(5) by (subst run_loop.simps) (simp add: rt run_wait_def t0_def)
    with 1(2) True show ?thesis by (auto simp: t0_def missed_one_def start_clock_def)
  next
    case False
    define d where "d = min (wt_deadline w - tm_now t) HEARTBEAT"
    define t1 where "t1 = t0\<lparr>tm_now := tm_now t + d, tm_pending := [], tm_gone := False\<rparr>"
    have x: "run_turn want sp lim began w t k = (Again w, t1, k)"
      unfolding rt using False 1(3,4,7)
      by (simp add: run_wait_def recv_timeout_def t0_def t1_def d_def Let_def)
    then have rest: "run_loop want sp lim began w t1 k = (r, t', k')"
      using 1(2) by (subst (asm) run_loop.simps) simp
    have p: "tm_pending t1 = []" "\<not> tm_gone t1" "tm_now t1 \<le> wt_deadline w" "tm_missed t1 = tm_missed t"
      using 1(7) by (simp_all add: t1_def t0_def d_def)
    from 1(1) [OF x [symmetric] refl refl rest p(1,2) 1(5,6) p(3)] p(4) show ?thesis by simp
  qed
qed

lemma sys_call_no_faults: "k_plan k = [] \<Longrightarrow> sys_call (sys_return ()) k = (Inr (), k)"
  by (simp add: sys_call_def next_outcome_def sys_return_def)

text \<open>C34: A service that says nothing is given up on at the first-byte deadline exactly, whatever the
  other limits are: the transfer fails with \<open>NoFirstByte\<close>, the miss is counted, and the file is as it
  was.\<close>

theorem silent_service_times_out:
  assumes "tm_pending t = []" "\<not> tm_gone t" "\<not> expensive_to_probe t" "first_byte lim \<le> total_time lim"
    and "script (tm_seq t + 1) f sz sp = []" "k_plan k = []"
  shows "\<exists>t'. timed_run script f sz sp lim t k = (Inl NoFirstByte, t', k) \<and>
    tm_now t' = tm_now t + first_byte lim \<and> tm_missed t' = tm_missed t + 1"
proof -
  define t2 where "t2 = t\<lparr>tm_seq := tm_seq t + 1\<rparr>"
  obtain r t' k' where l: "run_loop (tm_seq t2) sp lim (tm_now t2)
      \<lparr>wt_deadline = tm_now t2 + first_byte lim, wt_moved = 0, wt_said = tm_now t2\<rparr> t2 k = (r, t', k')"
    by (metis prod_cases3)
  have "r = Inl NoFirstByte \<and> tm_now t' = tm_now t2 + first_byte lim \<and> tm_missed t' = tm_missed t2 + 1 \<and> k' = k"
    using silent_loop [OF l] assms by (simp add: t2_def)
  moreover have "send_job script f sz sp t = (True, t2\<lparr>tm_pending := []\<rparr>)"
    using assms by (simp add: send_job_def Let_def t2_def)
  moreover have "t2\<lparr>tm_pending := []\<rparr> = t2" using assms(1) by (simp add: t2_def)
  ultimately show ?thesis
    using l assms by (simp add: timed_run_def sys_call_no_faults probe_def) (simp add: t2_def)
qed

lemma silent_service_times_out_witness:
  "\<exists>t'. timed_run (\<lambda>_ _ _ _. []) (FileId 1 2) 3 (span_new 0 3) default_limits timed_new (sample_kernel [])
     = (Inl NoFirstByte, t', sample_kernel []) \<and> tm_now t' = 30000 \<and> tm_missed t' = 1"
  using silent_service_times_out [of timed_new default_limits "\<lambda>_ _ _ _. []" "FileId 1 2" 3 "span_new 0 3" "sample_kernel []"]
  by (simp add: timed_new_def expensive_to_probe_def WEDGED_AFTER_def default_limits_def FIRST_BYTE_BUDGET_def sample_kernel_def)

text \<open>Once three first bytes in a row were missed, a read costs no wait: if nothing has arrived
  since, the transfer fails at once as \<open>Unresponsive\<close>, with no request sent, no time passed and the
  file untouched.\<close>

theorem wedged_fetcher_denies_at_once:
  assumes "WEDGED_AFTER \<le> tm_missed t" "\<forall>it \<in> set (tm_pending t). tm_now t < fst it" "k_plan k = []"
  shows "\<exists>t'. timed_run script f sz sp lim t k = (Inl Unresponsive, t', k) \<and> tm_now t' = tm_now t \<and>
    tm_seq t' = tm_seq t \<and> tm_pending t' = tm_pending t"
proof -
  have r: "\<exists>r1 t1. recv_timeout 0 t k = (r1, t1, k) \<and> (\<forall>q st. r1 \<noteq> Msg q st) \<and> tm_now t1 = tm_now t \<and>
      tm_seq t1 = tm_seq t \<and> tm_pending t1 = tm_pending t"
  proof (cases "tm_pending t")
    case Nil
    then show ?thesis by (simp add: recv_timeout_def)
  next
    case (Cons it xs)
    obtain at q g ef where it: "it = (at, q, g, ef)" by (metis prod_cases4)
    with Cons assms(2) have "tm_now t < at" by simp
    with Cons it show ?thesis by (simp add: recv_timeout_def)
  qed
  then obtain r1 t1 where r1: "recv_timeout 0 t k = (r1, t1, k)" "\<forall>q st. r1 \<noteq> Msg q st" "tm_now t1 = tm_now t"
    "tm_seq t1 = tm_seq t" "tm_pending t1 = tm_pending t" by blast
  then have "drain t k = (False, t1, k)" by (subst drain.simps) (cases r1, simp_all)
  then have "probe t k = (False, t1, k)" using assms(1) by (simp add: probe_def expensive_to_probe_def)
  then show ?thesis using r1 assms(3) by (simp add: timed_run_def sys_call_no_faults)
qed

lemma wedged_fetcher_denies_at_once_witness:
  "\<exists>t'. timed_run (\<lambda>_ _ _ _. [(1, Said StepDone)]) (FileId 1 2) 3 (span_new 0 3) default_limits (timed_new\<lparr>tm_missed := 3\<rparr>)
      (sample_kernel []) = (Inl Unresponsive, t', sample_kernel []) \<and> tm_now t' = 0 \<and> tm_seq t' = 0 \<and> tm_pending t' = []"
  using wedged_fetcher_denies_at_once [of "timed_new\<lparr>tm_missed := 3\<rparr>" "sample_kernel []" "\<lambda>_ _ _ _. [(1, Said StepDone)]"
      "FileId 1 2" 3 "span_new 0 3" default_limits]
  by (simp add: timed_new_def WEDGED_AFTER_def sample_kernel_def)

section \<open>The counter of abandoned transfers\<close>

text \<open>What a turn keeps: at most one transfer counted, none once this one has moved.\<close>

definition counted_once :: "nat \<Rightarrow> limits \<Rightarrow> waiting \<Rightarrow> timed \<Rightarrow> bool" where
  "counted_once began lim w t \<longleftrightarrow> tm_abandoned t \<le> 1 \<and>
     (if wt_moved w = 0 then wt_deadline w \<le> began + total_time lim \<and> tm_now t \<le> wt_deadline w else tm_abandoned t = 0)"

lemma abandoned_counters [simp]:
  "tm_abandoned (answered t) = 0" "tm_abandoned (missed_one t) = tm_abandoned t"
  "tm_abandoned (lost_one t) = tm_abandoned t" "tm_abandoned (abandoned_one t) = tm_abandoned t + 1"
  by (simp_all add: answered_def missed_one_def lost_one_def abandoned_one_def start_clock_def)

lemma run_wait_counted:
  assumes "run_wait want sp lim w t k = (o1, t', k')" "counted_once began lim w t"
  shows "tm_abandoned t' \<le> 1 \<and> (\<forall>w'. o1 = Again w' \<longrightarrow> counted_once began lim w' t')"
  using assms(1)
proof (cases rule: run_wait_cases)
  case (early e)
  then show ?thesis using assms(2) by (cases "wt_moved w = 0") (auto simp: counted_once_def)
next
  case (again d r t2 w')
  note f = recv_timeout_facts(3,7) [OF again(2)]
  show ?thesis using again(8)
  proof (elim disjE exE conjE)
    assume "w' = w" "t' = t2"
    with again(1,5) f assms(2) show ?thesis by (auto simp: counted_once_def)
  next
    fix n assume "wt_moved w < n" "w' = w\<lparr>wt_moved := n, wt_deadline := tm_now t2 + stall lim\<rparr>"
      "t' = (if wt_moved w = 0 then answered t2 else t2)"
    with again(1) f assms(2) show ?thesis by (auto simp: counted_once_def)
  qed
next
  case (over d r t2 res)
  note f = recv_timeout_facts(7) [OF over(2)]
  from over(1,8) f assms(2) show ?thesis by (auto simp: counted_once_def)
qed

lemma run_loop_counted:
  assumes "run_loop want sp lim began w t k = (r, t', k')" "counted_once began lim w t"
  shows "tm_abandoned t' \<le> 1"
  using assms
proof (induction want sp lim began w t k rule: run_loop.induct)
  case (1 want sp lim began w t k)
  obtain o1 t1 k1 where x: "run_turn want sp lim began w t k = (o1, t1, k1)" by (metis prod_cases3)
  define t0 where "t0 = t\<lparr>tm_beats := tm_now t # tm_beats t\<rparr>"
  have c0: "counted_once began lim w t0" using 1(3) by (simp add: counted_once_def t0_def)
  have step: "tm_abandoned t1 \<le> 1 \<and> (\<forall>w'. o1 = Again w' \<longrightarrow> counted_once began lim w' t1)"
  proof (cases "total_time lim < tm_now t - began")
    case True
    then have "wt_moved w \<noteq> 0" using 1(3) by (auto simp: counted_once_def)
    then have "tm_abandoned t = 0" using 1(3) by (simp add: counted_once_def)
    then show ?thesis using x True by (auto simp: run_turn_def Let_def)
  next
    case False
    obtain w1 t2 where a: "announce sp w t0 = (w1, t2)" by fastforce
    have "run_wait want sp lim w1 t2 k = (o1, t1, k1)"
    proof -
      have "tm_now t0 = tm_now t" by (simp add: t0_def)
      with x a False show ?thesis by (auto simp: run_turn_def Let_def t0_def [symmetric])
    qed
    moreover have "counted_once began lim w1 t2"
      using c0 announce_same [OF a] by (simp add: counted_once_def)
    ultimately show ?thesis by (rule run_wait_counted)
  qed
  show ?case
  proof (cases o1)
    case (Again w1)
    then have "run_loop want sp lim began w1 t1 k1 = (r, t', k')"
      using 1(2) x by (subst (asm) run_loop.simps) simp
    from 1(1) [OF x [symmetric] Again refl this] step Again show ?thesis by simp
  next
    case (Over r1)
    then have "t' = t1" using 1(2) x by (subst (asm) run_loop.simps) simp
    with step show ?thesis by simp
  qed
qed

text \<open>The counter that was to judge a provider that starts every transfer and finishes none never gets
  there.  With a first-byte limit within the total one (as every configuration of the sources has), no run
  of transfers, whatever the provider does, counts a second abandoned transfer before the first byte of
  the next one resets the count; so the threshold of three is never reached by it.\<close>

theorem abandoned_never_wedges:
  assumes "timed_run script f sz sp lim t k = (r, t', k')" "first_byte lim \<le> total_time lim" "tm_abandoned t \<le> 1"
  shows "tm_abandoned t' \<le> 1 \<and> \<not> WEDGED_AFTER \<le> tm_abandoned t'"
proof -
  have p: "tm_abandoned t1 \<le> 1" if "probe t k1 = (go, t1, k2)" for k1 go t1 k2
    using that drain_facts [of t k1] assms(3) by (auto simp: probe_def split: if_splits prod.splits)
  have "tm_abandoned t' \<le> 1"
    using assms(1)
  proof (cases rule: timed_run_cases)
    case (stopped e)
    with assms(3) show ?thesis by simp
  next
    case (probed k1 go t1 k2 e)
    with p send_job_same show ?thesis by fastforce
  next
    case (ran k1 t1 k2 t2)
    have "tm_abandoned t2 \<le> 1" using p [OF ran(1)] send_job_same [OF ran(2)] by simp
    then show ?thesis using run_loop_counted [OF ran(3)] assms(2) by (simp add: counted_once_def)
  qed
  then show ?thesis by (simp add: WEDGED_AFTER_def word_le_nat_alt)
qed

lemma abandoned_never_wedges_witness:
  "\<exists>r t' k'. timed_run (\<lambda>_ _ _ _. [(1, Wrote 0 [7]), (0, Said (Progress 1))]) (FileId 1 2) 3 (span_new 0 3) default_limits
      (timed_new\<lparr>tm_abandoned := 1\<rparr>) (sample_kernel []) = (r, t', k') \<and> tm_abandoned t' \<le> 1"
proof -
  obtain r t' k' where run: "timed_run (\<lambda>_ _ _ _. [(1, Wrote 0 [7]), (0, Said (Progress 1))]) (FileId 1 2) 3 (span_new 0 3)
      default_limits (timed_new\<lparr>tm_abandoned := 1\<rparr>) (sample_kernel []) = (r, t', k')" by (metis prod_cases3)
  from abandoned_never_wedges [OF run] run show ?thesis
    by (simp add: default_limits_def FIRST_BYTE_BUDGET_def timed_new_def)
qed

end
