(* ===== verification/Fanotify.thy ===== *)
theory Fanotify
  imports Prelude "HOL-Library.List_Lexorder"
begin

text \<open>
  \<open>crates/hydrationd/src/fanotify.rs\<close>: the words the kernel is answered with, and the decoder of
  the buffer its events arrive in.  A read of the buffer outside its bounds (a slice that panics, or an
  unaligned read past the end) is the result \<open>None\<close>, so that a decoder that is total has none.
  The machine is little-endian, offsets are \<open>usize\<close> and never near its limit.
\<close>

unbundle bit_operations_syntax

section \<open>Constants\<close>

definition FAN_ALLOW :: u32 where "FAN_ALLOW = 0x01"
definition FAN_DENY :: u32 where "FAN_DENY = 0x02"
definition FAN_MARK_IGNORE :: u32 where "FAN_MARK_IGNORE = 0x400"
definition FAN_MARK_IGNORED_SURV_MODIFY :: u32 where "FAN_MARK_IGNORED_SURV_MODIFY = 0x40"

definition FAN_MARK_IGNORE_SURV :: u32 where
  "FAN_MARK_IGNORE_SURV = FAN_MARK_IGNORE OR FAN_MARK_IGNORED_SURV_MODIFY"

definition INFO_RANGE :: u8 where "INFO_RANGE = 6"
definition INFO_PIDFD :: u8 where "INFO_PIDFD = 4"
definition INFO_MNT :: u8 where "INFO_MNT = 7"

definition deny_with :: "int \<Rightarrow> u32" where
  "deny_with errno = FAN_DENY OR (push_bit 24 ((word_of_int errno :: u32) AND 0xff))"

section \<open>The group\<close>

text \<open>
  What this process asked of its group: the responses the kernel accepted, in order, and the paths
  whose events are ignored.  \<open>gr_plan\<close> lists the errors of the calls still to come (\<open>None\<close> succeeds,
  and so does every call after the list is used up).
\<close>

record group =
  gr_plan :: "io_error option list"
  gr_answers :: "(int \<times> u32) list"
  gr_ignored :: "string list"

definition group_call :: "(group \<Rightarrow> (io_error + unit) \<times> group) \<Rightarrow> group \<Rightarrow> (io_error + unit) \<times> group" where
  "group_call act g =
     (case gr_plan g of
        Some e # ps \<Rightarrow> (Inl e, g\<lparr>gr_plan := ps\<rparr>)
      | ps \<Rightarrow> act (g\<lparr>gr_plan := tl ps\<rparr>))"

definition respond_raw :: "int \<Rightarrow> u32 \<Rightarrow> group \<Rightarrow> (io_error + unit) \<times> group" where
  "respond_raw fd resp = group_call (\<lambda>g. (Inr (), g\<lparr>gr_answers := gr_answers g @ [(fd, resp)]\<rparr>))"

text \<open>\<open>mark\<close> refuses a path with a nul before it calls the kernel.\<close>

definition group_mark :: "string \<Rightarrow> (group \<Rightarrow> (io_error + unit) \<times> group) \<Rightarrow> group \<Rightarrow> (io_error + unit) \<times> group" where
  "group_mark path act g =
     (if CHR 0x00 \<in> set path then (Inl (Custom InvalidInput), g) else group_call act g)"

definition group_ignore :: "string \<Rightarrow> group \<Rightarrow> (io_error + unit) \<times> group" where
  "group_ignore path =
     group_mark path (\<lambda>g. (Inr (), g\<lparr>gr_ignored := List.insert path (gr_ignored g)\<rparr>))"

text \<open>Removing a mark that is not there is \<open>ENOENT\<close>.\<close>

definition group_unignore :: "string \<Rightarrow> group \<Rightarrow> (io_error + unit) \<times> group" where
  "group_unignore path =
     group_mark path
       (\<lambda>g. if path \<in> set (gr_ignored g) then (Inr (), g\<lparr>gr_ignored := removeAll path (gr_ignored g)\<rparr>)
            else (Inl (Os ENOENT), g))"

section \<open>Reading the buffer\<close>

definition slice :: "u8 list \<Rightarrow> nat \<Rightarrow> nat \<Rightarrow> u8 list option" where
  "slice buf off n = (if off + n \<le> length buf then Some (take n (drop off buf)) else None)"

fun from_le :: "u8 list \<Rightarrow> nat" where
  "from_le [] = 0"
| "from_le (b # bs) = unat b + 256 * from_le bs"

text \<open>A field read as \<open>u64\<close>, and one read as \<open>i32\<close>.\<close>

definition u64_of :: "u8 list \<Rightarrow> u64" where
  "u64_of bs = of_nat (from_le bs)"

definition i32_of :: "u8 list \<Rightarrow> int" where
  "i32_of bs = sint (of_nat (from_le bs) :: u32)"

record event =
  ev_mask :: u64
  ev_fd :: int
  ev_pid :: int
  ev_range :: "(u64 \<times> u64) option"
  ev_pidfd :: "int option"
  ev_mnt_id :: "u64 option"

definition META_SZ :: nat where "META_SZ = 24"

text \<open>One info record of type \<open>ty\<close> and length \<open>hlen\<close>; an unknown or short one changes nothing.\<close>

definition decode_record :: "u8 list \<Rightarrow> nat \<Rightarrow> u8 \<Rightarrow> nat \<Rightarrow> event \<Rightarrow> event option" where
  "decode_record buf rec ty hlen ev =
     (if ty = INFO_RANGE \<and> 24 \<le> hlen then
        (case (slice buf (rec + 8) 8, slice buf (rec + 16) 8) of
           (Some a, Some b) \<Rightarrow> Some (ev\<lparr>ev_range := Some (u64_of a, u64_of b)\<rparr>)
         | _ \<Rightarrow> None)
      else if ty = INFO_PIDFD \<and> 8 \<le> hlen then
        (case slice buf (rec + 4) 4 of
           Some a \<Rightarrow> Some (if 0 \<le> i32_of a then ev\<lparr>ev_pidfd := Some (i32_of a)\<rparr> else ev)
         | None \<Rightarrow> None)
      else if ty = INFO_MNT \<and> 16 \<le> hlen then
        (case slice buf (rec + 8) 8 of
           Some a \<Rightarrow> Some (ev\<lparr>ev_mnt_id := Some (u64_of a)\<rparr>)
         | None \<Rightarrow> None)
      else Some ev)"

function walk_records :: "u8 list \<Rightarrow> nat \<Rightarrow> nat \<Rightarrow> event \<Rightarrow> event option" where
  "walk_records buf rec en ev =
     (if rec + 4 \<le> en then
        (case slice buf rec 4 of
           None \<Rightarrow> None
         | Some h \<Rightarrow>
             let hlen = from_le (drop 2 h)
             in if hlen = 0 \<or> en < rec + hlen then Some ev
                else (case decode_record buf rec (h ! 0) hlen ev of
                        None \<Rightarrow> None
                      | Some ev' \<Rightarrow> walk_records buf (rec + hlen) en ev'))
      else Some ev)"
  by pat_completeness auto

termination
  by (relation "measure (\<lambda>(_, rec, en, _). en - rec)") auto

declare walk_records.simps [simp del]

text \<open>The fixed part of an event.\<close>

definition decode_meta :: "u8 list \<Rightarrow> event" where
  "decode_meta m =
     \<lparr>ev_mask = u64_of (take 8 (drop 8 m)), ev_fd = i32_of (take 4 (drop 16 m)),
      ev_pid = i32_of (take 4 (drop 20 m)), ev_range = None, ev_pidfd = None, ev_mnt_id = None\<rparr>"

function walk_events :: "u8 list \<Rightarrow> nat \<Rightarrow> nat \<Rightarrow> event list option" where
  "walk_events buf n off =
     (if off + META_SZ \<le> n then
        (case slice buf off META_SZ of
           None \<Rightarrow> None
         | Some m \<Rightarrow>
             let event_len = from_le (take 4 m)
             in if event_len < META_SZ \<or> n < off + event_len then Some []
                else (case walk_records buf (off + META_SZ) (off + event_len) (decode_meta m) of
                        None \<Rightarrow> None
                      | Some ev \<Rightarrow> map_option ((#) ev) (walk_events buf n (off + event_len))))
      else Some [])"
  by pat_completeness auto

termination
  by (relation "measure (\<lambda>(_, n, off). n - off)") (auto simp: META_SZ_def)

declare walk_events.simps [simp del]

definition events :: "u8 list \<Rightarrow> nat \<Rightarrow> event list option" where
  "events buf n = walk_events buf n 0"

section \<open>The decoder stays in its buffer\<close>

lemma slice_Some: "off + n \<le> length buf \<Longrightarrow> slice buf off n = Some (take n (drop off buf))"
  by (simp add: slice_def)

lemma decode_record_total:
  "rec + hlen \<le> length buf \<Longrightarrow> \<exists>ev'. decode_record buf rec ty hlen ev = Some ev'"
  by (auto simp: decode_record_def slice_Some)

text \<open>What was taken from a record for a descriptor is one.\<close>

definition event_ok :: "event \<Rightarrow> bool" where
  "event_ok ev \<longleftrightarrow> (case ev_pidfd ev of Some fd \<Rightarrow> 0 \<le> fd | None \<Rightarrow> True)"

lemma decode_record_ok:
  "decode_record buf rec ty hlen ev = Some ev' \<Longrightarrow> event_ok ev \<Longrightarrow>
     event_ok ev' \<and> ev_fd ev' = ev_fd ev \<and> ev_pid ev' = ev_pid ev \<and> ev_mask ev' = ev_mask ev"
  by (auto simp: decode_record_def event_ok_def split: if_splits option.splits)

lemma walk_records_total:
  assumes "en \<le> length buf" "event_ok ev"
  shows "\<exists>ev'. walk_records buf rec en ev = Some ev' \<and> event_ok ev' \<and>
    ev_fd ev' = ev_fd ev \<and> ev_pid ev' = ev_pid ev \<and> ev_mask ev' = ev_mask ev"
  using assms
proof (induction buf rec en ev rule: walk_records.induct)
  case (1 buf rec en ev)
  show ?case
  proof (cases "rec + 4 \<le> en")
    case False
    with 1 show ?thesis by (subst walk_records.simps) simp
  next
    case True
    define h where "h = take 4 (drop rec buf)"
    define hlen where "hlen = from_le (drop 2 h)"
    have s: "slice buf rec 4 = Some h" using True 1(2) by (simp add: slice_Some h_def)
    show ?thesis
    proof (cases "hlen = 0 \<or> en < rec + hlen")
      case stop: True
      have "walk_records buf rec en ev = Some ev"
        using True s stop by (subst walk_records.simps) (simp add: hlen_def [symmetric])
      with 1(3) show ?thesis by simp
    next
      case go: False
      then obtain ev1 where d: "decode_record buf rec (h ! 0) hlen ev = Some ev1"
        using decode_record_total [of rec hlen buf "h ! 0" ev] 1(2) by auto
      have "walk_records buf rec en ev = walk_records buf (rec + hlen) en ev1"
        using True s go d by (subst walk_records.simps) (simp add: hlen_def [symmetric])
      with 1(1) [OF True s hlen_def go d 1(2)] decode_record_ok [OF d 1(3)] show ?thesis by simp
    qed
  qed
qed

lemma event_ok_meta: "event_ok (decode_meta m)"
  by (simp add: event_ok_def decode_meta_def)

lemma walk_events_total:
  assumes "n \<le> length buf" "off \<le> n"
  shows "\<exists>evs. walk_events buf n off = Some evs \<and> list_all event_ok evs \<and> META_SZ * length evs \<le> n - off"
  using assms
proof (induction buf n off rule: walk_events.induct)
  case (1 buf n off)
  show ?case
  proof (cases "off + META_SZ \<le> n")
    case False
    then show ?thesis by (subst walk_events.simps) simp
  next
    case True
    define m where "m = take META_SZ (drop off buf)"
    define l where "l = from_le (take 4 m)"
    have s: "slice buf off META_SZ = Some m" using True 1(2) by (simp add: slice_Some m_def)
    show ?thesis
    proof (cases "l < META_SZ \<or> n < off + l")
      case stop: True
      then have "walk_events buf n off = Some []"
        using True s by (subst walk_events.simps) (simp add: l_def [symmetric])
      then show ?thesis by simp
    next
      case go: False
      then obtain ev where r: "walk_records buf (off + META_SZ) (off + l) (decode_meta m) = Some ev" "event_ok ev"
        using walk_records_total [of "off + l" buf "decode_meta m" "off + META_SZ"] 1(2) event_ok_meta by auto
      have "off + l \<le> n" using go by simp
      from 1(1) [OF True s l_def go r(1) 1(2) this] obtain evs where
        e: "walk_events buf n (off + l) = Some evs" "list_all event_ok evs" "META_SZ * length evs \<le> n - (off + l)"
        by blast
      have "walk_events buf n off = Some (ev # evs)"
        using True s go r e by (subst walk_events.simps) (simp add: l_def [symmetric])
      then show ?thesis using e r go by (auto simp: algebra_simps)
    qed
  qed
qed

section \<open>What the kernel writes\<close>

fun to_le :: "nat \<Rightarrow> nat \<Rightarrow> u8 list" where
  "to_le 0 x = []"
| "to_le (Suc n) x = of_nat (x mod 256) # to_le n (x div 256)"

lemma length_to_le [simp]: "length (to_le n x) = n"
  by (induction n arbitrary: x) auto

lemma from_to_le: "x < 256 ^ n \<Longrightarrow> from_le (to_le n x) = x"
proof (induction n arbitrary: x)
  case (Suc n)
  have "x div 256 < 256 ^ n" using Suc(2) by (simp add: less_mult_imp_div_less mult.commute)
  moreover have "unat (of_nat (x mod 256) :: u8) = x mod 256" by (simp add: unat_of_nat take_bit_eq_mod)
  ultimately show ?case using Suc(1) by simp
qed simp

lemma from_to_le_short:
  "from_le (to_le 4 x) = x" if "x < 2 ^ 32"
  using from_to_le [of x 4] that by simp

lemma from_to_le_two: "x < 2 ^ 16 \<Longrightarrow> from_le (to_le 2 x) = x"
  using from_to_le [of x 2] by simp

lemma u64_of_to_le [simp]: "u64_of (to_le 8 (unat w)) = (w :: u64)"
  using from_to_le [of "unat w" 8] unsigned_less [of w, where ?'a = nat] by (simp add: u64_of_def)

lemma i32_of_to_le [simp]:
  "- (2 ^ 31) \<le> i \<Longrightarrow> i < 2 ^ 31 \<Longrightarrow> i32_of (to_le 4 (unat (word_of_int i :: u32))) = i"
  using from_to_le [of "unat (word_of_int i :: u32)" 4] unsigned_less [of "word_of_int i :: u32", where ?'a = nat]
  by (simp add: i32_of_def sint_sbintrunc' signed_take_bit_int_eq_self)

text \<open>The records of an event in the order the kernel puts them, and the event itself.\<close>

definition pidfd_part :: "int option \<Rightarrow> u8 list" where
  "pidfd_part x = (case x of None \<Rightarrow> [] | Some fd \<Rightarrow> [INFO_PIDFD, 0] @ to_le 2 8 @ to_le 4 (unat (word_of_int fd :: u32)))"

definition range_part :: "(u64 \<times> u64) option \<Rightarrow> u8 list" where
  "range_part x =
     (case x of None \<Rightarrow> []
      | Some (a, b) \<Rightarrow> [INFO_RANGE, 0] @ to_le 2 24 @ to_le 4 0 @ to_le 8 (unat a) @ to_le 8 (unat b))"

definition mnt_part :: "u64 option \<Rightarrow> u8 list" where
  "mnt_part x = (case x of None \<Rightarrow> [] | Some i \<Rightarrow> [INFO_MNT, 0] @ to_le 2 16 @ to_le 4 0 @ to_le 8 (unat i))"

definition encode_records :: "event \<Rightarrow> u8 list" where
  "encode_records ev = pidfd_part (ev_pidfd ev) @ range_part (ev_range ev) @ mnt_part (ev_mnt_id ev)"

definition encode_meta :: "event \<Rightarrow> u8 list" where
  "encode_meta ev =
     to_le 4 (24 + length (encode_records ev)) @ [3, 0] @ to_le 2 24 @ to_le 8 (unat (ev_mask ev)) @
     to_le 4 (unat (word_of_int (ev_fd ev) :: u32)) @ to_le 4 (unat (word_of_int (ev_pid ev) :: u32))"

definition encode_event :: "event \<Rightarrow> u8 list" where
  "encode_event ev = encode_meta ev @ encode_records ev"

definition i32_ok :: "int \<Rightarrow> bool" where
  "i32_ok i \<longleftrightarrow> - (2 ^ 31) \<le> i \<and> i < 2 ^ 31"

definition encodable :: "event \<Rightarrow> bool" where
  "encodable ev \<longleftrightarrow> i32_ok (ev_fd ev) \<and> i32_ok (ev_pid ev) \<and>
     (case ev_pidfd ev of Some fd \<Rightarrow> 0 \<le> fd \<and> i32_ok fd | None \<Rightarrow> True)"

section \<open>The decoder reads back what the kernel wrote\<close>

lemma slice_inside:
  assumes "drop rec buf = r @ rest" "a + n \<le> length r" "0 < n"
  shows "slice buf (rec + a) n = Some (take n (drop a r))"
proof -
  have "length buf - rec = length r + length rest" using assms(1) by (metis length_append length_drop)
  moreover have "drop (rec + a) buf = drop a r @ rest"
  proof -
    have "drop (rec + a) buf = drop a (drop rec buf)" by (simp add: add.commute)
    then show ?thesis using assms by simp
  qed
  moreover have "rec + (a + n) \<le> length buf"
    using calculation(1) assms(2,3) by linarith
  ultimately show ?thesis using assms(2) by (simp add: slice_def add.assoc)
qed

lemma slice_mid:
  assumes "drop rec buf = (xs @ ys @ zs) @ rest" "length xs = a" "length ys = n" "0 < n"
  shows "slice buf (rec + a) n = Some ys"
  using slice_inside [OF assms(1), of a n] assms(2-4) by simp

lemma walk_records_step:
  assumes "drop rec buf = r @ rest" "r = [ty, p] @ to_le 2 n @ body" "length r = n" "n < 2 ^ 16"
    and "rec + n \<le> en" "decode_record buf rec ty n ev = Some ev'"
  shows "walk_records buf rec en ev = walk_records buf (rec + n) en ev'"
proof -
  have l: "4 \<le> n" using assms(2,3) by auto
  have s: "slice buf rec 4 = Some ([ty, p] @ to_le 2 n)"
    using assms(1) slice_mid [of rec buf "[]" "[ty, p] @ to_le 2 n" body rest 0 4] by (simp add: assms(2))
  have hl: "from_le (drop 2 ([ty, p] @ to_le 2 n)) = n" using assms(4) by (simp add: from_to_le_two)
  show ?thesis
    using assms(5,6) s hl l by (subst walk_records.simps) (simp add: Let_def)
qed

lemma walk_records_end: "en < rec + 4 \<Longrightarrow> walk_records buf rec en ev = Some ev"
  by (subst walk_records.simps) simp

lemma walk_pidfd:
  assumes "drop rec buf = ([INFO_PIDFD, 0] @ to_le 2 8 @ to_le 4 (unat (word_of_int fd :: u32))) @ rest"
    and "rec + 8 \<le> en" "0 \<le> fd" "i32_ok fd"
  shows "walk_records buf rec en ev = walk_records buf (rec + 8) en (ev\<lparr>ev_pidfd := Some fd\<rparr>)"
proof -
  let ?r = "[INFO_PIDFD, 0] @ to_le 2 8 @ to_le 4 (unat (word_of_int fd :: u32))"
  have "slice buf (rec + 4) 4 = Some (to_le 4 (unat (word_of_int fd :: u32)))"
    using assms(1) by (intro slice_mid [of _ _ "[INFO_PIDFD, 0] @ to_le 2 8" _ "[]" rest]) simp_all
  then have "decode_record buf rec INFO_PIDFD 8 ev = Some (ev\<lparr>ev_pidfd := Some fd\<rparr>)"
    using assms(3,4) by (simp add: decode_record_def INFO_PIDFD_def INFO_RANGE_def i32_ok_def)
  then show ?thesis
    using walk_records_step [OF assms(1), of INFO_PIDFD 0 8 "to_le 4 (unat (word_of_int fd :: u32))" en ev] assms(2) by simp
qed

lemma walk_range:
  assumes "drop rec buf = ([INFO_RANGE, 0] @ to_le 2 24 @ to_le 4 0 @ to_le 8 (unat a) @ to_le 8 (unat b)) @ rest"
    and "rec + 24 \<le> en"
  shows "walk_records buf rec en ev = walk_records buf (rec + 24) en (ev\<lparr>ev_range := Some (a, b)\<rparr>)"
proof -
  have "slice buf (rec + 8) 8 = Some (to_le 8 (unat a))"
    using assms(1)
    by (intro slice_mid [of _ _ "[INFO_RANGE, 0] @ to_le 2 24 @ to_le 4 0" _ "to_le 8 (unat b)" rest]) simp_all
  moreover have "slice buf (rec + 16) 8 = Some (to_le 8 (unat b))"
    using assms(1)
    by (intro slice_mid [of _ _ "[INFO_RANGE, 0] @ to_le 2 24 @ to_le 4 0 @ to_le 8 (unat a)" _ "[]" rest]) simp_all
  ultimately have "decode_record buf rec INFO_RANGE 24 ev = Some (ev\<lparr>ev_range := Some (a, b)\<rparr>)"
    by (simp add: decode_record_def)
  then show ?thesis
    using walk_records_step [OF assms(1), of INFO_RANGE 0 24 "to_le 4 0 @ to_le 8 (unat a) @ to_le 8 (unat b)" en ev]
      assms(2) by simp
qed

lemma walk_mnt:
  assumes "drop rec buf = ([INFO_MNT, 0] @ to_le 2 16 @ to_le 4 0 @ to_le 8 (unat i)) @ rest" "rec + 16 \<le> en"
  shows "walk_records buf rec en ev = walk_records buf (rec + 16) en (ev\<lparr>ev_mnt_id := Some i\<rparr>)"
proof -
  have "slice buf (rec + 8) 8 = Some (to_le 8 (unat i))"
    using assms(1) by (intro slice_mid [of _ _ "[INFO_MNT, 0] @ to_le 2 16 @ to_le 4 0" _ "[]" rest]) simp_all
  then have "decode_record buf rec INFO_MNT 16 ev = Some (ev\<lparr>ev_mnt_id := Some i\<rparr>)"
    by (simp add: decode_record_def INFO_PIDFD_def INFO_RANGE_def INFO_MNT_def)
  then show ?thesis
    using walk_records_step [OF assms(1), of INFO_MNT 0 16 "to_le 4 0 @ to_le 8 (unat i)" en ev] assms(2) by simp
qed

lemma drop_plus: "drop rec buf = r @ rest \<Longrightarrow> drop (rec + length r) buf = rest"
  by (metis append_eq_conv_conj drop_drop add.commute)

lemma event_same:
  "ev_pidfd ev = None \<Longrightarrow> ev\<lparr>ev_pidfd := None\<rparr> = ev" "ev_range ev = None \<Longrightarrow> ev\<lparr>ev_range := None\<rparr> = ev"
  "ev_mnt_id ev = None \<Longrightarrow> ev\<lparr>ev_mnt_id := None\<rparr> = ev"
  by (cases ev, simp)+

lemma walk_pidfd_part:
  assumes "drop rec buf = pidfd_part x @ rest" "rec + length (pidfd_part x) \<le> en"
    and "case x of Some fd \<Rightarrow> 0 \<le> fd \<and> i32_ok fd | None \<Rightarrow> True" "ev_pidfd ev = None"
  shows "walk_records buf rec en ev = walk_records buf (rec + length (pidfd_part x)) en (ev\<lparr>ev_pidfd := x\<rparr>)"
proof (cases x)
  case (Some fd)
  with assms show ?thesis using walk_pidfd [of rec buf fd rest en ev] by (simp add: pidfd_part_def)
qed (use assms in \<open>simp add: pidfd_part_def event_same\<close>)

lemma walk_range_part:
  assumes "drop rec buf = range_part x @ rest" "rec + length (range_part x) \<le> en" "ev_range ev = None"
  shows "walk_records buf rec en ev = walk_records buf (rec + length (range_part x)) en (ev\<lparr>ev_range := x\<rparr>)"
proof (cases x)
  case (Some ab)
  then obtain a b where "x = Some (a, b)" by (cases ab) auto
  with assms show ?thesis using walk_range [of rec buf a b rest en ev] by (simp add: range_part_def)
qed (use assms in \<open>simp add: range_part_def event_same\<close>)

lemma walk_mnt_part:
  assumes "drop rec buf = mnt_part x @ rest" "rec + length (mnt_part x) \<le> en" "ev_mnt_id ev = None"
  shows "walk_records buf rec en ev = walk_records buf (rec + length (mnt_part x)) en (ev\<lparr>ev_mnt_id := x\<rparr>)"
proof (cases x)
  case (Some i)
  with assms show ?thesis using walk_mnt [of rec buf i rest en ev] by (simp add: mnt_part_def)
qed (use assms in \<open>simp add: mnt_part_def event_same\<close>)

lemma walk_encoded:
  assumes "drop rec buf = encode_records ev @ rest" "encodable ev"
    and "ev0 = ev\<lparr>ev_pidfd := None, ev_range := None, ev_mnt_id := None\<rparr>"
  shows "walk_records buf rec (rec + length (encode_records ev)) ev0 = Some ev"
proof -
  define en where "en = rec + length (encode_records ev)"
  define r1 where "r1 = rec + length (pidfd_part (ev_pidfd ev))"
  define r2 where "r2 = r1 + length (range_part (ev_range ev))"
  have d0: "drop rec buf = pidfd_part (ev_pidfd ev) @ range_part (ev_range ev) @ mnt_part (ev_mnt_id ev) @ rest"
    using assms(1) by (simp add: encode_records_def)
  then have d1: "drop r1 buf = range_part (ev_range ev) @ mnt_part (ev_mnt_id ev) @ rest"
    unfolding r1_def by (rule drop_plus)
  then have d2: "drop r2 buf = mnt_part (ev_mnt_id ev) @ rest" unfolding r2_def by (rule drop_plus)
  have en: "en = r2 + length (mnt_part (ev_mnt_id ev))"
    by (simp add: en_def r2_def r1_def encode_records_def)
  have "walk_records buf rec en ev0 = walk_records buf r1 en (ev0\<lparr>ev_pidfd := ev_pidfd ev\<rparr>)"
    unfolding r1_def using assms(2,3) en r2_def r1_def
    by (intro walk_pidfd_part [OF d0]) (simp_all add: encodable_def)
  also have "\<dots> = walk_records buf r2 en (ev0\<lparr>ev_pidfd := ev_pidfd ev, ev_range := ev_range ev\<rparr>)"
    unfolding r2_def using assms(3) en r2_def by (subst walk_range_part [OF d1]) simp_all
  also have "\<dots> = walk_records buf en en (ev0\<lparr>ev_pidfd := ev_pidfd ev, ev_range := ev_range ev, ev_mnt_id := ev_mnt_id ev\<rparr>)"
    using assms(3) en by (subst walk_mnt_part [OF d2]) simp_all
  also have "ev0\<lparr>ev_pidfd := ev_pidfd ev, ev_range := ev_range ev, ev_mnt_id := ev_mnt_id ev\<rparr> = ev"
    by (simp add: assms(3))
  finally show ?thesis by (simp add: walk_records_end en_def [symmetric])
qed

lemma take_drop_mid: "length xs = a \<Longrightarrow> length ys = n \<Longrightarrow> take n (drop a (xs @ ys @ zs)) = ys"
  by simp

lemma length_encode_meta: "length (encode_meta ev) = META_SZ"
  by (simp add: encode_meta_def META_SZ_def)

lemma length_encode_records: "length (encode_records ev) \<le> 48"
  by (auto simp: encode_records_def pidfd_part_def range_part_def mnt_part_def split: option.splits)

lemma decode_meta_encode:
  assumes "encodable ev"
  shows "decode_meta (encode_meta ev) = ev\<lparr>ev_pidfd := None, ev_range := None, ev_mnt_id := None\<rparr>"
proof -
  let ?len = "to_le 4 (24 + length (encode_records ev))" and ?mask = "to_le 8 (unat (ev_mask ev))"
  let ?fd = "to_le 4 (unat (word_of_int (ev_fd ev) :: u32))" and ?pid = "to_le 4 (unat (word_of_int (ev_pid ev) :: u32))"
  have m: "encode_meta ev = (?len @ [3, 0] @ to_le 2 24) @ ?mask @ ?fd @ ?pid"
    "encode_meta ev = (?len @ [3, 0] @ to_le 2 24 @ ?mask) @ ?fd @ ?pid"
    "encode_meta ev = (?len @ [3, 0] @ to_le 2 24 @ ?mask @ ?fd) @ ?pid @ []"
    by (simp_all add: encode_meta_def)
  have "take 8 (drop 8 (encode_meta ev)) = ?mask" unfolding m(1) by (rule take_drop_mid) simp_all
  moreover have "take 4 (drop 16 (encode_meta ev)) = ?fd" unfolding m(2) by (rule take_drop_mid) simp_all
  moreover have "take 4 (drop 20 (encode_meta ev)) = ?pid" unfolding m(3) by (rule take_drop_mid) simp_all
  ultimately show ?thesis using assms by (simp add: decode_meta_def encodable_def i32_ok_def)
qed

lemma event_len_encode: "from_le (take 4 (encode_meta ev)) = META_SZ + length (encode_records ev)"
proof -
  have "take 4 (encode_meta ev) = to_le 4 (24 + length (encode_records ev))" by (simp add: encode_meta_def)
  then show ?thesis using length_encode_records [of ev] by (simp add: from_to_le_short META_SZ_def)
qed

lemma walk_events_encoded:
  assumes "list_all encodable evs" "drop off buf = concat (map encode_event evs)" "off \<le> length buf"
  shows "walk_events buf (length buf) off = Some evs"
  using assms
proof (induction evs arbitrary: off)
  case Nil
  then have "off = length buf" by simp
  then show ?case by (subst walk_events.simps) (simp add: META_SZ_def)
next
  case (Cons ev evs)
  define l where "l = META_SZ + length (encode_records ev)"
  have d: "drop off buf = encode_meta ev @ encode_records ev @ concat (map encode_event evs)"
    using Cons(3) by (simp add: encode_event_def [of ev])
  have le: "off + l \<le> length buf"
  proof -
    have "length buf - off = l + length (concat (map encode_event evs))"
      by (metis d l_def length_append length_drop length_encode_meta add.assoc)
    with Cons(4) show ?thesis by simp
  qed
  have s: "slice buf off META_SZ = Some (encode_meta ev)"
    using slice_mid [of off buf "[]" "encode_meta ev" "[]" "encode_records ev @ concat (map encode_event evs)" 0 META_SZ]
      d length_encode_meta by (simp add: META_SZ_def)
  have d1: "drop (off + META_SZ) buf = encode_records ev @ concat (map encode_event evs)"
    using drop_plus [OF d] by (simp add: length_encode_meta)
  then have d2: "drop (off + l) buf = concat (map encode_event evs)"
    using drop_plus [OF d1] by (simp add: l_def add.assoc)
  have en: "encodable ev" using Cons(2) by simp
  have r: "walk_records buf (off + META_SZ) (off + l) (decode_meta (encode_meta ev)) = Some ev"
    using walk_encoded [OF d1 en decode_meta_encode [OF en]] by (simp add: l_def add.assoc)
  have "walk_events buf (length buf) (off + l) = Some evs" using Cons(1) [OF _ d2 le] Cons(2) by simp
  then show ?case
    using s r le by (subst walk_events.simps) (simp add: event_len_encode l_def [symmetric] Let_def, simp add: l_def)
qed

section \<open>Properties\<close>

text \<open>C31: The decoder of the kernel's events never leaves its buffer and never hangs, whatever the bytes
  are: every buffer decodes to a list of at most one event for every 24 bytes, and no number the kernel
  wrote for "no descriptor" is taken for one.\<close>

theorem events_total:
  assumes "n \<le> length buf"
  shows "\<exists>evs. events buf n = Some evs \<and> META_SZ * length evs \<le> n \<and>
    list_all (\<lambda>ev. ev_pidfd ev \<noteq> Some (- 1) \<and> ev_pidfd ev \<noteq> Some (- 2)) evs"
proof -
  obtain evs where e: "walk_events buf n 0 = Some evs" "list_all event_ok evs" "META_SZ * length evs \<le> n"
    using walk_events_total [of n buf 0] assms by auto
  have "list_all (\<lambda>ev. ev_pidfd ev \<noteq> Some (- 1) \<and> ev_pidfd ev \<noteq> Some (- 2)) evs"
    using e(2) by (auto simp: list_all_iff event_ok_def)
  with e show ?thesis by (auto simp: events_def)
qed

lemma events_total_witness:
  "\<exists>evs. events (replicate 40 255) 40 = Some evs \<and> META_SZ * length evs \<le> 40"
  using events_total [of 40 "replicate 40 255"] by auto

text \<open>What the kernel wrote is what the worker sees: a buffer holding any sequence of events, each with
  its pidfd, range and mount records or without them, decodes to that sequence.\<close>

theorem events_round_trip:
  assumes "list_all encodable evs"
  shows "events (concat (map encode_event evs)) (length (concat (map encode_event evs))) = Some evs"
  unfolding events_def using walk_events_encoded [OF assms, of 0 "concat (map encode_event evs)"] by simp

lemma events_round_trip_witness:
  "events (concat (map encode_event [\<lparr>ev_mask = 0x100000, ev_fd = 7, ev_pid = 42, ev_range = Some (4096, 512),
       ev_pidfd = Some 9, ev_mnt_id = None\<rparr>]))
     (length (concat (map encode_event [\<lparr>ev_mask = 0x100000, ev_fd = 7, ev_pid = 42, ev_range = Some (4096, 512),
       ev_pidfd = Some 9, ev_mnt_id = None\<rparr>])))
   = Some [\<lparr>ev_mask = 0x100000, ev_fd = 7, ev_pid = 42, ev_range = Some (4096, 512), ev_pidfd = Some 9, ev_mnt_id = None\<rparr>]"
  by (rule events_round_trip) (simp add: encodable_def i32_ok_def)

end
