(* ===== verification/Supervisor.thy ===== *)
theory Supervisor
  imports Fanotify
begin

text \<open>
  \<open>crates/hydrationd/src/supervisor.rs\<close> and the supervisor's half of
  \<open>crates/hydrationd/src/daemon.rs\<close> (\<open>supervise_with_stall\<close>): the page the two processes share, the
  answer to an event a dead worker was holding, the watch that tells a stuck worker from a busy or an idle
  one, and the drain that denies everything until the mount is quiet or the cap is reached.
  Time is a number of milliseconds; what the worker, the kernel and the readers do is an argument.
\<close>

section \<open>The shared page\<close>

record in_flight =
  fl_slot :: int
  fl_working :: u64
  fl_beat :: u64

definition in_flight_new :: in_flight where
  "in_flight_new = \<lparr>fl_slot = - 1, fl_working = 0, fl_beat = 0\<rparr>"

definition holding :: "int \<Rightarrow> in_flight \<Rightarrow> in_flight" where
  "holding fd s = s\<lparr>fl_slot := fd\<rparr>"

definition released :: "in_flight \<Rightarrow> in_flight" where
  "released s = s\<lparr>fl_beat := fl_beat s + 1, fl_slot := - 1\<rparr>"

definition current :: "in_flight \<Rightarrow> int option" where
  "current s = (if fl_slot s = - 1 then None else Some (fl_slot s))"

definition working :: "in_flight \<Rightarrow> in_flight" where
  "working s = s\<lparr>fl_working := fl_working s + 1\<rparr>"

definition liveness :: "in_flight \<Rightarrow> u64" where
  "liveness s = fl_working s"

definition progress :: "in_flight \<Rightarrow> u64" where
  "progress s = fl_beat s"

section \<open>Answers\<close>

definition deny :: "int \<Rightarrow> group \<Rightarrow> (io_error + unit) \<times> group" where
  "deny fd = respond_raw fd (deny_with EIO)"

definition allow :: "int \<Rightarrow> group \<Rightarrow> (io_error + unit) \<times> group" where
  "allow fd = respond_raw fd FAN_ALLOW"

text \<open>\<open>take_over\<close>; the second component is what \<open>on_event\<close> was called with.\<close>

definition take_over :: "in_flight \<Rightarrow> group \<Rightarrow> (io_error + unit) \<times> int option \<times> group" where
  "take_over s g =
     (case current s of
        None \<Rightarrow> (Inr (), None, g)
      | Some fd \<Rightarrow> (case respond_raw fd (deny_with EIO) g of (r, g') \<Rightarrow> (r, Some fd, g')))"

section \<open>The drain\<close>

definition DENY_DRAIN_QUIET :: nat where "DENY_DRAIN_QUIET = 10000"
definition DENY_DRAIN_CAP :: nat where "DENY_DRAIN_CAP = 60000"

datatype drained = Quiet (drained_denied: u64) | StillBusy (drained_denied: u64) (still_hammering: "int list")

record draining =
  dr_denied :: u64
  dr_hammering :: "int list"
  dr_closed :: "int list"
  dr_group :: group

definition hammer :: "int \<Rightarrow> int list \<Rightarrow> int list" where
  "hammer pid hs = (if pid \<noteq> 0 \<and> length hs < 8 \<and> pid \<notin> set hs then hs @ [pid] else hs)"

text \<open>The events of one read; whether any was answered.\<close>

fun deny_events :: "event list \<Rightarrow> draining \<Rightarrow> bool \<times> draining" where
  "deny_events [] d = (False, d)"
| "deny_events (ev # evs) d =
     (if ev_fd ev < 0 then deny_events evs d
      else case deny (ev_fd ev) (dr_group d) of
             (r, g) \<Rightarrow>
               (case deny_events evs
                   (d\<lparr>dr_group := g, dr_denied := (case r of Inr _ \<Rightarrow> dr_denied d + 1 | Inl _ \<Rightarrow> dr_denied d),
                      dr_closed := dr_closed d @ [ev_fd ev], dr_hammering := hammer (ev_pid ev) (dr_hammering d)\<rparr>) of
                  (any, d') \<Rightarrow> ((case r of Inr _ \<Rightarrow> True | Inl _ \<Rightarrow> any), d')))"

text \<open>
  One pass of the loop: how long it took beyond one unit (a pass is never free), whether \<open>poll\<close>
  reported input, and what the read gave.
\<close>

record poll_pass =
  po_took :: nat
  po_in :: bool
  po_read :: "io_error + event list"

definition drain_pass :: "poll_pass \<Rightarrow> draining \<Rightarrow> bool \<times> draining" where
  "drain_pass p d =
     (if \<not> po_in p then (False, d)
      else case po_read p of Inl e \<Rightarrow> (False, d) | Inr evs \<Rightarrow> deny_events evs d)"

text \<open>\<open>now\<close> is the time at the head of pass \<open>i\<close>, \<open>since\<close> the start of the quiet window.\<close>

function drain_loop ::
  "(nat \<Rightarrow> poll_pass) \<Rightarrow> nat \<Rightarrow> nat \<Rightarrow> nat \<Rightarrow> nat \<Rightarrow> nat \<Rightarrow> nat \<Rightarrow> draining \<Rightarrow> drained \<times> nat \<times> nat \<times> draining" where
  "drain_loop polls quiet cap started i since now d =
     (if quiet \<le> now - since then (Quiet (dr_denied d), since, now, d)
      else if cap \<le> now - started then (StillBusy (dr_denied d) (dr_hammering d), since, now, d)
      else (case drain_pass (polls i) d of
              (any, d') \<Rightarrow>
                let now' = now + po_took (polls i) + 1
                in drain_loop polls quiet cap started (Suc i) (if any then now' else since) now' d'))"
  by pat_completeness auto

termination
  by (relation "measure (\<lambda>(_, _, cap, started, _, _, now, _). started + cap - now)") auto

declare drain_loop.simps [simp del]

definition drain_denying :: "(nat \<Rightarrow> poll_pass) \<Rightarrow> nat \<Rightarrow> nat \<Rightarrow> nat \<Rightarrow> group \<Rightarrow> drained \<times> nat \<times> nat \<times> draining" where
  "drain_denying polls quiet cap now g =
     drain_loop polls quiet cap now 0 now now
       \<lparr>dr_denied = 0, dr_hammering = [], dr_closed = [], dr_group = g\<rparr>"

section \<open>The watch\<close>

definition DEFAULT_STALL :: nat where "DEFAULT_STALL = 90000"

text \<open>What the supervisor sees on one pass: whether the worker was reaped, and the shared page.\<close>

record sight =
  si_exited :: bool
  si_page :: in_flight

datatype verdict = Exited | Stuck | Deadline

text \<open>
  The first loop of \<open>supervise_with_stall\<close>: pass \<open>i\<close> happens at time \<open>now\<close>, passes are 50
  milliseconds apart.
\<close>

function watch_loop ::
  "(nat \<Rightarrow> sight) \<Rightarrow> nat \<Rightarrow> nat \<Rightarrow> nat \<Rightarrow> u64 \<times> u64 \<Rightarrow> nat \<Rightarrow> nat \<Rightarrow> verdict \<times> nat" where
  "watch_loop sights until stall_after i beat moved now =
     (if si_exited (sights i) then (Exited, i)
      else let page = si_page (sights i);
               seen = (progress page, liveness page);
               moved' = (if seen \<noteq> beat then now else moved)
           in if current page \<noteq> None \<and> stall_after \<le> now - moved' then (Stuck, i)
              else if until \<le> now then (Deadline, i)
              else watch_loop sights until stall_after (Suc i) seen moved' (now + 50))"
  by pat_completeness auto

termination
  by (relation "measure (\<lambda>(_, until, _, _, _, _, now). until - now)") (auto simp: Let_def)

declare watch_loop.simps [simp del]

record supervise_report =
  worker_signal :: "int option"
  stranded_answered :: "int option"
  denied_after :: nat
  stalled :: bool

text \<open>The loop that denies until the deadline; each element is what the read of one poll gave.\<close>

fun deny_batch :: "event list \<Rightarrow> nat \<Rightarrow> group \<Rightarrow> nat \<times> group" where
  "deny_batch [] n g = (n, g)"
| "deny_batch (ev # evs) n g =
     (if 0 \<le> ev_fd ev then deny_batch evs (Suc n) (snd (deny (ev_fd ev) g)) else deny_batch evs n g)"

fun deny_after :: "(io_error + event list) list \<Rightarrow> nat \<Rightarrow> group \<Rightarrow> (io_error + nat) \<times> group" where
  "deny_after [] n g = (Inr n, g)"
| "deny_after (Inl e # bs) n g = (Inl e, g)"
| "deny_after (Inr evs # bs) n g = (case deny_batch evs n g of (n', g') \<Rightarrow> deny_after bs n' g')"

text \<open>
  \<open>supervise_with_stall\<close> from what it saw: \<open>page\<close> is the shared page when the watch ended (and, for a
  stuck worker, after the kill and its grace), \<open>sig\<close> the signal the reaped status names, \<open>batches\<close> what was
  read until the deadline.
\<close>

definition supervise_with_stall ::
  "(nat \<Rightarrow> sight) \<Rightarrow> nat \<Rightarrow> nat \<Rightarrow> nat \<Rightarrow> in_flight \<Rightarrow> in_flight \<Rightarrow> int option \<Rightarrow> (io_error + event list) list \<Rightarrow> group
     \<Rightarrow> (io_error + supervise_report) \<times> group" where
  "supervise_with_stall sights now until stall_after first page sig batches g =
     (case fst (watch_loop sights until stall_after 0 (progress first, liveness first) now now) of
        Deadline \<Rightarrow> (Inr \<lparr>worker_signal = None, stranded_answered = None, denied_after = 0, stalled = False\<rparr>, g)
      | v \<Rightarrow>
          (case take_over page g of
             (Inl e, _, g1) \<Rightarrow> (Inl e, g1)
           | (Inr _, stranded, g1) \<Rightarrow>
               (case deny_after batches 0 g1 of
                  (Inl e, g2) \<Rightarrow> (Inl e, g2)
                | (Inr n, g2) \<Rightarrow>
                    (Inr \<lparr>worker_signal = sig, stranded_answered = stranded, denied_after = n, stalled = (v = Stuck)\<rparr>, g2))))"

section \<open>What the drain does\<close>

lemma respond_raw_cases:
  obtains (refused) e g' where "respond_raw fd resp g = (Inl e, g')" "gr_answers g' = gr_answers g"
      "gr_ignored g' = gr_ignored g" "gr_plan g = Some e # gr_plan g'"
  | (sent) g' where "respond_raw fd resp g = (Inr (), g')" "gr_answers g' = gr_answers g @ [(fd, resp)]"
      "gr_ignored g' = gr_ignored g" "gr_plan g' = tl (gr_plan g)"
proof (cases "\<exists>e ps. gr_plan g = Some e # ps")
  case True
  then obtain e ps where "gr_plan g = Some e # ps" by blast
  then show ?thesis by (intro refused [of e "g\<lparr>gr_plan := ps\<rparr>"]) (simp_all add: respond_raw_def group_call_def)
next
  case False
  then have "respond_raw fd resp g = (Inr (), g\<lparr>gr_plan := tl (gr_plan g), gr_answers := gr_answers g @ [(fd, resp)]\<rparr>)"
    by (auto simp: respond_raw_def group_call_def split: list.splits option.splits)
  then show ?thesis by (rule sent) simp_all
qed

definition hammer_ok :: "int list \<Rightarrow> bool" where
  "hammer_ok hs \<longleftrightarrow> distinct hs \<and> length hs \<le> 8 \<and> 0 \<notin> set hs"

lemma hammer_ok_hammer: "hammer_ok hs \<Longrightarrow> hammer_ok (hammer pid hs)"
  by (auto simp: hammer_ok_def hammer_def)

text \<open>\<open>denials d d' as\<close>: between \<open>d\<close> and \<open>d'\<close> exactly the answers \<open>as\<close> were given, all \<open>EIO\<close>, and counted.\<close>

definition denials :: "draining \<Rightarrow> draining \<Rightarrow> (int \<times> u32) list \<Rightarrow> bool" where
  "denials d d' as \<longleftrightarrow>
     gr_answers (dr_group d') = gr_answers (dr_group d) @ as \<and> list_all (\<lambda>a. snd a = deny_with EIO) as \<and>
     dr_denied d' = dr_denied d + of_nat (length as) \<and> (hammer_ok (dr_hammering d) \<longrightarrow> hammer_ok (dr_hammering d'))"

lemma denials_trans: "denials d d1 as \<Longrightarrow> denials d1 d2 bs \<Longrightarrow> denials d d2 (as @ bs)"
  by (simp add: denials_def)

lemma deny_events_denials:
  "deny_events evs d = (any, d') \<Longrightarrow> \<exists>as. denials d d' as \<and> (any \<longleftrightarrow> as \<noteq> []) \<and>
     dr_closed d' = dr_closed d @ filter (\<lambda>fd. 0 \<le> fd) (map ev_fd evs)"
proof (induction evs d arbitrary: any d' rule: deny_events.induct)
  case (1 d)
  then show ?case by (simp add: denials_def)
next
  case (2 ev evs d)
  show ?case
  proof (cases "ev_fd ev < 0")
    case True
    with 2(1) [of any d'] 2(3) show ?thesis by simp
  next
    case False
    show ?thesis
    proof (cases rule: respond_raw_cases [of "ev_fd ev" "deny_with EIO" "dr_group d"])
      case (refused e g')
      define d1 where "d1 = d\<lparr>dr_group := g', dr_closed := dr_closed d @ [ev_fd ev],
        dr_hammering := hammer (ev_pid ev) (dr_hammering d)\<rparr>"
      have "deny_events evs d1 = (any, d')"
        using 2(3) False refused(1) by (auto simp: deny_def d1_def split: prod.splits)
      then obtain as where as: "denials d1 d' as" "any \<longleftrightarrow> as \<noteq> []"
        "dr_closed d' = dr_closed d1 @ filter (\<lambda>fd. 0 \<le> fd) (map ev_fd evs)"
        using 2(2) [OF False, of "Inl e" g' any d'] refused(1) by (auto simp: deny_def d1_def)
      have "denials d d1 []" using refused(2) hammer_ok_hammer by (simp add: denials_def d1_def)
      with as denials_trans [of d d1 "[]" d' as] False show ?thesis by (auto simp: d1_def)
    next
      case (sent g')
      define d1 where "d1 = d\<lparr>dr_group := g', dr_denied := dr_denied d + 1, dr_closed := dr_closed d @ [ev_fd ev],
        dr_hammering := hammer (ev_pid ev) (dr_hammering d)\<rparr>"
      obtain any1 where "any" and d: "deny_events evs d1 = (any1, d')"
        using 2(3) False sent(1) by (auto simp: deny_def d1_def split: prod.splits)
      then obtain as where as: "denials d1 d' as"
        "dr_closed d' = dr_closed d1 @ filter (\<lambda>fd. 0 \<le> fd) (map ev_fd evs)"
        using 2(2) [OF False, of "Inr ()" g' any1 d'] sent(1) by (auto simp: deny_def d1_def)
      have "denials d d1 [(ev_fd ev, deny_with EIO)]"
        using sent(2) hammer_ok_hammer by (simp add: denials_def d1_def)
      from denials_trans [OF this as(1)] as(2) \<open>any\<close> False show ?thesis
        by (intro exI [of _ "(ev_fd ev, deny_with EIO) # as"]) (auto simp: d1_def)
    qed
  qed
qed

lemma drain_pass_denials:
  assumes "drain_pass p d = (any, d')"
  obtains as where "denials d d' as" "any \<longleftrightarrow> as \<noteq> []"
proof (cases "po_in p \<and> (\<exists>evs. po_read p = Inr evs)")
  case True
  then obtain evs where "deny_events evs d = (any, d')" using assms by (auto simp: drain_pass_def)
  from deny_events_denials [OF this] show ?thesis using that by blast
next
  case False
  then have "d' = d \<and> \<not> any" using assms by (auto simp: drain_pass_def split: if_splits sum.splits)
  then show ?thesis using that [of "[]"] by (simp add: denials_def)
qed

lemma drain_loop_step:
  "\<not> quiet \<le> now - since \<Longrightarrow> \<not> cap \<le> now - started \<Longrightarrow> drain_pass (polls i) d = (any, d1) \<Longrightarrow>
     drain_loop polls quiet cap started i since now d =
     drain_loop polls quiet cap started (Suc i) (if any then now + po_took (polls i) + 1 else since)
       (now + po_took (polls i) + 1) d1"
  by (subst drain_loop.simps) (simp add: Let_def)

lemma drain_loop_result:
  assumes "drain_loop polls quiet cap started i since now d = (r, since', en, d')"
  shows "(\<exists>as. denials d d' as) \<and> now \<le> en \<and>
    (r = Quiet (dr_denied d') \<and> quiet \<le> en - since' \<or>
     r = StillBusy (dr_denied d') (dr_hammering d') \<and> cap \<le> en - started \<and> en - since' < quiet)"
  using assms
proof (induction polls quiet cap started i since now d rule: drain_loop.induct)
  case (1 polls quiet cap started i since now d)
  have refl_d: "denials d d []" by (simp add: denials_def)
  show ?case
  proof (cases "quiet \<le> now - since \<or> cap \<le> now - started")
    case True
    with 1(2) refl_d show ?thesis by (subst (asm) drain_loop.simps) (auto split: if_splits)
  next
    case False
    obtain any d1 where p: "drain_pass (polls i) d = (any, d1)" by fastforce
    obtain as where a: "denials d d1 as" using drain_pass_denials [OF p] by metis
    have "drain_loop polls quiet cap started (Suc i) (if any then now + po_took (polls i) + 1 else since)
        (now + po_took (polls i) + 1) d1 = (r, since', en, d')"
      using 1(2) False p drain_loop_step [of quiet now since cap started polls i d] by simp
    from 1(1) [OF _ _ p [symmetric] refl this] False a denials_trans show ?thesis by fastforce
  qed
qed

lemma drain_loop_time:
  assumes "drain_loop polls quiet cap started i since now d = (r, since', en, d')"
    and "\<forall>j. po_took (polls j) \<le> b" "now \<le> started + cap + b"
  shows "en \<le> started + cap + b"
  using assms
proof (induction polls quiet cap started i since now d rule: drain_loop.induct)
  case (1 polls quiet cap started i since now d)
  show ?case
  proof (cases "quiet \<le> now - since \<or> cap \<le> now - started")
    case True
    with 1(2,4) show ?thesis by (subst (asm) drain_loop.simps) (auto split: if_splits)
  next
    case False
    obtain any d1 where p: "drain_pass (polls i) d = (any, d1)" by fastforce
    have l: "drain_loop polls quiet cap started (Suc i) (if any then now + po_took (polls i) + 1 else since)
        (now + po_took (polls i) + 1) d1 = (r, since', en, d')"
      using 1(2) False p drain_loop_step [of quiet now since cap started polls i d] by simp
    have t: "po_took (polls i) \<le> b" using 1(3) by blast
    have "now < started + cap" using False by linarith
    with t have "now + po_took (polls i) + 1 \<le> started + cap + b" by linarith
    from 1(1) [OF _ _ p [symmetric] refl l 1(3) this] False show ?thesis by blast
  qed
qed

text \<open>Passes that each answer an event, none of them longer than the quiet window.\<close>

definition stormy :: "nat \<Rightarrow> (nat \<Rightarrow> poll_pass) \<Rightarrow> bool" where
  "stormy quiet polls \<longleftrightarrow>
     (\<forall>i. po_took (polls i) + 1 < quiet \<and> po_in (polls i) \<and>
        (\<exists>ev evs. po_read (polls i) = Inr (ev # evs) \<and> 0 \<le> ev_fd ev))"

lemma drain_pass_answers:
  assumes "gr_plan (dr_group d) = []" "po_in p" "po_read p = Inr (ev # evs)" "0 \<le> ev_fd ev"
  shows "\<exists>d'. drain_pass p d = (True, d') \<and> gr_plan (dr_group d') = []"
proof -
  have ge: "gr_plan (dr_group (snd (deny_events es d))) = []" if "gr_plan (dr_group d) = []" for es d
    using that
  proof (induction es d rule: deny_events.induct)
    case (2 e es d)
    have "deny (ev_fd e) (dr_group d) = (Inr (), dr_group d\<lparr>gr_plan := [], gr_answers := gr_answers (dr_group d) @ [(ev_fd e, deny_with EIO)]\<rparr>)"
      using 2(3) by (simp add: deny_def respond_raw_def group_call_def)
    with 2 show ?case by (auto split: prod.splits)
  qed simp
  have "deny (ev_fd ev) (dr_group d) = (Inr (), dr_group d\<lparr>gr_plan := [], gr_answers := gr_answers (dr_group d) @ [(ev_fd ev, deny_with EIO)]\<rparr>)"
    using assms(1) by (simp add: deny_def respond_raw_def group_call_def)
  then have "fst (deny_events (ev # evs) d)" using assms(4) by (auto split: prod.splits)
  moreover have "gr_plan (dr_group (snd (deny_events (ev # evs) d))) = []" using ge assms(1) by blast
  ultimately show ?thesis using assms(2,3) by (cases "deny_events (ev # evs) d") (simp add: drain_pass_def)
qed

lemma drain_loop_storm:
  assumes "drain_loop polls quiet cap started i since now d = (r, since', en, d')"
    and "stormy quiet polls" "gr_plan (dr_group d) = []" "since = now" "0 < quiet"
  shows "r = StillBusy (dr_denied d') (dr_hammering d')"
  using assms
proof (induction polls quiet cap started i since now d rule: drain_loop.induct)
  case (1 polls quiet cap started i since now d)
  have q: "\<not> quiet \<le> now - since" using 1(5,6) by simp
  show ?case
  proof (cases "cap \<le> now - started")
    case True
    with 1(2) q show ?thesis by (subst (asm) drain_loop.simps) auto
  next
    case False
    obtain ev evs where e: "po_in (polls i)" "po_read (polls i) = Inr (ev # evs)" "0 \<le> ev_fd ev"
      using 1(3) unfolding stormy_def by metis
    obtain d1 where p: "drain_pass (polls i) d = (True, d1)" "gr_plan (dr_group d1) = []"
      using drain_pass_answers [OF 1(4) e] by blast
    have l: "drain_loop polls quiet cap started (Suc i) (if True then now + po_took (polls i) + 1 else since)
        (now + po_took (polls i) + 1) d1 = (r, since', en, d')"
      using 1(2) drain_loop_step [where polls = polls, OF q False p(1)] by (simp only:)
    from 1(1) [OF q False p(1) [symmetric] refl l 1(3) p(2) _ 1(6)] show ?thesis by simp
  qed
qed

section \<open>What the watch decides\<close>

definition counters :: "sight \<Rightarrow> u64 \<times> u64" where
  "counters s = (progress (si_page s), liveness (si_page s))"

lemma watch_loop_unfold:
  "watch_loop sights until stall_after i beat moved now =
     (if si_exited (sights i) then (Exited, i)
      else let moved' = (if counters (sights i) \<noteq> beat then now else moved)
           in if current (si_page (sights i)) \<noteq> None \<and> stall_after \<le> now - moved' then (Stuck, i)
              else if until \<le> now then (Deadline, i)
              else watch_loop sights until stall_after (Suc i) (counters (sights i)) moved' (now + 50))"
  by (subst watch_loop.simps) (simp add: Let_def counters_def)

lemma watch_loop_cases:
  assumes "watch_loop sights until stall_after i beat moved now = (v, n)"
    and "m = (if counters (sights i) \<noteq> beat then now else moved)"
  obtains (exited) "si_exited (sights i)" "v = Exited"
  | (stuck) "\<not> si_exited (sights i)" "v = Stuck" "n = i" "current (si_page (sights i)) \<noteq> None" "stall_after \<le> now - m"
  | (deadline) "v = Deadline"
  | (again) "\<not> si_exited (sights i)" "\<not> until \<le> now"
      "\<not> (current (si_page (sights i)) \<noteq> None \<and> stall_after \<le> now - m)"
      "watch_loop sights until stall_after (Suc i) (counters (sights i)) m (now + 50) = (v, n)"
proof -
  have u: "watch_loop sights until stall_after i beat moved now =
     (if si_exited (sights i) then (Exited, i)
      else if current (si_page (sights i)) \<noteq> None \<and> stall_after \<le> now - m then (Stuck, i)
      else if until \<le> now then (Deadline, i)
      else watch_loop sights until stall_after (Suc i) (counters (sights i)) m (now + 50))"
    by (subst watch_loop_unfold) (simp only: assms(2) Let_def)
  consider "si_exited (sights i)"
    | "\<not> si_exited (sights i)" "current (si_page (sights i)) \<noteq> None \<and> stall_after \<le> now - m"
    | "\<not> si_exited (sights i)" "\<not> (current (si_page (sights i)) \<noteq> None \<and> stall_after \<le> now - m)" "until \<le> now"
    | "\<not> si_exited (sights i)" "\<not> (current (si_page (sights i)) \<noteq> None \<and> stall_after \<le> now - m)" "\<not> until \<le> now"
    by blast
  then show ?thesis
  proof cases
    case 1
    with u assms(1) have "v = Exited" by (simp only: if_True prod.inject)
    with 1 show ?thesis by (rule exited)
  next
    case 2
    with u assms(1) have "v = Stuck" "n = i" by simp_all
    with 2 show ?thesis using stuck by blast
  next
    case 3
    with u assms(1) have "v = Deadline" by (simp only: if_False if_True prod.inject)
    then show ?thesis by (rule deadline)
  next
    case 4
    with u assms(1) have "watch_loop sights until stall_after (Suc i) (counters (sights i)) m (now + 50) = (v, n)"
      by (simp only: if_False)
    with 4 show ?thesis using again by blast
  qed
qed

lemma watch_loop_Stuck:
  assumes "watch_loop sights until stall_after i beat moved now = (Stuck, n)"
    and "now = t0 + 50 * i" "t0 \<le> moved" "moved \<le> now"
    and "\<forall>j<i. moved \<le> t0 + 50 * j \<longrightarrow> counters (sights j) = beat"
  shows "i \<le> n \<and> current (si_page (sights n)) \<noteq> None \<and> \<not> si_exited (sights n) \<and> stall_after \<le> 50 * n \<and>
    (\<forall>j\<le>n. 50 * (n - j) \<le> stall_after \<longrightarrow> counters (sights j) = counters (sights n))"
  using assms
proof (induction sights until stall_after i beat moved now rule: watch_loop.induct)
  case (1 sights until stall_after i beat moved now)
  define m where "m = (if counters (sights i) \<noteq> beat then now else moved)"
  have m: "t0 \<le> m" "m \<le> now" using 1(3-5) by (auto simp: m_def)
  have still: "\<forall>j\<le>i. m \<le> t0 + 50 * j \<longrightarrow> counters (sights j) = counters (sights i)"
  proof (intro allI impI)
    fix j assume j: "j \<le> i" "m \<le> t0 + 50 * j"
    show "counters (sights j) = counters (sights i)"
    proof (cases "j = i")
      case False
      with j 1(3) have "m \<noteq> now" by auto
      then have "counters (sights i) = beat" "m = moved" by (auto simp: m_def split: if_splits)
      with 1(6) j False show ?thesis by auto
    qed simp
  qed
  from 1(2) m_def show ?case
  proof (cases rule: watch_loop_cases)
    case stuck
    have "\<forall>j\<le>i. 50 * (i - j) \<le> stall_after \<longrightarrow> counters (sights j) = counters (sights i)"
    proof (intro allI impI)
      fix j assume j: "j \<le> i" "50 * (i - j) \<le> stall_after"
      then have "50 * i - 50 * j \<le> now - m" using stuck(5) by (simp only: diff_mult_distrib2 le_trans)
      then have "m \<le> t0 + 50 * j" using m(2) 1(3) j(1) by linarith
      with still j(1) show "counters (sights j) = counters (sights i)" by blast
    qed
    moreover have "stall_after \<le> 50 * i" using stuck(5) m(1) 1(3) by linarith
    ultimately show ?thesis using stuck by blast
  next
    case again
    have x: "\<forall>j<Suc i. m \<le> t0 + 50 * j \<longrightarrow> counters (sights j) = counters (sights i)"
      using still less_Suc_eq_le by blast
    have y: "now + 50 = t0 + 50 * Suc i" "m \<le> now + 50" using 1(3) m(2) by simp_all
    note ih = 1(1) [OF again(1) refl refl, folded counters_def, folded m_def, OF refl again(3,2,4) y(1) m(1) y(2) x]
    from ih show ?thesis using Suc_leD by blast
  qed simp_all
qed

lemma watch_loop_finds:
  assumes "\<forall>j. \<not> si_exited (sights j) \<and> current (si_page (sights j)) \<noteq> None \<and> counters (sights j) = c"
    and "moved \<le> now" "now < moved + stall_after + 50" "moved + stall_after + 50 < until"
  shows "\<exists>n. watch_loop sights until stall_after i c moved now = (Stuck, n) \<and> now + 50 * n < moved + stall_after + 50 + 50 * i"
  using assms(2-4)
proof (induction "moved + stall_after - now" arbitrary: i now rule: less_induct)
  case less
  have s: "\<not> si_exited (sights i)" "current (si_page (sights i)) \<noteq> None" "counters (sights i) = c"
    using assms(1) by blast+
  show ?case
  proof (cases "stall_after \<le> now - moved")
    case True
    then have "watch_loop sights until stall_after i c moved now = (Stuck, i)"
      using s by (subst watch_loop_unfold) simp
    with less(3) show ?thesis by (intro exI [of _ i]) simp
  next
    case False
    then have "watch_loop sights until stall_after i c moved now = watch_loop sights until stall_after (Suc i) c moved (now + 50)"
      using s less(3,4) by (subst watch_loop_unfold) simp
    moreover obtain n where "watch_loop sights until stall_after (Suc i) c moved (now + 50) = (Stuck, n)"
        "(now + 50) + 50 * n < moved + stall_after + 50 + 50 * Suc i"
    proof -
      have "moved + stall_after - (now + 50) < moved + stall_after - now" "moved \<le> now + 50"
        "now + 50 < moved + stall_after + 50" using False less(2,3) by linarith+
      from less(1) [OF this less(4)] show ?thesis using that by blast
    qed
    ultimately show ?thesis by (intro exI [of _ n]) simp
  qed
qed

text \<open>\<open>denied_by g g' k\<close>: between the two groups at most \<open>k\<close> answers were given, all of them \<open>EIO\<close>.\<close>

definition denied_by :: "group \<Rightarrow> group \<Rightarrow> nat \<Rightarrow> bool" where
  "denied_by g g' k \<longleftrightarrow>
     (\<exists>as. gr_answers g' = gr_answers g @ as \<and> list_all (\<lambda>a. snd a = deny_with EIO) as \<and> length as \<le> k)"

lemma denied_by_trans: "denied_by g g1 k \<Longrightarrow> denied_by g1 g2 l \<Longrightarrow> denied_by g g2 (k + l)"
  unfolding denied_by_def by (elim exE conjE) (rule exI [of _ "_ @ _"], auto)

lemma denied_by_deny: "denied_by g (snd (deny fd g)) 1"
  by (cases rule: respond_raw_cases [of fd "deny_with EIO" g]) (auto simp: denied_by_def deny_def)

lemma denied_by_refl: "denied_by g g k"
  by (simp add: denied_by_def)

lemma deny_batch_answers: "deny_batch evs n g = (m, g') \<Longrightarrow> n \<le> m \<and> denied_by g g' (m - n)"
proof (induction evs n g rule: deny_batch.induct)
  case (2 ev evs n g)
  show ?case
  proof (cases "0 \<le> ev_fd ev")
    case True
    with 2 have ih: "Suc n \<le> m" "denied_by (snd (deny (ev_fd ev) g)) g' (m - Suc n)" by simp_all
    from denied_by_trans [OF denied_by_deny ih(2)] ih(1) show ?thesis by (simp add: Suc_diff_Suc)
  qed (use 2 in simp)
qed (simp add: denied_by_refl)

lemma deny_after_answers:
  "deny_after bs n g = (Inr m, g') \<Longrightarrow> n \<le> m \<and> denied_by g g' (m - n)"
proof (induction bs n g rule: deny_after.induct)
  case (3 evs bs n g)
  obtain n1 g1 where b: "deny_batch evs n g = (n1, g1)" by fastforce
  note d = deny_batch_answers [OF b]
  have "n1 \<le> m \<and> denied_by g1 g' (m - n1)" using 3 b by simp
  with d denied_by_trans [of g g1 "n1 - n" g' "m - n1"] show ?case by simp
qed (simp_all add: denied_by_refl)

section \<open>Properties\<close>



text \<open>The quiet window alone would never end the drain: while every pass answers a reader and none takes
  longer than the window, the drain leaves as \<open>StillBusy\<close>, that is, by its cap.\<close>

theorem drain_storm_leaves_by_cap:
  assumes "stormy quiet polls" "gr_plan g = []"
  shows "\<exists>n hs. fst (drain_denying polls quiet cap now g) = StillBusy n hs"
proof -
  have "0 < quiet" using assms(1) unfolding stormy_def by (metis gr_zeroI not_less0)
  then show ?thesis
    using drain_loop_storm [of polls quiet cap now 0 now now "\<lparr>dr_denied = 0, dr_hammering = [], dr_closed = [], dr_group = g\<rparr>"]
      assms by (cases "drain_denying polls quiet cap now g") (auto simp: drain_denying_def)
qed

lemma drain_storm_leaves_by_cap_witness:
  "\<exists>n hs. fst (drain_denying (\<lambda>i. \<lparr>po_took = 2, po_in = True,
      po_read = Inr [\<lparr>ev_mask = 0, ev_fd = 5, ev_pid = 77, ev_range = None, ev_pidfd = None, ev_mnt_id = None\<rparr>]\<rparr>)
      10000 60000 0 \<lparr>gr_plan = [], gr_answers = [], gr_ignored = []\<rparr>) = StillBusy n hs"
  by (rule drain_storm_leaves_by_cap) (simp_all add: stormy_def)

text \<open>C22: A worker is called stuck only when it is: it has not been reaped, it is holding an event, and at
  every look of the whole stall window before, both of its counters stood still.  An idle worker and one
  that keeps either counter moving are never torn down.\<close>

theorem stuck_verdict_sound:
  assumes "watch_loop sights until stall_after 0 (counters first) now now = (Stuck, n)"
  shows "current (si_page (sights n)) \<noteq> None \<and> \<not> si_exited (sights n) \<and> stall_after \<le> 50 * n \<and>
    (\<forall>j\<le>n. 50 * (n - j) \<le> stall_after \<longrightarrow> counters (sights j) = counters (sights n))"
  using watch_loop_Stuck [OF assms, of now] by (simp only: mult_0_right add_0_right) blast

text \<open>A worker that holds an event and moves neither counter is found out, no later than one pass after
  the stall window.\<close>

theorem stuck_worker_found:
  assumes "\<forall>j. \<not> si_exited (sights j) \<and> current (si_page (sights j)) \<noteq> None \<and> counters (sights j) = c"
    and "now + stall_after + 50 < until"
  shows "\<exists>n. watch_loop sights until stall_after 0 c now now = (Stuck, n) \<and> 50 * n < stall_after + 50"
  using watch_loop_finds [OF assms(1), of now now stall_after until 0] assms(2) by auto

definition stuck_sight :: sight where
  "stuck_sight = \<lparr>si_exited = False, si_page = \<lparr>fl_slot = 7, fl_working = 3, fl_beat = 4\<rparr>\<rparr>"

lemma stuck_worker_found_witness:
  "\<exists>n. watch_loop (\<lambda>_. stuck_sight) 1000000 90000 0 (4, 3) 0 0 = (Stuck, n) \<and> 50 * n < 90050"
  using stuck_worker_found [of "\<lambda>_. stuck_sight" "(4, 3)" 0 90000 1000000]
  by (simp add: stuck_sight_def current_def counters_def progress_def liveness_def)

lemma stuck_verdict_sound_witness:
  "\<exists>n. watch_loop (\<lambda>_. stuck_sight) 1000 100 0 (counters stuck_sight) 0 0 = (Stuck, n) \<and> 100 \<le> 50 * n"
proof -
  have "current (si_page stuck_sight) \<noteq> None" by (simp add: stuck_sight_def current_def)
  then obtain n where w: "watch_loop (\<lambda>_. stuck_sight) 1000 100 0 (counters stuck_sight) 0 0 = (Stuck, n)"
    using watch_loop_finds [of "\<lambda>_. stuck_sight" "counters stuck_sight" 0 0 100 1000 0]
    by (auto simp: stuck_sight_def)
  from stuck_verdict_sound [OF w] w show ?thesis by blast
qed

text \<open>C21: Nothing the supervisor answers lets a reader through.  Every response it sends is \<open>EIO\<close>; the event
  a dead or stuck worker was holding is answered first, by its number, and is named in the report; and a
  worker that was holding nothing leaves nothing to answer.\<close>

theorem supervise_denies_all:
  assumes "supervise_with_stall sights now until stall_after first page sig batches g = (Inr rep, g')"
    and "fst (watch_loop sights until stall_after 0 (progress first, liveness first) now now) \<noteq> Deadline"
  shows "stranded_answered rep = current page \<and>
    (\<exists>as. gr_answers g' = gr_answers g @ (case current page of Some fd \<Rightarrow> [(fd, deny_with EIO)] | None \<Rightarrow> []) @ as \<and>
       list_all (\<lambda>a. snd a = deny_with EIO) as \<and> length as \<le> denied_after rep)"
proof -
  obtain r st g1 where t: "take_over page g = (r, st, g1)" by (metis prod_cases3)
  obtain dn g2 where da: "deny_after batches 0 g1 = (dn, g2)" by fastforce
  obtain u where r: "r = Inr u"
    using assms t by (cases r) (auto simp: supervise_with_stall_def split: verdict.splits)
  obtain n where d: "deny_after batches 0 g1 = (Inr n, g2)"
    using assms t da r by (cases dn) (auto simp: supervise_with_stall_def split: verdict.splits)
  have x: "stranded_answered rep = st" "denied_after rep = n" "g' = g2"
    using assms t d r by (auto simp: supervise_with_stall_def split: verdict.splits)
  have s: "st = current page \<and> gr_answers g1 = gr_answers g @ (case current page of Some fd \<Rightarrow> [(fd, deny_with EIO)] | None \<Rightarrow> [])"
  proof (cases "current page")
    case None
    with t show ?thesis by (simp add: take_over_def)
  next
    case (Some fd)
    then have "respond_raw fd (deny_with EIO) g = (r, g1) \<and> st = Some fd"
      using t by (simp add: take_over_def split: prod.splits)
    then show ?thesis using r Some
      by (cases rule: respond_raw_cases [of fd "deny_with EIO" g]) simp_all
  qed
  from deny_after_answers [OF d] s x show ?thesis by (auto simp: denied_by_def)
qed

lemma supervise_denies_all_witness:
  "\<exists>rep g'. supervise_with_stall (\<lambda>_. stuck_sight\<lparr>si_exited := True\<rparr>) 0 1000 90000 in_flight_new
      \<lparr>fl_slot = 7, fl_working = 3, fl_beat = 4\<rparr> (Some 9) [] \<lparr>gr_plan = [], gr_answers = [], gr_ignored = []\<rparr> = (Inr rep, g') \<and>
    stranded_answered rep = Some 7"
proof -
  have w: "fst (watch_loop (\<lambda>_. stuck_sight\<lparr>si_exited := True\<rparr>) 1000 90000 0 (progress in_flight_new, liveness in_flight_new) 0 0) = Exited"
    by (simp add: watch_loop_unfold)
  then obtain rep g' where h: "supervise_with_stall (\<lambda>_. stuck_sight\<lparr>si_exited := True\<rparr>) 0 1000 90000 in_flight_new
      \<lparr>fl_slot = 7, fl_working = 3, fl_beat = 4\<rparr> (Some 9) [] \<lparr>gr_plan = [], gr_answers = [], gr_ignored = []\<rparr> = (Inr rep, g')"
    by (simp add: supervise_with_stall_def take_over_def current_def respond_raw_def group_call_def)
  from supervise_denies_all [OF h] w h show ?thesis by (simp add: current_def)
qed

end
