(* ===== verification/Worker.thy ===== *)
theory Worker
  imports Timed Partial_Fill Policy Supervisor
begin

text \<open>
  The worker of \<open>crates/hydrationd/src/daemon.rs\<close>: \<open>handle\<close> answers one pre-content event, and
  \<open>decide_and_fill\<close> decides the answer and fills the file.  The definitions follow its early returns one
  by one, with the world as explicit state: the file of the event, the channel to the fetch thread, the
  record of partial fills, the two logs, the page shared with the supervisor and the group.  The text of
  an \<open>io::Error\<close> is not modelled: \<open>show_error\<close> is an argument.
\<close>

section \<open>State\<close>

definition READAHEAD :: u64 where "READAHEAD = 8 * 1024 * 1024"

record world =
  wd_kernel :: kernel
  wd_timed :: timed
  wd_partial :: partial_map
  wd_log :: denial_log
  wd_failures :: failure_log
  wd_page :: in_flight
  wd_group :: group
  wd_closed :: "int list"
  wd_trace :: "(int option \<times> nat) list"

text \<open>
  An event as the worker sees it: the decoded event, the name its descriptor resolves to when it is
  decided and when it is logged, and the cgroup of the reader, when its pidfd was given and still led
  to one.
\<close>

record pre_content =
  pc_event :: event
  pc_path :: "string option"
  pc_path_after :: "string option"
  pc_cgroup :: "string option"

text \<open>
  \<open>wd_trace\<close> is a ghost: what the supervisor can see, one entry for every change of the page the worker
  makes, with the event that is published then and the number of answers the group has been given by then.
\<close>

definition seen :: "world \<Rightarrow> int option \<times> nat" where
  "seen w = (current (wd_page w), length (gr_answers (wd_group w)))"

definition on_page :: "(in_flight \<Rightarrow> in_flight) \<Rightarrow> world \<Rightarrow> world" where
  "on_page act w = (let w1 = w\<lparr>wd_page := act (wd_page w)\<rparr> in w1\<lparr>wd_trace := wd_trace w @ [seen w1]\<rparr>)"

text \<open>What does not change while the worker runs.\<close>

record worker_config =
  su_script :: script
  su_limits :: limits
  su_policy :: policy
  su_show_error :: "io_error \<Rightarrow> string"

datatype handled =
  Hydrated u64 | Served u64 u64 u64 | AlreadyPresent | Empty
  | Denied string | Failed string | Abandoned string

definition on_file :: "'a sys \<Rightarrow> world \<Rightarrow> (io_error + 'a) \<times> world" where
  "on_file m w = (case m (wd_kernel w) of (r, k) \<Rightarrow> (r, w\<lparr>wd_kernel := k\<rparr>))"

definition on_group :: "(group \<Rightarrow> (io_error + unit) \<times> group) \<Rightarrow> world \<Rightarrow> (io_error + unit) \<times> world" where
  "on_group act w = (case act (wd_group w) of (r, g) \<Rightarrow> (r, w\<lparr>wd_group := g\<rparr>))"

section \<open>Looking at the file\<close>

definition looks_stripped :: "world \<Rightarrow> bool \<times> world" where
  "looks_stripped w =
     (case on_file sys_fstat w of
        (Inl e, w1) \<Rightarrow> (False, w1)
      | (Inr st, w1) \<Rightarrow>
          if f_size st = 0 then (False, w1)
          else (case on_file holds_data_fd w1 of
                  (Inr b, w2) \<Rightarrow> (\<not> b, w2)
                | (Inl e, w2) \<Rightarrow> (False, w2)))"

definition nothing_to_serve :: "world \<Rightarrow> handled option \<times> world" where
  "nothing_to_serve w =
     (case on_file sys_fstat w of
        (Inl e, w1) \<Rightarrow> (None, w1)
      | (Inr st, w1) \<Rightarrow> (if f_nlink st = 0 \<and> f_size st = 0 then Some Empty else None, w1))"

definition witness_fd :: "witness sys" where
  "witness_fd =
     sys_bind sys_fstat (\<lambda>st. sys_return \<lparr>w_mtime = f_mtime st, w_mtime_nsec = f_mtime_nsec st, w_size = f_size st\<rparr>)"

text \<open>The branch for a file without the mark: events for it are suppressed unless it looks stripped.\<close>

definition suppress_events :: "pre_content \<Rightarrow> world \<Rightarrow> world" where
  "suppress_events ev w =
     (case pc_path ev of
        None \<Rightarrow> w
      | Some p \<Rightarrow>
          (case looks_stripped w of
             (True, w1) \<Rightarrow>
               w1\<lparr>wd_log := denial_record (wd_log w1) ''-''
                   ''sized file occupying no disk; not suppressing future events'' (Some p)\<rparr>
           | (False, w1) \<Rightarrow> snd (on_group (group_ignore p) w1)))"

section \<open>One transfer\<close>

text \<open>\<open>working\<close> is called once for every turn of the wait.\<close>

definition transfer :: "worker_config \<Rightarrow> file_id \<Rightarrow> u64 \<Rightarrow> span \<Rightarrow> world \<Rightarrow> (transfer_error + unit) \<times> world" where
  "transfer su f sz sp w =
     (case timed_run (su_script su) f sz sp (su_limits su) (wd_timed w) (wd_kernel w) of
        (r, t, k) \<Rightarrow>
          (map_sum (\<lambda>e. e) (\<lambda>_. ()) r,
           (on_page working ^^ (length (tm_beats t) - length (tm_beats (wd_timed w))))
             (w\<lparr>wd_timed := t, wd_kernel := k\<rparr>)))"

definition show_u64 :: "u64 \<Rightarrow> string" where
  "show_u64 n = show_nat (unat n)"

fun show_transfer_error :: "(io_error \<Rightarrow> string) \<Rightarrow> transfer_error \<Rightarrow> string" where
  "show_transfer_error se (Short got sz) =
     ''delivered '' @ show_u64 got @ '' of '' @ show_u64 sz @ '' bytes and claimed completion''"
| "show_transfer_error se NoFirstByte = ''the provider sent nothing''"
| "show_transfer_error se (Stalled got sz) = ''stalled at '' @ show_u64 got @ '' of '' @ show_u64 sz @ '' bytes''"
| "show_transfer_error se (TooLong got sz) =
     ''abandoned at '' @ show_u64 got @ '' of '' @ show_u64 sz @ '' bytes: too long to hold a read''"
| "show_transfer_error se Unresponsive = ''fetcher unresponsive''"
| "show_transfer_error se Gone = ''the fetch thread is gone''"
| "show_transfer_error se (Provider e) = se e"

text \<open>The record is kept when the file can still be witnessed, and dropped otherwise.\<close>

definition remember :: "file_id \<Rightarrow> ranges \<Rightarrow> world \<Rightarrow> world" where
  "remember f have w =
     (case on_file witness_fd w of
        (Inr wt, w1) \<Rightarrow> w1\<lparr>wd_partial := partial_record (wd_partial w1) f wt have\<rparr>
      | (Inl e, w1) \<Rightarrow> w1\<lparr>wd_partial := partial_forget (wd_partial w1) f\<rparr>)"

fun gives_up :: "transfer_error \<Rightarrow> bool" where
  "gives_up (TooLong got sz) = True"
| "gives_up (Stalled got sz) = True"
| "gives_up e = False"

definition fill_failed :: "worker_config \<Rightarrow> file_id \<Rightarrow> ranges \<Rightarrow> transfer_error \<Rightarrow> string option \<Rightarrow> world \<Rightarrow> handled \<times> world" where
  "fill_failed su f have err path w =
     (let w1 = remember f have (snd (on_file stamp_write_fd w));
          reason = show_transfer_error (su_show_error su) err
      in if gives_up err
         then (Abandoned reason, w1\<lparr>wd_log := denial_record (wd_log w1) ''-'' ''transfer abandoned'' path\<rparr>)
         else (Failed reason, w1))"

section \<open>Filling what is missing\<close>

datatype filled = Filled ranges | Answered handled

fun fill_spans ::
  "worker_config \<Rightarrow> file_id \<Rightarrow> u64 \<Rightarrow> span \<Rightarrow> string option \<Rightarrow> ranges \<Rightarrow> span list \<Rightarrow> world \<Rightarrow> filled \<times> world" where
  "fill_spans su f sz demanded path have [] w = (Filled have, w)"
| "fill_spans su f sz demanded path have (sp # rest) w =
     (case transfer su f sz sp w of
        (Inr _, w1) \<Rightarrow> fill_spans su f sz demanded path (ranges_add have sp) rest w1
      | (Inl e, w1) \<Rightarrow>
          let w2 = snd (on_file (punch_range_fd (sp_offset sp) (sp_len sp)) w1)
          in case span_intersect sp demanded of
               None \<Rightarrow> (Filled have, w2)
             | Some only \<Rightarrow>
                 if only \<noteq> sp
                 then (case transfer su f sz only w2 of
                         (Inl again, w3) \<Rightarrow>
                           let w4 = snd (on_file (punch_range_fd (sp_offset only) (sp_len only)) w3)
                           in (case fill_failed su f have again path w4 of (h, w5) \<Rightarrow> (Answered h, w5))
                       | (Inr _, w3) \<Rightarrow> (Filled (ranges_add have only), w3))
                 else (case fill_failed su f have e path w2 of (h, w5) \<Rightarrow> (Answered h, w5)))"

text \<open>The window to fetch: the demand, widened for a reader that is walking forward.\<close>

definition widen :: "ranges \<Rightarrow> span \<Rightarrow> u64 \<Rightarrow> u64 \<Rightarrow> span" where
  "widen have demanded frontier sz =
     (let off = sp_offset demanded;
          sequential = off = 0 \<or> (0 < off \<and> ranges_covers have (span_new (off - 1) 1))
      in if sequential
         then span_new off (min (max (span_end demanded) (sat_add frontier READAHEAD)) sz - off)
         else demanded)"

text \<open>After the fill: the mark is cleared only when every byte is held.\<close>

definition settle :: "worker_config \<Rightarrow> pre_content \<Rightarrow> file_id \<Rightarrow> u64 \<Rightarrow> span \<Rightarrow> ranges \<Rightarrow> world \<Rightarrow> handled \<times> world" where
  "settle su ev f sz demanded have w =
     (if ranges_covers have (span_whole sz)
      then (case on_file (finish_hydration sz) w of
              (Inr _, w1) \<Rightarrow>
                let w2 = w1\<lparr>wd_partial := partial_forget (wd_partial w1) f\<rparr>
                in (Hydrated sz,
                    case pc_path ev of None \<Rightarrow> w2 | Some p \<Rightarrow> snd (on_group (group_ignore p) w2))
            | (Inl e, w1) \<Rightarrow>
                let w2 = snd (on_file (abandon sz) w1)
                in (Failed (''hydration refused: '' @ su_show_error su e),
                    w2\<lparr>wd_partial := partial_forget (wd_partial w2) f\<rparr>))
      else (case on_file settle_range w of
              (Inr _, w1) \<Rightarrow> (Served (sp_len demanded) (ranges_total have) sz, remember f have w1)
            | (Inl e, w1) \<Rightarrow>
                let w2 = snd (on_file (abandon sz) w1)
                in (Failed (''could not settle a partial fill: '' @ su_show_error su e),
                    w2\<lparr>wd_partial := partial_forget (wd_partial w2) f\<rparr>)))"

text \<open>From the demand on: what is held already, what to fetch, the fill and how it ends.\<close>

definition fill_demand :: "worker_config \<Rightarrow> pre_content \<Rightarrow> file_id \<Rightarrow> u64 \<Rightarrow> span \<Rightarrow> ranges \<Rightarrow> world \<Rightarrow> handled \<times> world" where
  "fill_demand su ev f sz demanded have w =
     (case ranges_missing have demanded of
        [] \<Rightarrow> (AlreadyPresent, w)
      | first # _ \<Rightarrow>
          (case fill_spans su f sz demanded (pc_path ev) have
              (ranges_missing have (widen have demanded (sp_offset first) sz)) w of
             (Answered h, w1) \<Rightarrow> (h, w1)
           | (Filled have', w1) \<Rightarrow> settle su ev f sz demanded have' w1))"

definition demand_of :: "pre_content \<Rightarrow> u64 \<Rightarrow> span" where
  "demand_of ev sz =
     span_clamped_to (case ev_range (pc_event ev) of Some (off, n) \<Rightarrow> span_new off n | None \<Rightarrow> span_whole sz) sz"

text \<open>What the worker holds of the file, clearing what it cannot vouch for.\<close>

definition held_ranges :: "worker_config \<Rightarrow> file_id \<Rightarrow> u64 \<Rightarrow> world \<Rightarrow> (string + ranges) \<times> world" where
  "held_ranges su f sz w =
     (case on_file witness_fd w of
        (Inl e, w1) \<Rightarrow> (Inl (''could not stat the event fd: '' @ su_show_error su e), w1)
      | (Inr wt, w1) \<Rightarrow>
          (case partial_standing (wd_partial w1) f wt of
             (Ours r, p) \<Rightarrow> (Inr r, w1\<lparr>wd_partial := p\<rparr>)
           | (Unknown, p) \<Rightarrow>
               (case on_file (clear_residue sz) (w1\<lparr>wd_partial := p\<rparr>) of
                  (Inl e, w2) \<Rightarrow> (Inl (''could not clear an interrupted transfer: '' @ su_show_error su e), w2)
                | (Inr _, w2) \<Rightarrow> (Inr [], w2))))"

definition decide_and_fill :: "worker_config \<Rightarrow> pre_content \<Rightarrow> world \<Rightarrow> handled \<times> world" where
  "decide_and_fill su ev w =
     (case on_file has_mark_fd w of
        (Inr False, w1) \<Rightarrow> (AlreadyPresent, suppress_events ev w1)
      | (Inl e, w1) \<Rightarrow> (Failed (''could not read the placeholder mark: '' @ su_show_error su e), w1)
      | (Inr True, w1) \<Rightarrow>
          (case nothing_to_serve w1 of
             (Some outcome, w2) \<Rightarrow> (outcome, w2)
           | (None, w2) \<Rightarrow>
               (case policy_decide (su_policy su) (pc_cgroup ev) of
                  Deny rule \<Rightarrow>
                    (Denied rule,
                     w2\<lparr>wd_log := denial_record (wd_log w2)
                         (case pc_cgroup ev of Some c \<Rightarrow> c | None \<Rightarrow> ''?'') rule (pc_path ev)\<rparr>)
                | Hydrate \<Rightarrow>
                    (case on_file id_and_size_fd w2 of
                       (Inl e, w3) \<Rightarrow> (Failed (''could not stat the event fd: '' @ su_show_error su e), w3)
                     | (Inr (f, sz), w3) \<Rightarrow>
                         (case held_ranges su f sz w3 of
                            (Inl reason, w4) \<Rightarrow> (Failed reason, w4)
                          | (Inr have, w4) \<Rightarrow> fill_demand su ev f sz (demand_of ev sz) have w4)))))"

section \<open>Answering\<close>

fun lets_through :: "handled \<Rightarrow> bool" where
  "lets_through (Hydrated n) = True"
| "lets_through (Served n h sz) = True"
| "lets_through AlreadyPresent = True"
| "lets_through Empty = True"
| "lets_through h = False"

definition log_outcome :: "handled \<Rightarrow> string option \<Rightarrow> world \<Rightarrow> world" where
  "log_outcome h path w =
     (case h of Failed reason \<Rightarrow> w\<lparr>wd_failures := failure_record (wd_failures w) reason path\<rparr> | _ \<Rightarrow> w)"

definition handle :: "worker_config \<Rightarrow> pre_content \<Rightarrow> world \<Rightarrow> handled \<times> world" where
  "handle su ev w =
     (let fd = ev_fd (pc_event ev)
      in if fd < 0
         then (let reason = ''event carried no fd''
               in (Failed reason, w\<lparr>wd_failures := failure_record (wd_failures w) reason None\<rparr>))
         else (case decide_and_fill su ev (on_page (holding fd) w) of
                 (outcome, w1) \<Rightarrow>
                   (case on_group (if lets_through outcome then allow fd else deny fd)
                           (log_outcome outcome (pc_path_after ev) w1) of
                      (r, w2) \<Rightarrow>
                        let w3 = (on_page released w2)\<lparr>wd_closed := wd_closed w2 @ [fd]\<rparr>
                        in (case r of
                              Inr _ \<Rightarrow> (outcome, w3)
                            | Inl e \<Rightarrow>
                                let reason = ''could not answer the event: '' @ su_show_error su e
                                in (Failed reason, w3\<lparr>wd_failures := failure_record (wd_failures w3) reason None\<rparr>)))))"

section \<open>What the steps leave alone\<close>

definition w_file :: "world \<Rightarrow> inode" where
  "w_file w = k_file (wd_kernel w)"

lemma on_page_simps [simp]:
  "wd_kernel (on_page act w) = wd_kernel w" "wd_timed (on_page act w) = wd_timed w"
  "wd_partial (on_page act w) = wd_partial w" "wd_log (on_page act w) = wd_log w"
  "wd_failures (on_page act w) = wd_failures w" "wd_group (on_page act w) = wd_group w"
  "wd_closed (on_page act w) = wd_closed w" "wd_page (on_page act w) = act (wd_page w)"
  "w_file (on_page act w) = w_file w"
  by (simp_all add: on_page_def w_file_def Let_def)

lemma on_page_trace: "wd_trace (on_page act w) = wd_trace w @ [seen (on_page act w)]"
  by (simp add: on_page_def seen_def Let_def)

lemma on_page_pow [simp]:
  "wd_kernel ((on_page act ^^ n) w) = wd_kernel w" "wd_timed ((on_page act ^^ n) w) = wd_timed w"
  "wd_partial ((on_page act ^^ n) w) = wd_partial w" "wd_log ((on_page act ^^ n) w) = wd_log w"
  "wd_failures ((on_page act ^^ n) w) = wd_failures w" "wd_group ((on_page act ^^ n) w) = wd_group w"
  "wd_closed ((on_page act ^^ n) w) = wd_closed w" "wd_page ((on_page act ^^ n) w) = (act ^^ n) (wd_page w)"
  "w_file ((on_page act ^^ n) w) = w_file w"
  by (induction n) simp_all

lemma on_fileD:
  "on_file m w = (r, w') \<Longrightarrow> m (wd_kernel w) = (r, wd_kernel w') \<and> w' = w\<lparr>wd_kernel := wd_kernel w'\<rparr>"
  by (auto simp: on_file_def split: prod.splits)

text \<open>A call that only reads.\<close>

definition reads :: "'a sys \<Rightarrow> bool" where
  "reads m \<longleftrightarrow> (\<forall>k. k_file (snd (m k)) = k_file k)"

named_theorems reads_rules \<open>calls that leave the file as it is\<close>

lemma reads_call: "reads act \<Longrightarrow> reads (sys_call act)"
  by (auto simp: reads_def sys_call_def split: prod.splits outcome.splits)

lemma reads_return [reads_rules]: "reads (sys_return a)"
  by (simp add: reads_def sys_return_def)

lemma reads_bind [reads_rules]: "reads m \<Longrightarrow> (\<And>a. reads (f a)) \<Longrightarrow> reads (sys_bind m f)"
  unfolding reads_def sys_bind_def by (auto split: sum.splits prod.splits) (metis snd_conv)+

lemma reads_fstat [reads_rules]: "reads sys_fstat"
  unfolding sys_fstat_def by (rule reads_call) (simp add: reads_def)

lemma reads_has_mark_fd [reads_rules]: "reads has_mark_fd"
proof -
  have "reads sys_has_mark" unfolding sys_has_mark_def by (rule reads_call) (simp add: reads_def)
  then show ?thesis unfolding reads_def has_mark_fd_def by (auto split: sum.splits prod.splits) (metis snd_conv)+
qed

lemma reads_holds_data_fd [reads_rules]: "reads holds_data_fd"
proof -
  have "reads sys_seek_data" unfolding sys_seek_data_def by (rule reads_call) (simp add: reads_def)
  then show ?thesis unfolding reads_def holds_data_fd_def by (auto split: sum.splits prod.splits) (metis snd_conv)+
qed

lemma reads_id_and_size_fd [reads_rules]: "reads id_and_size_fd"
  unfolding id_and_size_fd_def by (intro reads_rules)

lemma reads_witness_fd [reads_rules]: "reads witness_fd"
  unfolding witness_fd_def by (intro reads_rules)

lemma on_file_reads: "on_file m w = (r, w') \<Longrightarrow> reads m \<Longrightarrow> w_file w' = w_file w"
  by (auto simp: on_file_def reads_def w_file_def split: prod.splits) (metis snd_conv)

lemma on_file_quiet: "on_file m w = (r, w') \<Longrightarrow> quiet m \<Longrightarrow> core (w_file w') = core (w_file w)"
  using quietD [of m "wd_kernel w" r "wd_kernel w'"] on_fileD [of m w r w'] by (simp add: w_file_def)

text \<open>
  \<open>same_but_file w w'\<close>: only the kernel's side may differ.
\<close>

definition same_but_file :: "world \<Rightarrow> world \<Rightarrow> bool" where
  "same_but_file w w' \<longleftrightarrow> w' = w\<lparr>wd_kernel := wd_kernel w'\<rparr>"

lemma same_but_file_refl [simp]: "same_but_file w w"
  by (simp add: same_but_file_def)

lemma same_but_file_trans: "same_but_file w w1 \<Longrightarrow> same_but_file w1 w2 \<Longrightarrow> same_but_file w w2"
  unfolding same_but_file_def by (cases w, cases w1, cases w2) simp

lemma on_file_same: "on_file m w = (r, w') \<Longrightarrow> same_but_file w w'"
  using on_fileD by (auto simp: same_but_file_def)

lemma same_but_fileD:
  assumes "same_but_file w w'"
  shows "wd_timed w' = wd_timed w" "wd_partial w' = wd_partial w" "wd_log w' = wd_log w"
    "wd_failures w' = wd_failures w" "wd_page w' = wd_page w" "wd_group w' = wd_group w" "wd_closed w' = wd_closed w"
proof -
  obtain k where "w' = w\<lparr>wd_kernel := k\<rparr>" using assms by (auto simp: same_but_file_def)
  then show "wd_timed w' = wd_timed w" "wd_partial w' = wd_partial w" "wd_log w' = wd_log w"
    "wd_failures w' = wd_failures w" "wd_page w' = wd_page w" "wd_group w' = wd_group w" "wd_closed w' = wd_closed w"
    by simp_all
qed

text \<open>The identity of the file stays.\<close>

definition same_file :: "inode \<Rightarrow> inode \<Rightarrow> bool" where
  "same_file f f' \<longleftrightarrow> f_id f' = f_id f \<and> f_size f' = f_size f \<and> f_nlink f' = f_nlink f \<and> f_mark f' = f_mark f"

lemma same_file_refl [simp]: "same_file f f"
  by (simp add: same_file_def)

lemma same_file_trans: "same_file f g \<Longrightarrow> same_file g h \<Longrightarrow> same_file f h"
  by (simp add: same_file_def)

lemma same_file_core: "core f' = core f \<Longrightarrow> same_file f f' \<and> present f' = present f"
  by (simp add: same_file_def core_eq present_def)

lemma same_file_grown: "grown f f' \<Longrightarrow> same_file f f'"
  by (simp add: same_file_def grown_def)

lemma same_file_shrunk: "shrunk f f' \<Longrightarrow> same_file f f'"
  by (simp add: same_file_def shrunk_def)

section \<open>The record\<close>

text \<open>\<open>settled f w\<close>: the memory is well formed, and what it holds of the file is in the file.\<close>

definition settled :: "file_id \<Rightarrow> world \<Rightarrow> bool" where
  "settled f w \<longleftrightarrow> partial_inv (wd_partial w) \<and>
     (\<forall>h. partial_lookup (wd_partial w) f = Some h \<longrightarrow> ranges_bytes (h_have h) \<subseteq> present (w_file w))"

lemma remember_keeps:
  assumes "ranges_ok have" "partial_inv (wd_partial w)"
    and "ranges_bytes have \<subseteq> present (w_file w)"
  shows "settled f (remember f have w)" and "w_file (remember f have w) = w_file w"
    and "wd_timed (remember f have w) = wd_timed w" and "wd_group (remember f have w) = wd_group w"
proof -
  obtain r w1 where o: "on_file witness_fd w = (r, w1)" by fastforce
  note s = same_but_fileD [OF on_file_same [OF o]] and f = on_file_reads [OF o reads_witness_fd]
  have k: "k_file (wd_kernel w1) = k_file (wd_kernel w)" using f by (simp add: w_file_def)
  show "settled f (remember f have w)"
  proof (cases r)
    case (Inl e)
    then show ?thesis using o s assms partial_forget_inv [of "wd_partial w" f]
      by (simp add: remember_def settled_def)
  next
    case (Inr wt)
    have "h_have h = have" if "partial_lookup (partial_record (wd_partial w) f wt have) f = Some h" for h
      using partial_record_lookup [OF that] by simp
    then show ?thesis using o s Inr assms partial_record_inv [of "wd_partial w" "have" f wt]
      by (auto simp: remember_def settled_def w_file_def k)
  qed
  show "w_file (remember f have w) = w_file w" "wd_timed (remember f have w) = wd_timed w"
    "wd_group (remember f have w) = wd_group w"
    using o s f by (auto simp: remember_def w_file_def split: sum.splits)
qed

lemma fill_failed_keeps:
  assumes "fill_failed su f have err path w = (h, w')"
    and "ranges_ok have" "partial_inv (wd_partial w)" "ranges_bytes have \<subseteq> present (w_file w)"
  shows "settled f w' \<and> same_file (w_file w) (w_file w') \<and> wd_timed w' = wd_timed w \<and> wd_group w' = wd_group w \<and>
    \<not> lets_through h \<and> (h = Failed (show_transfer_error (su_show_error su) err) \<or> (\<exists>r. h = Abandoned r))"
proof -
  obtain r w1 where o: "on_file stamp_write_fd w = (r, w1)" by fastforce
  note s = same_but_fileD [OF on_file_same [OF o]] and c = same_file_core [OF on_file_quiet [OF o quiet_stamp]]
  define w2 where "w2 = remember f have w1"
  have rk: "settled f w2" "w_file w2 = w_file w1" "wd_timed w2 = wd_timed w1" "wd_group w2 = wd_group w1"
    unfolding w2_def by (rule remember_keeps; use assms(2-4) s c in simp)+
  have w': "w' = (if gives_up err then w2\<lparr>wd_log := denial_record (wd_log w2) ''-'' ''transfer abandoned'' path\<rparr> else w2)"
    and h: "h = (if gives_up err then Abandoned else Failed) (show_transfer_error (su_show_error su) err)"
    using assms(1) o by (auto simp: fill_failed_def w2_def Let_def split: if_splits)
  have f: "w_file w' = w_file w2" "wd_partial w' = wd_partial w2" "wd_timed w' = wd_timed w2" "wd_group w' = wd_group w2"
    unfolding w' w_file_def by simp_all
  have "settled f w'" using rk(1) f by (simp add: settled_def)
  with rk f c s h show ?thesis by auto
qed

section \<open>The fill\<close>

definition span_in :: "u64 \<Rightarrow> span \<Rightarrow> bool" where
  "span_in sz sp \<longleftrightarrow> sp_offset sp < span_end sp \<and> unat (sp_offset sp) + unat (sp_len sp) \<le> unat sz"

lemma span_in_new: "c < d \<Longrightarrow> d \<le> sz \<Longrightarrow> span_in sz (span_new c (d - c))"
  by (auto simp: span_in_def word_less_nat_alt word_le_nat_alt unat_sub)

lemma span_in_missing:
  assumes "t \<in> set (ranges_missing r s)" "span_end s \<le> sz"
  shows "span_in sz t" "sp_offset s \<le> sp_offset t"
proof -
  obtain c d where "sp_offset s \<le> c" "c < d" "d \<le> span_end s" "t = span_new c (d - c)"
    using missing_from_elem assms(1) unfolding ranges_missing_def by blast
  with assms(2) show "span_in sz t" "sp_offset s \<le> sp_offset t" by (auto intro: span_in_new)
qed

lemma span_in_intersect:
  assumes "span_intersect sp d = Some u" "span_end d \<le> sz"
  shows "span_in sz u"
proof -
  note u = span_intersect_SomeD [OF assms(1)]
  have "min (span_end sp) (span_end d) \<le> sz" using assms(2) by (rule min.coboundedI2)
  with u show ?thesis by (simp only: span_in_new)
qed

lemma punch_keeps:
  assumes "on_file (punch_range_fd off n) w = (r, w')"
  shows "same_file (w_file w) (w_file w')" "present (w_file w) - span_bytes (span_new off n) \<subseteq> present (w_file w')"
proof -
  have p: "punch_range_fd off n (wd_kernel w) = (r, wd_kernel w')" using on_fileD [OF assms] by simp
  show "same_file (w_file w) (w_file w')"
    using shrunk_punch_range [of "wd_kernel w" off n] p by (simp add: w_file_def same_file_shrunk)
  from punch_range_fd_file [OF p] show "present (w_file w) - span_bytes (span_new off n) \<subseteq> present (w_file w')"
    by (elim disjE exE) (auto simp: w_file_def present_def file_punch_def file_touch_def data_punch_def)
qed

text \<open>What a step of the fill keeps: the file is the same one, the channel is in order, the memory untouched.\<close>

definition fill_inv :: "(file_id \<Rightarrow> u64) \<Rightarrow> file_id \<Rightarrow> nat \<Rightarrow> world \<Rightarrow> bool" where
  "fill_inv sizes f n w \<longleftrightarrow> timed_inv sizes (wd_timed w) \<and> f_id (w_file w) = f \<and> f_size (w_file w) = sizes f \<and>
     partial_inv (wd_partial w) \<and> unat (tm_seq (wd_timed w)) + n < 2 ^ 64"

lemma fill_inv_file:
  "fill_inv sizes f n w \<Longrightarrow> same_file (w_file w) (w_file w') \<Longrightarrow> wd_timed w' = wd_timed w \<Longrightarrow>
     wd_partial w' = wd_partial w \<Longrightarrow> fill_inv sizes f n w'"
  by (simp add: fill_inv_def same_file_def)

lemma punch_fill_inv:
  assumes "fill_inv sizes f n w"
  shows "fill_inv sizes f n (snd (on_file (punch_range_fd off l) w))"
    "same_file (w_file w) (w_file (snd (on_file (punch_range_fd off l) w)))"
    "present (w_file w) - span_bytes (span_new off l) \<subseteq> present (w_file (snd (on_file (punch_range_fd off l) w)))"
    "wd_group (snd (on_file (punch_range_fd off l) w)) = wd_group w"
proof -
  obtain r w' where o: "on_file (punch_range_fd off l) w = (r, w')" by fastforce
  note p = punch_keeps [OF o] and s = same_but_fileD [OF on_file_same [OF o]]
  from fill_inv_file [OF assms p(1) s(1,2)] p s show "fill_inv sizes f n (snd (on_file (punch_range_fd off l) w))"
    "same_file (w_file w) (w_file (snd (on_file (punch_range_fd off l) w)))"
    "present (w_file w) - span_bytes (span_new off l) \<subseteq> present (w_file (snd (on_file (punch_range_fd off l) w)))"
    "wd_group (snd (on_file (punch_range_fd off l) w)) = wd_group w"
    by (simp_all add: o)
qed

context fetch_contract
begin

lemma transfer_keeps:
  assumes "transfer su f sz sp w = (r, w')" "su_script su = script"
    and "fill_inv sizes f (Suc n) w" "sz = sizes f" "span_in sz sp"
  shows "fill_inv sizes f n w'" and "same_file (w_file w) (w_file w')" and "present (w_file w) \<subseteq> present (w_file w')"
    and "r = Inr () \<Longrightarrow> span_bytes sp \<subseteq> present (w_file w')" and "wd_group w' = wd_group w"
proof -
  obtain r1 t k where run: "timed_run (su_script su) f sz sp (su_limits su) (wd_timed w) (wd_kernel w) = (r1, t, k)"
    by (metis prod_cases3)
  have w': "wd_timed w' = t" "wd_kernel w' = k" "wd_partial w' = wd_partial w" "wd_group w' = wd_group w"
    and r: "r = map_sum (\<lambda>e. e) (\<lambda>_. ()) r1"
    using assms(1) run by (auto simp: transfer_def)
  note i = assms(3) [unfolded fill_inv_def w_file_def]
  have k: "grown (k_file (wd_kernel w)) (k_file k) \<and> timed_inv sizes t \<and> unat (tm_seq t) \<le> unat (tm_seq (wd_timed w)) + 1 \<and>
    (\<forall>n. r1 = Inr n \<longrightarrow> span_bytes sp \<subseteq> present (k_file k))"
    using i assms(4,5) run [unfolded assms(2)] by (intro timed_run_keeps) (auto simp: span_in_def)
  then show "same_file (w_file w) (w_file w')" "present (w_file w) \<subseteq> present (w_file w')"
    by (auto simp: w_file_def w' same_file_grown) (auto simp: grown_def)
  with k i w' show "fill_inv sizes f n w'" by (auto simp: fill_inv_def same_file_def w_file_def)
  show "r = Inr () \<Longrightarrow> span_bytes sp \<subseteq> present (w_file w')"
    using k r by (cases r1) (auto simp: w_file_def w')
  show "wd_group w' = wd_group w" by (rule w'(4))
qed

end

text \<open>The spans to fetch: in order, none touching the next, inside the file, none before the demand.\<close>

definition to_fetch :: "u64 \<Rightarrow> span \<Rightarrow> span list \<Rightarrow> bool" where
  "to_fetch sz demanded ss \<longleftrightarrow> sorted_wrt (\<lambda>u v. span_end u < sp_offset v) ss \<and>
     (\<forall>sp\<in>set ss. span_in sz sp \<and> sp_offset demanded \<le> sp_offset sp)"

lemma to_fetch_Cons:
  "to_fetch sz d (sp # rest) \<longleftrightarrow> to_fetch sz d rest \<and> span_in sz sp \<and> sp_offset d \<le> sp_offset sp \<and>
     (\<forall>v\<in>set rest. span_end sp < sp_offset v)"
  by (auto simp: to_fetch_def)

text \<open>A span that reaches past the demand leaves nothing of it for the later ones.\<close>

lemma later_spans_outside:
  assumes "to_fetch sz d (sp # rest)" "span_end d \<le> span_end sp"
  shows "span_bytes d \<inter> spans_bytes rest = {}"
proof -
  have "span_bytes d \<inter> span_bytes v = {}" if "v \<in> set rest" for v
  proof -
    have "span_end d < sp_offset v" using that assms by (fastforce simp: to_fetch_Cons intro: le_less_trans)
    then show ?thesis by (auto simp: span_bytes_def)
  qed
  then show ?thesis by (auto simp: spans_bytes_def)
qed

lemma span_past_demand:
  assumes "sp_offset d \<le> sp_offset sp" "sp_offset sp < span_end sp"
  shows "span_intersect sp d = None \<Longrightarrow> span_bytes d \<inter> span_bytes sp = {} \<and> (sp_offset d < span_end d \<longrightarrow> span_end d \<le> span_end sp)"
    and "span_intersect sp d = Some u \<Longrightarrow> u \<noteq> sp \<Longrightarrow> span_in sz sp \<Longrightarrow> span_end d \<le> span_end sp"
proof -
  assume n: "span_intersect sp d = None"
  then have e: "span_bytes sp \<inter> span_bytes d = {}" by (simp add: span_intersect_None)
  have "span_end d \<le> span_end sp" if "sp_offset d < span_end d"
  proof (rule ccontr)
    assume "\<not> span_end d \<le> span_end sp"
    then have "sp_offset sp \<in> span_bytes sp \<inter> span_bytes d" using assms by (auto simp: span_bytes_def)
    with e show False by simp
  qed
  with e show "span_bytes d \<inter> span_bytes sp = {} \<and> (sp_offset d < span_end d \<longrightarrow> span_end d \<le> span_end sp)" by auto
next
  assume s: "span_intersect sp d = Some u" and ne: "u \<noteq> sp" and i: "span_in sz sp"
  show "span_end d \<le> span_end sp"
  proof (rule ccontr)
    assume "\<not> span_end d \<le> span_end sp"
    then have "u = span_new (sp_offset sp) (span_end sp - sp_offset sp)"
      using span_intersect_SomeD(2) [OF s] assms(1) by (simp add: max.absorb1 min.absorb1)
    moreover have "span_end sp - sp_offset sp = sp_len sp"
    proof -
      have "\<not> sp_offset sp + sp_len sp < sp_offset sp"
        using i unsigned_less [of sz, where ?'a = nat] by (simp add: span_in_def add_overflows_iff)
      then show ?thesis by (simp add: span_end_def sat_add_def)
    qed
    ultimately have "u = sp" by simp
    with ne show False by blast
  qed
qed

text \<open>How a fill ends: with a record that covers the demand, or answered with a failure.\<close>

definition fill_done :: "(file_id \<Rightarrow> u64) \<Rightarrow> file_id \<Rightarrow> span \<Rightarrow> world \<Rightarrow> filled \<Rightarrow> world \<Rightarrow> bool" where
  "fill_done sizes f d w res w' \<longleftrightarrow>
     same_file (w_file w) (w_file w') \<and> wd_group w' = wd_group w \<and> timed_inv sizes (wd_timed w') \<and>
     (case res of
        Filled got \<Rightarrow> partial_inv (wd_partial w') \<and> ranges_ok got \<and> ranges_bytes got \<subseteq> present (w_file w') \<and>
                      span_bytes d \<subseteq> ranges_bytes got
      | Answered h \<Rightarrow> settled f w' \<and> \<not> lets_through h)"

lemma fill_done_mono:
  "fill_done sizes f d w1 res w' \<Longrightarrow> same_file (w_file w) (w_file w1) \<Longrightarrow> wd_group w1 = wd_group w \<Longrightarrow>
     fill_done sizes f d w res w'"
  unfolding fill_done_def by (metis same_file_trans)

lemma span_in_ok: "span_in sz sp \<Longrightarrow> span_ok sp"
  by (simp add: span_in_def span_ok_def)

lemma fill_inv_mono: "fill_inv sizes f n w \<Longrightarrow> m \<le> n \<Longrightarrow> fill_inv sizes f m w"
  by (simp add: fill_inv_def)

lemma failed_answer_done:
  assumes "fill_failed su f got err path w1 = (h, w')" "fill_inv sizes f n w1" "ranges_ok got"
    and "ranges_bytes got \<subseteq> present (w_file w1)" "same_file (w_file w) (w_file w1)" "wd_group w1 = wd_group w"
  shows "fill_done sizes f d w (Answered h) w'"
proof -
  have "partial_inv (wd_partial w1)" "timed_inv sizes (wd_timed w1)" using assms(2) by (simp_all add: fill_inv_def)
  with fill_failed_keeps [OF assms(1,3) _ assms(4)] assms(5,6) show ?thesis
    by (auto simp: fill_done_def intro: same_file_trans)
qed

context fetch_contract
begin

lemma fill_spans_keeps:
  assumes "fill_spans su f sz d path got ss w = (res, w')" "su_script su = script" "sz = sizes f"
    and "fill_inv sizes f (Suc (length ss)) w" "to_fetch sz d ss" "span_end d \<le> sz" "ranges_ok got"
    and "ranges_bytes got \<subseteq> present (w_file w)" "ranges_bytes got \<inter> spans_bytes ss = {}"
    and "span_bytes d - ranges_bytes got \<subseteq> spans_bytes ss"
  shows "fill_done sizes f d w res w'"
  using assms
proof (induction ss arbitrary: got w)
  case Nil
  then show ?case by (auto simp: fill_done_def fill_inv_def)
next
  case (Cons sp rest)
  have sp: "span_in sz sp" "sp_offset d \<le> sp_offset sp" "to_fetch sz d rest"
    using Cons.prems(5) by (simp_all add: to_fetch_Cons)
  have inv: "fill_inv sizes f (Suc (Suc (length rest))) w" using Cons.prems(4) by simp
  obtain r w1 where tr: "transfer su f sz sp w = (r, w1)" by fastforce
  note k = transfer_keeps [OF tr Cons.prems(2) inv Cons.prems(3) sp(1)]
  show ?case
  proof (cases r)
    case (Inr u)
    have run: "fill_spans su f sz d path (ranges_add got sp) rest w1 = (res, w')"
      using Cons.prems(1) tr Inr by simp
    note add = ranges_add_ok [OF Cons.prems(7) span_in_ok [OF sp(1)]]
    have dis: "span_bytes sp \<inter> spans_bytes rest = {}"
    proof -
      have "span_bytes sp \<inter> span_bytes v = {}" if "v \<in> set rest" for v
      proof -
        have "span_end sp < sp_offset v" using that Cons.prems(5) by (simp add: to_fetch_Cons)
        then show ?thesis by (auto simp: span_bytes_def)
      qed
      then show ?thesis by (auto simp: spans_bytes_def)
    qed
    have "fill_done sizes f d w1 res w'"
    proof (rule Cons.IH [OF run Cons.prems(2,3) k(1) sp(3) Cons.prems(6)])
      show "ranges_ok (ranges_add got sp)" by (rule add(1))
      show "ranges_bytes (ranges_add got sp) \<subseteq> present (w_file w1)"
        using add(2) Cons.prems(8) k(3,4) Inr by auto
      show "ranges_bytes (ranges_add got sp) \<inter> spans_bytes rest = {}"
        using add(2) Cons.prems(9) dis by auto
      show "span_bytes d - ranges_bytes (ranges_add got sp) \<subseteq> spans_bytes rest"
        using add(2) Cons.prems(10) by auto
    qed
    then show ?thesis using k(2,5) by (rule fill_done_mono)
  next
    case (Inl e)
    define w2 where "w2 = snd (on_file (punch_range_fd (sp_offset sp) (sp_len sp)) w1)"
    have p: "fill_inv sizes f (Suc (length rest)) w2" "same_file (w_file w1) (w_file w2)"
      "present (w_file w1) - span_bytes sp \<subseteq> present (w_file w2)" "wd_group w2 = wd_group w1"
      using punch_fill_inv [OF k(1), of "sp_offset sp" "sp_len sp"] by (simp_all add: w2_def)
    have s2: "same_file (w_file w) (w_file w2)" "wd_group w2 = wd_group w"
      using same_file_trans [OF k(2) p(2)] p(4) k(5) by simp_all
    have got2: "ranges_bytes got \<subseteq> present (w_file w2)"
      using Cons.prems(8,9) k(3) p(3) by auto
    show ?thesis
    proof (cases "span_intersect sp d")
      case None
      have res: "res = Filled got" "w' = w2" using Cons.prems(1) tr Inl None by (simp_all add: w2_def Let_def)
      note out = span_past_demand(1) [OF sp(2) _ None]
      have "span_bytes d \<inter> spans_bytes (sp # rest) = {}"
      proof (cases "sp_offset d < span_end d")
        case True
        with out sp(1) later_spans_outside [OF Cons.prems(5)] show ?thesis by (auto simp: span_in_def)
      qed (auto simp: span_bytes_def)
      then have "span_bytes d \<subseteq> ranges_bytes got" using Cons.prems(10) by auto
      then show ?thesis using res p(1) s2 got2 Cons.prems(7) by (simp add: fill_done_def fill_inv_def)
    next
      case (Some only)
      show ?thesis
      proof (cases "only = sp")
        case True
        obtain h w5 where ff: "fill_failed su f got e path w2 = (h, w5)" by fastforce
        then have "res = Answered h" "w' = w5" using Cons.prems(1) tr Inl Some True by (simp_all add: w2_def Let_def)
        then show ?thesis using failed_answer_done [OF ff p(1) Cons.prems(7) got2 s2] by simp
      next
        case ne: False
        have on: "span_in sz only" by (rule span_in_intersect [OF Some Cons.prems(6)])
        have ob: "span_bytes only = span_bytes sp \<inter> span_bytes d" by (rule span_intersect_bytes [OF Some])
        obtain r3 w3 where t2: "transfer su f sz only w2 = (r3, w3)" by fastforce
        note k2 = transfer_keeps [OF t2 Cons.prems(2) p(1) Cons.prems(3) on]
        have s3: "same_file (w_file w) (w_file w3)" "wd_group w3 = wd_group w"
          using same_file_trans [OF s2(1) k2(2)] s2(2) k2(5) by simp_all
        show ?thesis
        proof (cases r3)
          case (Inl again)
          define w4 where "w4 = snd (on_file (punch_range_fd (sp_offset only) (sp_len only)) w3)"
          have p4: "fill_inv sizes f (length rest) w4" "same_file (w_file w3) (w_file w4)"
            "present (w_file w3) - span_bytes only \<subseteq> present (w_file w4)" "wd_group w4 = wd_group w3"
            using punch_fill_inv [OF k2(1), of "sp_offset only" "sp_len only"] by (simp_all add: w4_def)
          have s4: "same_file (w_file w) (w_file w4)" "wd_group w4 = wd_group w"
            using same_file_trans [OF s3(1) p4(2)] s3(2) p4(4) by simp_all
          have got4: "ranges_bytes got \<subseteq> present (w_file w4)"
          proof
            fix x assume x: "x \<in> ranges_bytes got"
            then have "x \<notin> span_bytes only" using ob Cons.prems(9) by auto
            with x got2 k2(3) p4(3) show "x \<in> present (w_file w4)" by blast
          qed
          obtain h w5 where ff: "fill_failed su f got again path w4 = (h, w5)" by fastforce
          then have "res = Answered h" "w' = w5"
            using Cons.prems(1) tr \<open>r = Inl e\<close> Some ne t2 Inl by (simp_all add: w2_def w4_def Let_def)
          then show ?thesis using failed_answer_done [OF ff p4(1) Cons.prems(7) got4 s4] by simp
        next
          case (Inr u)
          have res: "res = Filled (ranges_add got only)" "w' = w3"
            using Cons.prems(1) tr Inl Some ne t2 Inr by (simp_all add: w2_def Let_def)
          note add = ranges_add_ok [OF Cons.prems(7) span_in_ok [OF on]]
          have "span_bytes d \<inter> spans_bytes rest = {}"
            using later_spans_outside [OF Cons.prems(5)] span_past_demand(2) [OF sp(2) _ Some ne sp(1)] sp(1)
            by (simp add: span_in_def)
          then have "span_bytes d \<subseteq> ranges_bytes (ranges_add got only)"
            using Cons.prems(10) add(2) ob by auto
          moreover have "ranges_bytes (ranges_add got only) \<subseteq> present (w_file w3)"
            using add(2) got2 k2(3,4) Inr by auto
          ultimately show ?thesis using res add(1) k2(1) s3 by (simp add: fill_done_def fill_inv_def)
        qed
      qed
    qed
  qed
qed

end

section \<open>The window\<close>

lemma widen_facts:
  assumes "span_end d \<le> sz"
  shows "sp_offset (widen got d frontier sz) = sp_offset d" "span_end (widen got d frontier sz) \<le> sz"
    and "span_bytes d \<subseteq> span_bytes (widen got d frontier sz)"
    and "span_end (widen got d frontier sz) \<le> max (span_end d) (sat_add frontier READAHEAD)"
proof -
  define en where "en = min (max (span_end d) (sat_add frontier READAHEAD)) sz"
  have le: "span_end d \<le> en" "en \<le> sz" "en \<le> max (span_end d) (sat_add frontier READAHEAD)"
    using assms by (simp_all add: en_def)
  have o: "sp_offset d \<le> en" using span_offset_le_end [of d] le(1) by (rule order.trans)
  have "widen got d frontier sz = span_new (sp_offset d) (en - sp_offset d) \<or> widen got d frontier sz = d"
    by (auto simp: widen_def en_def Let_def)
  then show "sp_offset (widen got d frontier sz) = sp_offset d" "span_end (widen got d frontier sz) \<le> sz"
    "span_bytes d \<subseteq> span_bytes (widen got d frontier sz)"
    "span_end (widen got d frontier sz) \<le> max (span_end d) (sat_add frontier READAHEAD)"
    using o le assms by (auto simp: span_bytes_def)
qed

lemma length_missing_from: "length (missing_from a b r) \<le> Suc (length r)"
proof (induction a b r rule: missing_from.induct)
  case (2 a b s e rs)
  then show ?case by (auto simp: Let_def intro: le_SucI split: if_splits)
qed simp

lemma missing_to_fetch:
  fixes frontier :: u64
  assumes "ranges_ok got" "span_end d \<le> sz"
  defines "ss \<equiv> ranges_missing got (widen got d frontier sz)"
  shows "to_fetch sz d ss" "ranges_bytes got \<inter> spans_bytes ss = {}" "span_bytes d - ranges_bytes got \<subseteq> spans_bytes ss"
    and "length ss \<le> Suc (length got)"
proof -
  note w = widen_facts [OF assms(2), of got frontier]
  have "sorted_wrt (\<lambda>u v. span_end u < sp_offset v) ss"
    unfolding ss_def ranges_missing_def by (rule missing_from_sorted [OF assms(1)])
  moreover have "span_in sz sp \<and> sp_offset d \<le> sp_offset sp" if "sp \<in> set ss" for sp
    using span_in_missing [OF that [unfolded ss_def] w(2)] w(1) by simp
  ultimately show "to_fetch sz d ss" by (simp add: to_fetch_def)
  have b: "spans_bytes ss = span_bytes (widen got d frontier sz) - ranges_bytes got"
    unfolding ss_def by (rule ranges_missing_bytes [OF assms(1)])
  then show "ranges_bytes got \<inter> spans_bytes ss = {}" "span_bytes d - ranges_bytes got \<subseteq> spans_bytes ss"
    using w(3) by auto
  show "length ss \<le> Suc (length got)"
    unfolding ss_def ranges_missing_def by (rule length_missing_from)
qed

section \<open>Settling\<close>

text \<open>Identity and size; the mark may have gone.\<close>

definition same_id :: "inode \<Rightarrow> inode \<Rightarrow> bool" where
  "same_id f f' \<longleftrightarrow> f_id f' = f_id f \<and> f_size f' = f_size f \<and> f_nlink f' = f_nlink f"

lemma same_file_id: "same_file f f' \<Longrightarrow> same_id f f'"
  by (simp add: same_file_def same_id_def)

lemma same_id_trans: "same_id f g \<Longrightarrow> same_id g h \<Longrightarrow> same_id f h"
  by (simp add: same_id_def)

definition refused :: "worker_config \<Rightarrow> handled \<Rightarrow> bool" where
  "refused su h \<longleftrightarrow> (\<exists>e. h = Failed (''hydration refused: '' @ su_show_error su e))"

lemma group_mark_answers: "gr_answers (snd (group_ignore p g)) = gr_answers g"
  by (auto simp: group_ignore_def group_mark_def group_call_def split: list.splits option.splits)

lemma settled_forget: "partial_inv (wd_partial w) \<Longrightarrow> settled f (w\<lparr>wd_partial := partial_forget (wd_partial w) f\<rparr>)"
  by (simp add: settled_def partial_forget_inv)

text \<open>The state after an abandoned file: its record is gone.\<close>

lemma abandon_keeps:
  fixes sz :: u64 and f :: file_id
  assumes "partial_inv (wd_partial w)"
  defines "w' \<equiv> (snd (on_file (abandon sz) w))\<lparr>wd_partial := partial_forget (wd_partial (snd (on_file (abandon sz) w))) f\<rparr>"
  shows "settled f w'" "same_file (w_file w) (w_file w')" "wd_timed w' = wd_timed w" "wd_group w' = wd_group w"
proof -
  obtain r w1 where o: "on_file (abandon sz) w = (r, w1)" by fastforce
  note s = same_but_fileD [OF on_file_same [OF o]]
  have "abandon sz (wd_kernel w) = (r, wd_kernel w1)" using on_fileD [OF o] by simp
  then have f: "same_file (w_file w) (w_file w1)"
    using shrunk_abandon [of "wd_kernel w" sz] by (simp add: w_file_def same_file_shrunk)
  show "settled f w'" using settled_forget [of w1 f] s assms(1) by (simp add: w'_def o)
  show "same_file (w_file w) (w_file w')" using f by (simp add: w'_def o w_file_def)
  show "wd_timed w' = wd_timed w" "wd_group w' = wd_group w" using s by (simp_all add: w'_def o)
qed

definition settle_done :: "worker_config \<Rightarrow> file_id \<Rightarrow> span \<Rightarrow> world \<Rightarrow> handled \<Rightarrow> world \<Rightarrow> bool" where
  "settle_done su f d w h w' \<longleftrightarrow>
     settled f w' \<and> same_id (w_file w) (w_file w') \<and> wd_timed w' = wd_timed w \<and>
     gr_answers (wd_group w') = gr_answers (wd_group w) \<and>
     (lets_through h \<longrightarrow> span_bytes d \<subseteq> present (w_file w')) \<and>
     (f_mark (w_file w) \<longrightarrow> file_safe (w_file w') \<or> refused su h)"

lemma settle_complete:
  assumes "settle su ev f sz d got w = (h, w')" "ranges_covers got (span_whole sz)"
    and "f_size (w_file w) = sz" "partial_inv (wd_partial w)" "ranges_ok got"
    and "ranges_bytes got \<subseteq> present (w_file w)" "span_bytes d \<subseteq> ranges_bytes got"
  shows "settle_done su f d w h w'"
proof -
  obtain r w1 where o: "on_file (finish_hydration sz) w = (r, w1)" by fastforce
  note s = same_but_fileD [OF on_file_same [OF o]]
  have fin: "finish_hydration sz (wd_kernel w) = (r, wd_kernel w1)" using on_fileD [OF o] by simp
  note fc = finish_hydration_cases [OF fin, folded w_file_def]
  have all: "{..<sz} \<subseteq> present (w_file w)"
    using assms(2,5,6) ranges_covers_iff [of got "span_whole sz"] by auto
  have id: "same_id (w_file w) (w_file w1)" using fc by (auto simp: same_id_def shrunk_def)
  show ?thesis
  proof (cases r)
    case (Inl e)
    have h: "h = Failed (''hydration refused: '' @ su_show_error su e)"
      and w': "w' = (snd (on_file (abandon sz) w1))\<lparr>wd_partial := partial_forget (wd_partial (snd (on_file (abandon sz) w1))) f\<rparr>"
      using assms(1,2) o Inl by (auto simp: settle_def Let_def)
    have "partial_inv (wd_partial w1)" using assms(4) s by simp
    note a = abandon_keeps [where sz = sz and f = f, OF this, folded w']
    have "same_id (w_file w) (w_file w')" using id same_file_id [OF a(2)] by (rule same_id_trans)
    with a s h show ?thesis by (auto simp: settle_done_def refused_def)
  next
    case (Inr u)
    define w2 where "w2 = w1\<lparr>wd_partial := partial_forget (wd_partial w1) f\<rparr>"
    have h: "h = Hydrated sz"
      and w': "w' = (case pc_path ev of None \<Rightarrow> w2 | Some p \<Rightarrow> snd (on_group (group_ignore p) w2))"
      using assms(1,2) o Inr by (auto simp: settle_def Let_def w2_def split: option.splits)
    have f: "wd_kernel w' = wd_kernel w1" "wd_partial w' = partial_forget (wd_partial w1) f" "wd_timed w' = wd_timed w1"
      "gr_answers (wd_group w') = gr_answers (wd_group w1)"
      unfolding w' w2_def by (auto simp: on_group_def group_mark_answers split: option.splits prod.splits)
        (metis group_mark_answers snd_conv)
    have data: "f_data (w_file w1) = f_data (w_file w)" using fc Inr by auto
    then have pr: "present (w_file w') = present (w_file w)" by (simp add: present_def w_file_def f(1))
    have sz1: "f_size (w_file w') = sz" using id assms(3) f(1) by (simp add: same_id_def w_file_def)
    have "complete (w_file w')" using all pr sz1 by (auto simp: complete_def present_def)
    moreover have "settled f w'" using f s assms(4) partial_forget_inv by (simp add: settled_def)
    ultimately show ?thesis
      using h id f s pr assms(6,7) by (auto simp: settle_done_def file_safe_def w_file_def)
  qed
qed

lemma settle_partial:
  assumes "settle su ev f sz d got w = (h, w')" "\<not> ranges_covers got (span_whole sz)"
    and "partial_inv (wd_partial w)" "ranges_ok got"
    and "ranges_bytes got \<subseteq> present (w_file w)" "span_bytes d \<subseteq> ranges_bytes got"
  shows "settle_done su f d w h w'"
proof -
  obtain r w1 where o: "on_file settle_range w = (r, w1)" by fastforce
  note s = same_but_fileD [OF on_file_same [OF o]] and q = same_file_core [OF on_file_quiet [OF o quiet_settle_range]]
  have pi: "partial_inv (wd_partial w1)" using assms(3) s by simp
  show ?thesis
  proof (cases r)
    case (Inl e)
    have h: "h = Failed (''could not settle a partial fill: '' @ su_show_error su e)"
      and w': "w' = (snd (on_file (abandon sz) w1))\<lparr>wd_partial := partial_forget (wd_partial (snd (on_file (abandon sz) w1))) f\<rparr>"
      using assms(1,2) o Inl by (auto simp: settle_def Let_def)
    note a = abandon_keeps [where sz = sz and f = f, OF pi, folded w']
    have "same_file (w_file w) (w_file w')" using conjunct1 [OF q] a(2) by (rule same_file_trans)
    with a s h show ?thesis by (auto simp: settle_done_def file_safe_def same_file_id) (simp add: same_file_def)
  next
    case (Inr u)
    have h: "h = Served (sp_len d) (ranges_total got) sz" and w': "w' = remember f got w1"
      using assms(1,2) o Inr by (auto simp: settle_def)
    have "ranges_bytes got \<subseteq> present (w_file w1)" using assms(5) q by simp
    note m = remember_keeps [OF assms(4) pi this, of f, folded w']
    show ?thesis using m q s assms(5,6)
      by (auto simp: settle_done_def file_safe_def same_file_id) (simp add: same_file_def)
  qed
qed

lemma settle_keeps:
  assumes "settle su ev f sz d got w = (h, w')" "f_size (w_file w) = sz" "partial_inv (wd_partial w)" "ranges_ok got"
    and "ranges_bytes got \<subseteq> present (w_file w)" "span_bytes d \<subseteq> ranges_bytes got"
  shows "settle_done su f d w h w'"
  using assms settle_complete settle_partial by (cases "ranges_covers got (span_whole sz)") blast+

section \<open>What is held\<close>

definition witness_of :: "inode \<Rightarrow> witness" where
  "witness_of f = \<lparr>w_mtime = f_mtime f, w_mtime_nsec = f_mtime_nsec f, w_size = f_size f\<rparr>"

text \<open>A record that the file still vouches for is true.\<close>

definition record_true :: "world \<Rightarrow> bool" where
  "record_true w \<longleftrightarrow> partial_inv (wd_partial w) \<and>
     (\<forall>h. partial_lookup (wd_partial w) (f_id (w_file w)) = Some h \<longrightarrow> h_witness h = witness_of (w_file w) \<longrightarrow>
        ranges_bytes (h_have h) \<subseteq> present (w_file w))"

lemma settled_true: "settled f w \<Longrightarrow> f_id (w_file w) = f \<Longrightarrow> record_true w"
  by (auto simp: settled_def record_true_def)

lemma witness_fd_Inr: "witness_fd k = (Inr wt, k') \<Longrightarrow> wt = witness_of (k_file k)"
  by (auto simp: witness_fd_def sys_bind_Inr sys_return_def witness_of_def dest!: sys_fstat_Inr)

lemma partial_held_ok: "partial_inv p \<Longrightarrow> partial_lookup p f = Some h \<Longrightarrow> ranges_ok (h_have h)"
  unfolding partial_inv_def partial_lookup_def by (drule map_of_SomeD) auto

text \<open>There are numbers left for the jobs of one event.\<close>

definition room :: "world \<Rightarrow> bool" where
  "room w \<longleftrightarrow> unat (tm_seq (wd_timed w)) + 2 < 2 ^ 64 \<and>
     (\<forall>h. partial_lookup (wd_partial w) (f_id (w_file w)) = Some h \<longrightarrow>
        unat (tm_seq (wd_timed w)) + length (h_have h) + 2 < 2 ^ 64)"

lemma held_ranges_keeps:
  assumes "held_ranges su f sz w = (res, w')" "record_true w" "f_id (w_file w) = f" "room w"
  shows "same_file (w_file w) (w_file w') \<and> wd_timed w' = wd_timed w \<and> wd_group w' = wd_group w \<and>
    (case res of
       Inl e \<Rightarrow> record_true w' \<and> \<not> refused su (Failed e)
     | Inr got \<Rightarrow> settled f w' \<and> ranges_ok got \<and> ranges_bytes got \<subseteq> present (w_file w') \<and>
         unat (tm_seq (wd_timed w)) + length got + 2 < 2 ^ 64)"
proof -
  have msg: "\<not> refused su (Failed (''could not stat the event fd: '' @ s))"
    "\<not> refused su (Failed (''could not clear an interrupted transfer: '' @ s))" for s
    by (simp_all add: refused_def)
  obtain r w1 where o: "on_file witness_fd w = (r, w1)" by fastforce
  note s = same_but_fileD [OF on_file_same [OF o]] and fl = on_file_reads [OF o reads_witness_fd]
  show ?thesis
  proof (cases r)
    case (Inl e)
    then have "res = Inl (''could not stat the event fd: '' @ su_show_error su e)" "w' = w1"
      using assms(1) o by (simp_all add: held_ranges_def)
    with assms(2) s fl msg show ?thesis by (auto simp: record_true_def)
  next
    case (Inr wt)
    have wt: "wt = witness_of (w_file w)"
      using witness_fd_Inr on_fileD [OF o] Inr by (simp add: w_file_def)
    obtain st p where st: "partial_standing (wd_partial w1) f wt = (st, p)" by fastforce
    have pi: "partial_inv p" using partial_standing_inv [of "wd_partial w" f wt] assms(2) st s by (simp add: record_true_def)
    show ?thesis
    proof (cases st)
      case (Ours got)
      then have res: "res = Inr got" "w' = w1\<lparr>wd_partial := p\<rparr>"
        using assms(1) o Inr st by (simp_all add: held_ranges_def)
      obtain h where h: "partial_lookup (wd_partial w) f = Some h" "h_witness h = wt" "h_have h = got"
        using partial_standing_Ours_iff [of "wd_partial w" f wt got] st Ours s by auto
      have hp: "h_have h' = got" if "partial_lookup p f = Some h'" for h'
        using st Ours h s that
        by (auto simp: partial_standing_def partial_lookup_def Let_def AList.update_conv' split: option.splits if_splits)
      have got: "ranges_bytes got \<subseteq> present (w_file w)" "ranges_ok got"
        using assms(2,3) h wt partial_held_ok by (auto simp: record_true_def)
      have sf: "settled f w'"
        unfolding settled_def res(2) using pi hp got(1) fl by (auto simp: w_file_def)
      have rm: "unat (tm_seq (wd_timed w)) + length got + 2 < 2 ^ 64"
        using assms(3,4) h(1,3) by (auto simp: room_def)
      have fl': "w_file w' = w_file w" using fl by (simp add: res(2) w_file_def)
      show ?thesis using res(1) s got sf rm fl' by (simp add: res(2))
    next
      case Unknown
      have gone: "partial_lookup p f = None"
        using st Unknown by (auto simp: partial_standing_def partial_lookup_def Let_def partial_forget_def AList.delete_conv'
            split: option.splits if_splits)
      obtain r2 w2 where c: "on_file (clear_residue sz) (w1\<lparr>wd_partial := p\<rparr>) = (r2, w2)" by fastforce
      note s2 = same_but_fileD [OF on_file_same [OF c]]
      have "same_file (w_file (w1\<lparr>wd_partial := p\<rparr>)) (w_file w2)"
        using punch_keeps(1) [OF c [unfolded clear_residue_def punch_fd_def]] .
      then have f2: "same_file (w_file w) (w_file w2)" using fl by (simp add: w_file_def)
      have sf: "settled f w2" using gone pi s2 by (simp add: settled_def)
      have "f_id (w_file w2) = f" using f2 assms(3) by (simp add: same_file_def)
      note rt = settled_true [OF sf this]
      have rm: "unat (tm_seq (wd_timed w)) + 2 < 2 ^ 64" using assms(4) by (simp add: room_def)
      show ?thesis
      proof (cases r2)
        case (Inl e)
        then have "res = Inl (''could not clear an interrupted transfer: '' @ su_show_error su e)" "w' = w2"
          using assms(1) o \<open>r = Inr wt\<close> st Unknown c by (simp_all add: held_ranges_def)
        with f2 rt s s2 msg show ?thesis by simp
      next
        case (Inr u)
        then have "res = Inr []" "w' = w2"
          using assms(1) o \<open>r = Inr wt\<close> st Unknown c by (simp_all add: held_ranges_def)
        with f2 sf s s2 rm show ?thesis by (simp add: ranges_bytes_def)
      qed
    qed
  qed
qed

section \<open>The decision\<close>

text \<open>The mark can be read when no call says that an attribute that is there is missing or unsupported.\<close>

definition mark_readable :: "kernel \<Rightarrow> bool" where
  "mark_readable k \<longleftrightarrow> SysErr ENODATA \<notin> set (k_plan k) \<and> SysErr EOPNOTSUPP \<notin> set (k_plan k)"

lemma has_mark_fd_Inr:
  assumes "has_mark_fd k = (Inr b, k')" "mark_readable k"
  shows "b = f_mark (k_file k)"
proof -
  let ?act = "\<lambda>k. if f_mark (k_file k) then (Inr True, k) else (Inl (Os ENODATA), k)"
  show ?thesis
  proof (cases rule: sys_call_cases [of ?act k])
    case (fails e k0)
    then have "e \<noteq> ENODATA" "e \<noteq> EOPNOTSUPP" using assms(2) by (auto simp: mark_readable_def)
    with fails assms(1) show ?thesis by (simp add: has_mark_fd_def sys_has_mark_def)
  next
    case (acts k0)
    with assms(1) show ?thesis by (auto simp: has_mark_fd_def sys_has_mark_def split: if_splits)
  qed
qed

lemma suppress_events_keeps:
  "w_file (suppress_events ev w) = w_file w" "wd_timed (suppress_events ev w) = wd_timed w"
  "wd_partial (suppress_events ev w) = wd_partial w"
  "gr_answers (wd_group (suppress_events ev w)) = gr_answers (wd_group w)"
proof -
  obtain b w1 where l: "looks_stripped w = (b, w1)" by fastforce
  have "same_but_file w w1 \<and> w_file w1 = w_file w"
  proof -
    obtain r w2 where o: "on_file sys_fstat w = (r, w2)" by fastforce
    note a = on_file_same [OF o] on_file_reads [OF o reads_fstat]
    obtain r3 w3 where o3: "on_file holds_data_fd w2 = (r3, w3)" by fastforce
    note b = on_file_same [OF o3] on_file_reads [OF o3 reads_holds_data_fd]
    have "w1 = w2 \<or> w1 = w3" using l o o3 by (auto simp: looks_stripped_def split: sum.splits if_splits)
    with a b same_but_file_trans show ?thesis by metis
  qed
  then have s: "wd_timed w1 = wd_timed w" "wd_partial w1 = wd_partial w" "wd_group w1 = wd_group w" "w_file w1 = w_file w"
    using same_but_fileD by auto
  show "w_file (suppress_events ev w) = w_file w" "wd_timed (suppress_events ev w) = wd_timed w"
    "wd_partial (suppress_events ev w) = wd_partial w"
    using l s by (auto simp: suppress_events_def on_group_def w_file_def split: option.splits bool.splits prod.splits)
  show "gr_answers (wd_group (suppress_events ev w)) = gr_answers (wd_group w)"
    using l s group_mark_answers [of _ "wd_group w"]
    by (auto simp: suppress_events_def on_group_def split: option.splits bool.splits prod.splits) (metis snd_conv)+
qed

lemma nothing_to_serve_keeps:
  assumes "nothing_to_serve w = (o1, w')"
  shows "w_file w' = w_file w" "same_but_file w w'" "o1 = Some h \<Longrightarrow> h = Empty \<and> f_size (w_file w) = 0"
proof -
  obtain r w1 where o: "on_file sys_fstat w = (r, w1)" by fastforce
  have w1: "w' = w1" using assms o by (auto simp: nothing_to_serve_def split: sum.splits)
  with on_file_same [OF o] on_file_reads [OF o reads_fstat] show "w_file w' = w_file w" "same_but_file w w'" by simp_all
  have "r = Inr st \<Longrightarrow> st = w_file w" for st
    using on_fileD [OF o] sys_fstat_Inr by (auto simp: w_file_def)
  then show "o1 = Some h \<Longrightarrow> h = Empty \<and> f_size (w_file w) = 0"
    using assms o by (auto simp: nothing_to_serve_def split: sum.splits if_splits)
qed

definition worker_ok :: "(file_id \<Rightarrow> u64) \<Rightarrow> world \<Rightarrow> bool" where
  "worker_ok sizes w \<longleftrightarrow> timed_inv sizes (wd_timed w) \<and> f_size (w_file w) = sizes (f_id (w_file w)) \<and>
     record_true w \<and> room w"

definition decided :: "worker_config \<Rightarrow> (file_id \<Rightarrow> u64) \<Rightarrow> pre_content \<Rightarrow> world \<Rightarrow> handled \<Rightarrow> world \<Rightarrow> bool" where
  "decided su sizes ev w h w' \<longleftrightarrow>
     same_id (w_file w) (w_file w') \<and> timed_inv sizes (wd_timed w') \<and> record_true w' \<and>
     gr_answers (wd_group w') = gr_answers (wd_group w) \<and>
     (lets_through h \<longrightarrow> span_bytes (demand_of ev (f_size (w_file w))) \<subseteq> present (w_file w')) \<and>
     (file_safe (w_file w') \<or> refused su h)"

lemma record_true_cong:
  "wd_partial w' = wd_partial w \<Longrightarrow> w_file w' = w_file w \<Longrightarrow> record_true w' = record_true w"
  by (simp add: record_true_def)

lemma demand_in_file: "span_bytes (demand_of ev sz) \<subseteq> {..<sz}" "span_end (demand_of ev sz) \<le> sz"
  by (auto simp: demand_of_def span_bytes_clamped)

text \<open>The file and the record untouched: what is left to see is that only a complete file is let through.\<close>

lemma decided_untouched:
  assumes "w_file w' = w_file w" "wd_timed w' = wd_timed w" "wd_partial w' = wd_partial w"
    and "gr_answers (wd_group w') = gr_answers (wd_group w)" "worker_ok sizes w" "file_safe (w_file w)"
    and "lets_through h \<Longrightarrow> \<not> f_mark (w_file w) \<or> f_size (w_file w) = 0"
  shows "decided su sizes ev w h w'"
proof -
  have "span_bytes (demand_of ev (f_size (w_file w))) \<subseteq> present (w_file w)" if "lets_through h"
  proof -
    have "complete (w_file w)" using assms(6,7) that by (auto simp: file_safe_def complete_def)
    then have "{..<f_size (w_file w)} \<subseteq> present (w_file w)" by (auto simp: complete_def present_def)
    with demand_in_file(1) show ?thesis by blast
  qed
  then show ?thesis using assms record_true_cong [of w' w] by (simp add: decided_def same_id_def worker_ok_def)
qed

context fetch_contract
begin

lemma fill_demand_keeps:
  assumes "fill_demand su ev f sz d got w = (h, w')" "su_script su = script" "sz = sizes f" "span_end d \<le> sz"
    and "timed_inv sizes (wd_timed w)" "f_id (w_file w) = f" "f_size (w_file w) = sz" "settled f w" "ranges_ok got"
    and "ranges_bytes got \<subseteq> present (w_file w)" "unat (tm_seq (wd_timed w)) + length got + 2 < 2 ^ 64" "f_mark (w_file w)"
  shows "same_id (w_file w) (w_file w') \<and> timed_inv sizes (wd_timed w') \<and> settled f w' \<and>
     gr_answers (wd_group w') = gr_answers (wd_group w) \<and>
     (lets_through h \<longrightarrow> span_bytes d \<subseteq> present (w_file w')) \<and> (file_safe (w_file w') \<or> refused su h)"
proof (cases "ranges_missing got d")
  case Nil
  have "span_bytes d \<subseteq> ranges_bytes got" using ranges_missing_bytes [OF assms(9), of d] Nil by simp
  then show ?thesis using assms Nil by (auto simp: fill_demand_def same_id_def file_safe_def)
next
  case (Cons first rest)
  define ss where "ss = ranges_missing got (widen got d (sp_offset first) sz)"
  note ms = missing_to_fetch [OF assms(9,4), of "sp_offset first", folded ss_def]
  obtain res w1 where fs: "fill_spans su f sz d (pc_path ev) got ss w = (res, w1)" by fastforce
  have inv: "fill_inv sizes f (Suc (length ss)) w"
    using assms(3,5-8,11) ms(4) by (simp add: fill_inv_def settled_def)
  have "fill_done sizes f d w res w1"
    by (rule fill_spans_keeps [OF fs assms(2,3) inv ms(1) assms(4,9,10) ms(2,3)])
  note fd = this [unfolded fill_done_def]
  have mark: "f_mark (w_file w1)" "same_id (w_file w) (w_file w1)" "f_size (w_file w1) = sz"
    using fd assms(7,12) by (auto simp: same_file_def same_id_def)
  show ?thesis
  proof (cases res)
    case (Answered h1)
    then have "h = h1" "w' = w1" using assms(1) Cons fs by (simp_all add: fill_demand_def ss_def)
    with fd mark Answered show ?thesis by (simp add: file_safe_def)
  next
    case (Filled got')
    then have st: "settle su ev f sz d got' w1 = (h, w')" using assms(1) Cons fs by (simp add: fill_demand_def ss_def)
    have "settle_done su f d w1 h w'" using settle_keeps [OF st mark(3)] fd Filled by simp
    with fd mark show ?thesis by (auto simp: settle_done_def intro: same_id_trans)
  qed
qed

lemma decide_keeps:
  assumes "decide_and_fill su ev w = (h, w')" "su_script su = script" "worker_ok sizes w"
    and "mark_readable (wd_kernel w)" "file_safe (w_file w)"
  shows "decided su sizes ev w h w'"
proof -
  obtain r w1 where m: "on_file has_mark_fd w = (r, w1)" by fastforce
  note s1 = same_but_fileD [OF on_file_same [OF m]] and f1 = on_file_reads [OF m reads_has_mark_fd]
  show ?thesis
  proof (cases r)
    case (Inl e)
    then have "h = Failed (''could not read the placeholder mark: '' @ su_show_error su e)" "w' = w1"
      using assms(1) m by (simp_all add: decide_and_fill_def)
    with s1 f1 assms(3,5) show ?thesis by (intro decided_untouched) simp_all
  next
    case (Inr b)
    have b: "b = f_mark (w_file w)"
      using has_mark_fd_Inr on_fileD [OF m] assms(4) Inr by (simp add: w_file_def)
    show ?thesis
    proof (cases b)
      case False
      then have "h = AlreadyPresent" "w' = suppress_events ev w1"
        using assms(1) m Inr by (simp_all add: decide_and_fill_def)
      with s1 f1 b False assms(3,5) show ?thesis
        by (intro decided_untouched) (simp_all add: suppress_events_keeps)
    next
      case True
      obtain n w2 where n: "nothing_to_serve w1 = (n, w2)" by fastforce
      note nk = nothing_to_serve_keeps [OF n]
      have s2: "wd_timed w2 = wd_timed w" "wd_partial w2 = wd_partial w" "wd_group w2 = wd_group w" "w_file w2 = w_file w"
        using same_but_fileD [OF nk(2)] nk(1) s1 f1 by simp_all
      show ?thesis
      proof (cases n)
        case (Some o1)
        then have "h = o1" "w' = w2" using assms(1) m Inr True n by (simp_all add: decide_and_fill_def)
        with nk(3) [OF Some] s2 f1 assms(3,5) show ?thesis by (intro decided_untouched) simp_all
      next
        case None
        show ?thesis
        proof (cases "policy_decide (su_policy su) (pc_cgroup ev)")
          case (Deny rule)
          then have "h = Denied rule" "wd_kernel w' = wd_kernel w2" "wd_timed w' = wd_timed w2" "wd_partial w' = wd_partial w2"
              "wd_group w' = wd_group w2"
            using assms(1) m Inr True n None by (auto simp: decide_and_fill_def)
          with s2 assms(3,5) show ?thesis by (intro decided_untouched) (simp_all add: w_file_def)
        next
          case Hydrate
          obtain r3 w3 where i: "on_file id_and_size_fd w2 = (r3, w3)" by fastforce
          note s3 = same_but_fileD [OF on_file_same [OF i]] and f3 = on_file_reads [OF i reads_id_and_size_fd]
          have s3': "wd_timed w3 = wd_timed w" "wd_partial w3 = wd_partial w" "wd_group w3 = wd_group w" "w_file w3 = w_file w"
            using s2 s3 f3 by simp_all
          show ?thesis
          proof (cases r3)
            case (Inl e)
            then have "h = Failed (''could not stat the event fd: '' @ su_show_error su e)" "w' = w3"
              using assms(1) m Inr True n None Hydrate i by (simp_all add: decide_and_fill_def)
            with s3' assms(3,5) show ?thesis by (intro decided_untouched) simp_all
          next
            case (Inr fs)
            define sz where "sz = f_size (w_file w)"
            define f where "f = f_id (w_file w)"
            have idf: "fs = (f, sz)"
              using on_fileD [OF i] Inr s2
              by (auto simp: id_and_size_fd_def sys_bind_Inr sys_return_def w_file_def f_def sz_def dest!: sys_fstat_Inr)
            obtain r4 w4 where hr: "held_ranges su f sz w3 = (r4, w4)" by fastforce
            have rt: "record_true w3" "room w3"
              using assms(3) s3' record_true_cong [of w3 w] by (simp_all add: worker_ok_def room_def)
            note hk = held_ranges_keeps [OF hr rt(1) _ rt(2), unfolded s3', OF f_def [symmetric]]
            have tail: "(case r4 of Inl reason \<Rightarrow> (Failed reason, w4)
                | Inr got \<Rightarrow> fill_demand su ev f sz (demand_of ev sz) got w4) = (h, w')"
              using assms(1) m \<open>r = Inr b\<close> True n None Hydrate i Inr idf hr
              by (simp add: decide_and_fill_def)
            show ?thesis
            proof (cases r4)
              case (Inl e)
              with tail hk assms(3) b True show ?thesis
                by (auto simp: decided_def worker_ok_def same_file_id file_safe_def) (simp add: same_file_def)
            next
              case (Inr got)
              have fd: "fill_demand su ev f sz (demand_of ev sz) got w4 = (h, w')" using tail Inr by simp
              have w4: "f_id (w_file w4) = f" "f_size (w_file w4) = sz" "f_mark (w_file w4)" "sz = sizes f"
                using hk assms(3) b True by (auto simp: same_file_def f_def sz_def worker_ok_def)
              have "same_id (w_file w4) (w_file w') \<and> timed_inv sizes (wd_timed w') \<and> settled f w' \<and>
                 gr_answers (wd_group w') = gr_answers (wd_group w4) \<and>
                 (lets_through h \<longrightarrow> span_bytes (demand_of ev sz) \<subseteq> present (w_file w')) \<and>
                 (file_safe (w_file w') \<or> refused su h)"
                using fd assms(2) w4(4) demand_in_file(2) _ w4(1,2) _ _ _ _ w4(3)
                by (rule fill_demand_keeps) (use hk Inr assms(3) in \<open>simp_all add: worker_ok_def\<close>)
              moreover have "record_true w'"
                using calculation settled_true [of f w'] w4(1) by (simp add: same_id_def)
              ultimately show ?thesis using hk Inr
                by (simp add: decided_def sz_def) (meson same_file_id same_id_trans)
            qed
          qed
        qed
      qed
    qed
  qed
qed

end

section \<open>What no decision touches\<close>

text \<open>Deciding answers nothing, closes nothing, and leaves the published event where it is.\<close>

definition frame :: "world \<Rightarrow> world \<Rightarrow> bool" where
  "frame w w' \<longleftrightarrow> gr_answers (wd_group w') = gr_answers (wd_group w) \<and> wd_closed w' = wd_closed w \<and>
     fl_slot (wd_page w') = fl_slot (wd_page w) \<and> fl_beat (wd_page w') = fl_beat (wd_page w) \<and>
     wd_failures w' = wd_failures w \<and> (\<exists>k. wd_trace w' = wd_trace w @ replicate k (seen w))"

lemma frame_same:
  "gr_answers (wd_group w') = gr_answers (wd_group w) \<Longrightarrow> wd_closed w' = wd_closed w \<Longrightarrow> wd_page w' = wd_page w \<Longrightarrow>
     wd_failures w' = wd_failures w \<Longrightarrow> wd_trace w' = wd_trace w \<Longrightarrow> frame w w'"
  by (simp add: frame_def exI [of _ 0])

lemma frame_refl [simp]: "frame w w"
  by (simp add: frame_same)

lemma frame_seen: "frame w w' \<Longrightarrow> seen w' = seen w"
  by (simp add: frame_def seen_def current_def)

lemma frame_trans: "frame w w1 \<Longrightarrow> frame w1 w2 \<Longrightarrow> frame w w2"
  using frame_seen [of w w1] unfolding frame_def by (metis append_assoc replicate_add)

lemma frame_upd [simp]:
  "frame w (w1\<lparr>wd_partial := p\<rparr>) = frame w w1" "frame w (w1\<lparr>wd_log := l\<rparr>) = frame w w1"
  by (simp_all add: frame_def seen_def)

lemma frame_on_file: "frame w (snd (on_file m w))"
  by (rule frame_same) (simp_all add: on_file_def split: prod.splits)

lemma frame_ignore: "frame w (snd (on_group (group_ignore p) w))"
  using group_mark_answers [of p "wd_group w"]
  by (intro frame_same) (auto simp: on_group_def split: prod.splits)

lemma frame_on_file': "on_file m w = (r, w') \<Longrightarrow> frame w w'"
  using frame_on_file [of w m] by simp

lemma frame_remember: "frame w (remember f got w)"
  by (auto simp: remember_def dest: frame_on_file' split: prod.splits sum.splits)

lemma frame_working: "frame w (on_page working w)"
  by (auto simp: frame_def on_page_trace seen_def current_def working_def intro: exI [of _ 1])

lemma frame_working_pow: "frame w ((on_page working ^^ n) w)"
  by (induction n) (auto intro: frame_trans frame_working)

lemma frame_transfer: "transfer su f sz sp w = (r, w') \<Longrightarrow> frame w w'"
  by (auto simp: transfer_def split: prod.splits intro: frame_trans [OF frame_same frame_working_pow])

lemma frame_fill_failed: "fill_failed su f got err path w = (h, w') \<Longrightarrow> frame w w'"
proof -
  assume a: "fill_failed su f got err path w = (h, w')"
  have "frame w (remember f got (snd (on_file stamp_write_fd w)))"
    using frame_trans [OF frame_on_file frame_remember] .
  with a show ?thesis by (auto simp: fill_failed_def Let_def split: if_splits)
qed

lemma frame_fill_spans: "fill_spans su f sz d path got ss w = (res, w') \<Longrightarrow> frame w w'"
proof (induction ss arbitrary: got w)
  case (Cons sp rest)
  obtain r w1 where tr: "transfer su f sz sp w = (r, w1)" by fastforce
  note f1 = frame_transfer [OF tr]
  show ?case
  proof (cases r)
    case (Inr u)
    with Cons tr f1 show ?thesis by (auto intro: frame_trans)
  next
    case (Inl e)
    define w2 where "w2 = snd (on_file (punch_range_fd (sp_offset sp) (sp_len sp)) w1)"
    have f2: "frame w w2" using frame_trans [OF f1 frame_on_file] by (simp add: w2_def)
    show ?thesis
    proof (cases "span_intersect sp d")
      case None
      then have "w' = w2" using Cons.prems tr Inl by (simp add: w2_def Let_def)
      with f2 show ?thesis by simp
    next
      case (Some only)
      obtain h1 w5 where ff: "fill_failed su f got e path w2 = (h1, w5)" by fastforce
      obtain r3 w3 where t2: "transfer su f sz only w2 = (r3, w3)" by fastforce
      define w4 where "w4 = snd (on_file (punch_range_fd (sp_offset only) (sp_len only)) w3)"
      have f3: "frame w w3" using frame_trans [OF f2 frame_transfer [OF t2]] .
      have f4: "frame w w4" using frame_trans [OF f3 frame_on_file] by (simp add: w4_def)
      show ?thesis
      proof (cases "only = sp")
        case True
        then have "w' = w5" using Cons.prems tr Inl Some ff by (simp add: w2_def Let_def)
        with frame_trans [OF f2 frame_fill_failed [OF ff]] show ?thesis by simp
      next
        case False
        show ?thesis
        proof (cases r3)
          case (Inl again)
          obtain h6 w6 where f6: "fill_failed su f got again path w4 = (h6, w6)" by fastforce
          then have "w' = w6"
            using Cons.prems tr \<open>r = Inl e\<close> Some False t2 Inl by (simp add: w2_def w4_def Let_def)
          with frame_trans [OF f4 frame_fill_failed [OF f6]] show ?thesis by simp
        next
          case (Inr u)
          then have "w' = w3" using Cons.prems tr Inl Some False t2 by (simp add: w2_def Let_def)
          with f3 show ?thesis by simp
        qed
      qed
    qed
  qed
qed simp

lemma frame_settle: "settle su ev f sz d got w = (h, w') \<Longrightarrow> frame w w'"
proof -
  assume st: "settle su ev f sz d got w = (h, w')"
  obtain r w1 where a: "on_file (finish_hydration sz) w = (r, w1)" by fastforce
  obtain r2 w2 where b: "on_file settle_range w = (r2, w2)" by fastforce
  note fa = frame_on_file' [OF a] and fb = frame_on_file' [OF b]
  have "frame w (snd (on_file (abandon sz) w1))" "frame w (snd (on_file (abandon sz) w2))"
    by (rule frame_trans [OF fa frame_on_file], rule frame_trans [OF fb frame_on_file])
  moreover have "frame w (remember f got w2)" using frame_trans [OF fb frame_remember] .
  moreover have "frame w (snd (on_group (group_ignore p) (w1\<lparr>wd_partial := q\<rparr>)))" for p q
    by (rule frame_trans [OF _ frame_ignore]) (simp add: fa)
  ultimately show ?thesis using st a b fa
    by (auto simp: settle_def Let_def split: if_splits sum.splits option.splits)
qed

lemma frame_held_ranges: "held_ranges su f sz w = (res, w') \<Longrightarrow> frame w w'"
proof -
  assume hr: "held_ranges su f sz w = (res, w')"
  obtain r w1 where a: "on_file witness_fd w = (r, w1)" by fastforce
  note fa = frame_on_file' [OF a]
  show ?thesis
  proof (cases r)
    case (Inr wt)
    obtain st p where st: "partial_standing (wd_partial w1) f wt = (st, p)" by fastforce
    obtain r2 w2 where c: "on_file (clear_residue sz) (w1\<lparr>wd_partial := p\<rparr>) = (r2, w2)" by fastforce
    have "frame w w2" using frame_trans [OF _ frame_on_file' [OF c]] fa by simp
    then show ?thesis using hr a Inr st c fa by (auto simp: held_ranges_def split: standing.splits sum.splits)
  qed (use hr a fa in \<open>auto simp: held_ranges_def\<close>)
qed

lemma frame_suppress: "frame w (suppress_events ev w)"
proof (cases "pc_path ev")
  case (Some p)
  obtain b w1 where l: "looks_stripped w = (b, w1)" by fastforce
  obtain r2 w2 where o: "on_file sys_fstat w = (r2, w2)" by fastforce
  obtain r3 w3 where o3: "on_file holds_data_fd w2 = (r3, w3)" by fastforce
  have "frame w w1"
    using l o o3 frame_on_file' [OF o] frame_trans [OF frame_on_file' [OF o] frame_on_file' [OF o3]]
    by (auto simp: looks_stripped_def split: sum.splits if_splits)
  then show ?thesis using Some l frame_trans [OF _ frame_ignore]
    by (auto simp: suppress_events_def split: bool.splits)
qed (simp add: suppress_events_def)

lemma frame_fill_demand: "fill_demand su ev f sz d got w = (h, w') \<Longrightarrow> frame w w'"
proof -
  assume fd: "fill_demand su ev f sz d got w = (h, w')"
  show ?thesis
  proof (cases "ranges_missing got d")
    case (Cons first rest)
    obtain res w1 where fs: "fill_spans su f sz d (pc_path ev) got
        (ranges_missing got (widen got d (sp_offset first) sz)) w = (res, w1)" by fastforce
    show ?thesis
    proof (cases res)
      case (Filled got')
      with fd Cons fs have "settle su ev f sz d got' w1 = (h, w')" by (simp add: fill_demand_def)
      from frame_trans [OF frame_fill_spans [OF fs] frame_settle [OF this]] show ?thesis .
    qed (use fd Cons fs frame_fill_spans [OF fs] in \<open>simp add: fill_demand_def\<close>)
  qed (use fd in \<open>simp add: fill_demand_def\<close>)
qed

lemma frame_decide: "decide_and_fill su ev w = (h, w') \<Longrightarrow> frame w w'"
proof -
  assume df: "decide_and_fill su ev w = (h, w')"
  obtain r w1 where m: "on_file has_mark_fd w = (r, w1)" by fastforce
  obtain n w2 where n: "nothing_to_serve w1 = (n, w2)" by fastforce
  obtain r3 w3 where i: "on_file id_and_size_fd w2 = (r3, w3)" by fastforce
  note f1 = frame_on_file' [OF m]
  have "frame w1 w2"
  proof -
    obtain r0 w0 where "on_file sys_fstat w1 = (r0, w0)" by fastforce
    with n frame_on_file' [OF this] show ?thesis by (auto simp: nothing_to_serve_def split: sum.splits)
  qed
  then have f2: "frame w w2" using f1 frame_trans by blast
  have f3: "frame w w3" using frame_trans [OF f2 frame_on_file' [OF i]] .
  have held: "held_ranges su f sz w3 = (res, w4) \<Longrightarrow> frame w w4" for f sz res w4
    using frame_trans [OF f3 frame_held_ranges] by blast
  have sup: "frame w (suppress_events ev w1)" using frame_trans [OF f1 frame_suppress] .
  show ?thesis
  proof (cases "\<exists>f sz. r = Inr True \<and> n = None \<and> policy_decide (su_policy su) (pc_cgroup ev) = Hydrate \<and> r3 = Inr (f, sz)")
    case True
    then obtain f sz where t: "r = Inr True" "n = None" "policy_decide (su_policy su) (pc_cgroup ev) = Hydrate" "r3 = Inr (f, sz)"
      by blast
    obtain res w4 where hr: "held_ranges su f sz w3 = (res, w4)" by fastforce
    have tail: "(case res of Inl reason \<Rightarrow> (Failed reason, w4) | Inr got \<Rightarrow> fill_demand su ev f sz (demand_of ev sz) got w4) = (h, w')"
      using df m n i t hr by (simp add: decide_and_fill_def)
    show ?thesis
    proof (cases res)
      case (Inl e)
      with tail held [OF hr] show ?thesis by simp
    next
      case (Inr got)
      with tail frame_fill_demand frame_trans [OF held [OF hr]] show ?thesis by simp
    qed
  next
    case False
    then show ?thesis using df m n i f1 f2 f3 sup
      by (auto simp: decide_and_fill_def split: sum.splits bool.splits option.splits decision.splits)
  qed
qed

section \<open>Properties\<close>

lemma deny_is_no_allow [simp]: "FAN_ALLOW \<noteq> deny_with EIO"
  unfolding deny_with_def FAN_ALLOW_def FAN_DENY_def by code_simp

text \<open>How \<open>handle\<close> ends for an event with a descriptor.\<close>

lemma handle_cases:
  assumes "handle su ev w = (h, w')" "0 \<le> ev_fd (pc_event ev)"
  obtains (answered) o1 w1 where
      "decide_and_fill su ev (on_page (holding (ev_fd (pc_event ev))) w) = (o1, w1)" "h = o1"
      "gr_answers (wd_group w') = gr_answers (wd_group w1) @
         [(ev_fd (pc_event ev), if lets_through o1 then FAN_ALLOW else deny_with EIO)]"
      "wd_failures w' = wd_failures (log_outcome o1 (pc_path_after ev) w1)"
      "wd_page w' = released (wd_page w1)" "wd_closed w' = wd_closed w1 @ [ev_fd (pc_event ev)]"
      "w_file w' = w_file w1" "wd_partial w' = wd_partial w1" "wd_timed w' = wd_timed w1"
      "wd_trace w' = wd_trace w1 @ [seen w']"
  | (unanswered) o1 w1 reason where
      "decide_and_fill su ev (on_page (holding (ev_fd (pc_event ev))) w) = (o1, w1)" "h = Failed reason"
      "gr_answers (wd_group w') = gr_answers (wd_group w1)"
      "wd_failures w' = failure_record (wd_failures (log_outcome o1 (pc_path_after ev) w1)) reason None"
      "wd_page w' = released (wd_page w1)" "wd_closed w' = wd_closed w1 @ [ev_fd (pc_event ev)]"
      "w_file w' = w_file w1" "wd_partial w' = wd_partial w1" "wd_timed w' = wd_timed w1"
      "wd_trace w' = wd_trace w1 @ [seen w']"
proof -
  define fd where "fd = ev_fd (pc_event ev)"
  obtain o1 w1 where d: "decide_and_fill su ev (on_page (holding fd) w) = (o1, w1)" by fastforce
  define wl where "wl = log_outcome o1 (pc_path_after ev) w1"
  have wl: "wd_group wl = wd_group w1" "wd_page wl = wd_page w1" "wd_closed wl = wd_closed w1" "wd_kernel wl = wd_kernel w1"
    "wd_partial wl = wd_partial w1" "wd_timed wl = wd_timed w1" "wd_trace wl = wd_trace w1"
    by (simp_all add: wl_def log_outcome_def split: handled.splits)
  obtain r g where a: "(if lets_through o1 then allow fd else deny fd) (wd_group wl) = (r, g)" by fastforce
  define w3 where "w3 = (on_page released (wl\<lparr>wd_group := g\<rparr>))\<lparr>wd_closed := wd_closed wl @ [fd]\<rparr>"
  have res: "(h, w') = (case r of Inr _ \<Rightarrow> (o1, w3)
      | Inl e \<Rightarrow> (Failed (''could not answer the event: '' @ su_show_error su e),
          w3\<lparr>wd_failures := failure_record (wd_failures w3) (''could not answer the event: '' @ su_show_error su e) None\<rparr>))"
    using assms(1) [symmetric] assms(2) d a unfolding handle_def Let_def fd_def [symmetric]
    by (simp add: on_group_def wl_def [symmetric] w3_def not_less [symmetric] split: sum.splits)
  have act: "(if lets_through o1 then allow fd else deny fd) = respond_raw fd (if lets_through o1 then FAN_ALLOW else deny_with EIO)"
    by (simp add: allow_def deny_def)
  show ?thesis
  proof (cases rule: respond_raw_cases [of fd "if lets_through o1 then FAN_ALLOW else deny_with EIO" "wd_group wl"])
    case (refused e g')
    then have r: "r = Inl e" "g = g'" using a act by simp_all
    with res have w': "h = Failed (''could not answer the event: '' @ su_show_error su e)"
      "w' = w3\<lparr>wd_failures := failure_record (wd_failures w3) (''could not answer the event: '' @ su_show_error su e) None\<rparr>"
      by simp_all
    show ?thesis
      by (rule unanswered [OF d [unfolded fd_def] w'(1)])
         (simp_all add: w'(2) w3_def wl refused r(2) fd_def w_file_def on_page_trace seen_def, simp_all add: wl_def)
  next
    case (sent g')
    then have r: "r = Inr ()" "g = g'" using a act by simp_all
    with res have w': "h = o1" "w' = w3" by simp_all
    show ?thesis
      by (rule answered [OF d [unfolded fd_def] w'(1)])
         (simp_all add: w'(2) w3_def wl sent r(2) fd_def w_file_def on_page_trace seen_def, simp_all add: wl_def)
  qed
qed

lemma worker_ok_holding: "worker_ok sizes (on_page act w) = worker_ok sizes w"
  by (simp add: worker_ok_def record_true_def room_def)

text \<open>C1: No reader is let through to a hole.  Whatever the daemon sends or withholds, whichever calls fail
  and however transfers that were given up on still write, an event is answered with \<open>FAN_ALLOW\<close> at most
  once and only when every byte its reader demanded is present in the file.\<close>

theorem handle_lets_no_hole_through:
  assumes "su_script su = (\<lambda>q f sz sp. paced (d q) (socket_job fc tc (nw q) (sf q) (plan q) (errno q) f sz sp))"
    and "worker_ok sizes w" "mark_readable (wd_kernel w)" "file_safe (w_file w)" "0 \<le> ev_fd (pc_event ev)"
    and "handle su ev w = (h, w')"
  shows "\<exists>as. gr_answers (wd_group w') = gr_answers (wd_group w) @ as \<and> length as \<le> 1 \<and>
    ((ev_fd (pc_event ev), FAN_ALLOW) \<in> set as \<longrightarrow>
       span_bytes (demand_of ev (f_size (w_file w))) \<subseteq> present (w_file w'))"
proof -
  define w0 where "w0 = on_page (holding (ev_fd (pc_event ev))) w"
  have w0: "w_file w0 = w_file w" "wd_group w0 = wd_group w" "wd_kernel w0 = wd_kernel w" "worker_ok sizes w0"
    using assms(2) by (simp_all add: w0_def worker_ok_holding)
  have dk: "decided su sizes ev w0 o1 w1" if "decide_and_fill su ev w0 = (o1, w1)" for o1 w1
    using socket.decide_keeps [OF that assms(1) w0(4)] assms(3,4) w0 by simp
  from assms(6,5) show ?thesis
  proof (cases rule: handle_cases)
    case (answered o1 w1)
    note k = dk [OF answered(1) [folded w0_def], unfolded decided_def w0]
    then show ?thesis using answered
      by (intro exI [of _ "[(ev_fd (pc_event ev), if lets_through o1 then FAN_ALLOW else deny_with EIO)]"]) auto
  next
    case (unanswered o1 w1 reason)
    note k = dk [OF unanswered(1) [folded w0_def], unfolded decided_def w0]
    then show ?thesis using unanswered by (intro exI [of _ "[]"]) simp
  qed
qed

definition sample_worker :: "outcome list \<Rightarrow> world" where
  "sample_worker plan =
     \<lparr>wd_kernel = sample_kernel plan, wd_timed = timed_new, wd_partial = partial_default, wd_log = [],
      wd_failures = failure_log_default, wd_page = in_flight_new,
      wd_group = \<lparr>gr_plan = [], gr_answers = [], gr_ignored = []\<rparr>, wd_closed = [],
      wd_trace = []\<rparr>"

definition sample_event :: pre_content where
  "sample_event =
     \<lparr>pc_event = \<lparr>ev_mask = 0x100000, ev_fd = 7, ev_pid = 42, ev_range = Some (0, 2), ev_pidfd = None, ev_mnt_id = None\<rparr>,
      pc_path = Some ''a'', pc_path_after = Some ''a'', pc_cgroup = None\<rparr>"

definition sample_config :: worker_config where
  "sample_config =
     \<lparr>su_script = (\<lambda>q f sz sp. paced (\<lambda>_. 5) (socket_job request_codec sample_codec sample_net sample_fetch [] 0 f sz sp)),
      su_limits = default_limits, su_policy = default_policy, su_show_error = (\<lambda>_. ''an error'')\<rparr>"

lemma sample_worker_ok: "worker_ok (\<lambda>_. 3) (sample_worker plan)"
  by (simp add: worker_ok_def sample_worker_def timed_inv_def items_in_def timed_new_def w_file_def sample_kernel_def
      sample_inode_def record_true_def room_def partial_default_def)
     (simp add: partial_lookup_def partial_new_def)

lemma handle_lets_no_hole_through_witness:
  "\<exists>h w' as. handle sample_config sample_event (sample_worker []) = (h, w') \<and>
     gr_answers (wd_group w') = as \<and> length as \<le> 1 \<and> ((7, FAN_ALLOW) \<in> set as \<longrightarrow> {0..<2} \<subseteq> present (w_file w'))"
proof -
  obtain h w' where hd: "handle sample_config sample_event (sample_worker []) = (h, w')" by fastforce
  have fs: "file_safe (w_file (sample_worker []))" "mark_readable (wd_kernel (sample_worker []))"
    by (simp_all add: file_safe_def w_file_def sample_worker_def sample_kernel_def sample_inode_def mark_readable_def)
  have d: "span_bytes (demand_of sample_event (f_size (w_file (sample_worker [])))) = {0..<2}"
  proof -
    have "demand_of sample_event (f_size (w_file (sample_worker []))) = span_clamped_to (span_new 0 2) 3"
      by (simp add: demand_of_def sample_event_def w_file_def sample_worker_def sample_kernel_def sample_inode_def)
    moreover have "span_bytes (span_new 0 2) \<inter> {..<3} = {0..<2}"
      by (auto simp: span_bytes_def span_end_def word_less_nat_alt)
    ultimately show ?thesis by (simp only: span_bytes_clamped)
  qed
  have "0 \<le> ev_fd (pc_event sample_event)" "ev_fd (pc_event sample_event) = 7" "gr_answers (wd_group (sample_worker [])) = []"
    by (simp_all add: sample_event_def sample_worker_def)
  with handle_lets_no_hole_through [OF _ sample_worker_ok fs(2,1) this(1) hd,
      where fc = request_codec and tc = sample_codec and nw = "\<lambda>_. sample_net" and sf = "\<lambda>_. sample_fetch"
        and plan = "\<lambda>_. []" and errno = "\<lambda>_. 0" and d = "\<lambda>_ _. 5"] hd d
  show ?thesis by (auto simp: sample_config_def)
qed

text \<open>C2: What a decision keeps.  The file stays the same one, the channel and the memory stay in order and
  truthful, and a file that is not a placeholder has every byte; the one exception is the outcome
  "hydration refused", the defect of \<open>abandon\<close> after a cleared mark.\<close>

theorem decide_keeps_files_safe:
  assumes "su_script su = (\<lambda>q f sz sp. paced (d q) (socket_job fc tc (nw q) (sf q) (plan q) (errno q) f sz sp))"
    and "worker_ok sizes w" "mark_readable (wd_kernel w)" "file_safe (w_file w)"
    and "decide_and_fill su ev w = (h, w')"
  shows "same_id (w_file w) (w_file w') \<and> timed_inv sizes (wd_timed w') \<and> record_true w' \<and>
    (file_safe (w_file w') \<or> refused su h)"
  using socket.decide_keeps [OF assms(5,1-4)] by (simp add: decided_def)

lemma decide_keeps_files_safe_witness:
  "record_true (snd (decide_and_fill sample_config sample_event (sample_worker [])))"
proof -
  obtain h w' where dc: "decide_and_fill sample_config sample_event (sample_worker []) = (h, w')" by fastforce
  have fs: "file_safe (w_file (sample_worker []))" "mark_readable (wd_kernel (sample_worker []))"
    by (simp_all add: file_safe_def w_file_def sample_worker_def sample_kernel_def sample_inode_def mark_readable_def)
  from decide_keeps_files_safe [OF _ sample_worker_ok fs(2,1) dc,
      where fc = request_codec and tc = sample_codec and nw = "\<lambda>_. sample_net" and sf = "\<lambda>_. sample_fetch"
        and plan = "\<lambda>_. []" and errno = "\<lambda>_. 0" and d = "\<lambda>_ _. 5"] dc
  show ?thesis by (simp add: sample_config_def)
qed



text \<open>
  What the spans of a fill did: all of \<open>ss\<close> were fetched, one after another.
\<close>

fun all_fetched :: "worker_config \<Rightarrow> file_id \<Rightarrow> u64 \<Rightarrow> span list \<Rightarrow> world \<Rightarrow> world \<Rightarrow> bool" where
  "all_fetched su f sz [] w w' = (w' = w)"
| "all_fetched su f sz (sp # ss) w w' =
     (case transfer su f sz sp w of (Inr _, w1) \<Rightarrow> all_fetched su f sz ss w1 w' | (Inl _, _) \<Rightarrow> False)"

text \<open>The answer a transfer's error leads to.\<close>

definition failure_answer :: "worker_config \<Rightarrow> transfer_error \<Rightarrow> handled" where
  "failure_answer su e = (if gives_up e then Abandoned else Failed) (show_transfer_error (su_show_error su) e)"

lemma fill_failed_answer: "fill_failed su f got e path w = (h, w') \<Longrightarrow> h = failure_answer su e"
  by (auto simp: fill_failed_def failure_answer_def Let_def split: if_splits)

text \<open>C25: Reading ahead cannot fail a read.  When a fill answers with a failure, the spans before the one that failed
  were all fetched, that one contains bytes its reader demanded, and the answer is the verdict on a transfer
  of demanded bytes alone: of the span itself when it is no more than them, and otherwise of a second
  transfer of just the demanded part, begun after the first had failed.  The error of a transfer that was
  partly speculation never decides an answer.\<close>

theorem fill_fails_only_for_demand:
  assumes "fill_spans su f sz d path got ss w = (Answered h, w')"
  shows "\<exists>before sp rest w0 e w1 only. ss = before @ sp # rest \<and> all_fetched su f sz before w w0 \<and>
    transfer su f sz sp w0 = (Inl e, w1) \<and> span_intersect sp d = Some only \<and> span_bytes only \<subseteq> span_bytes d \<and>
    (if only = sp then h = failure_answer su e
     else \<exists>again w3. transfer su f sz only (snd (on_file (punch_range_fd (sp_offset sp) (sp_len sp)) w1)) = (Inl again, w3) \<and>
       h = failure_answer su again)"
  using assms
proof (induction ss arbitrary: got w)
  case (Cons sp rest)
  obtain r w1 where tr: "transfer su f sz sp w = (r, w1)" by fastforce
  show ?case
  proof (cases r)
    case (Inr u)
    with Cons.prems tr have "fill_spans su f sz d path (ranges_add got sp) rest w1 = (Answered h, w')" by simp
    from Cons.IH [OF this] obtain before sp' rest' w0 e w2 only where
      ih: "rest = before @ sp' # rest'" "all_fetched su f sz before w1 w0" "transfer su f sz sp' w0 = (Inl e, w2)"
        "span_intersect sp' d = Some only" "span_bytes only \<subseteq> span_bytes d"
        "if only = sp' then h = failure_answer su e
         else \<exists>again w3. transfer su f sz only (snd (on_file (punch_range_fd (sp_offset sp') (sp_len sp')) w2)) = (Inl again, w3) \<and>
           h = failure_answer su again" by blast
    have "all_fetched su f sz (sp # before) w w0" using tr Inr ih(2) by simp
    moreover have "sp # rest = (sp # before) @ sp' # rest'" using ih(1) by simp
    ultimately show ?thesis using ih(3-6) by blast
  next
    case (Inl e)
    define w2 where "w2 = snd (on_file (punch_range_fd (sp_offset sp) (sp_len sp)) w1)"
    show ?thesis
    proof (cases "span_intersect sp d")
      case None
      with Cons.prems tr Inl show ?thesis by (simp add: Let_def)
    next
      case (Some only)
      have sub: "span_bytes only \<subseteq> span_bytes d" using span_intersect_bytes [OF Some] by simp
      have "if only = sp then h = failure_answer su e
         else \<exists>again w3. transfer su f sz only w2 = (Inl again, w3) \<and> h = failure_answer su again"
      proof (cases "only = sp")
        case True
        obtain h5 w5 where f5: "fill_failed su f got e path w2 = (h5, w5)" by fastforce
        with Cons.prems tr Inl Some True have "h5 = h" by (simp add: w2_def [symmetric] Let_def)
        with fill_failed_answer [OF f5] True show ?thesis by simp
      next
        case False
        obtain r3 w3 where t2: "transfer su f sz only w2 = (r3, w3)" by fastforce
        with Cons.prems tr Inl Some False show ?thesis
          by (auto simp: w2_def [symmetric] Let_def dest: fill_failed_answer split: sum.splits prod.splits)
      qed
      moreover have "all_fetched su f sz [] w w" by simp
      ultimately show ?thesis using tr Inl Some sub unfolding w2_def by blast
    qed
  qed
qed simp

lemma fill_fails_only_for_demand_witness:
  "\<exists>w1. transfer sample_config (FileId 1 2) 3 (span_new 0 2) (sample_worker [SysErr 24]) = (Inl (Provider (Os 24)), w1) \<and>
     fst (fill_spans sample_config (FileId 1 2) 3 (span_new 0 2) None [] [span_new 0 2] (sample_worker [SysErr 24]))
       = Answered (Failed (''an error''))"
proof -
  let ?w = "sample_worker [SysErr 24]"
  obtain w1 where t: "transfer sample_config (FileId 1 2) 3 (span_new 0 2) ?w = (Inl (Provider (Os 24)), w1)"
    by (simp add: transfer_def timed_run_def sys_call_def next_outcome_def sample_worker_def sample_kernel_def)
  have s: "span_intersect (span_new 0 2) (span_new 0 2) = Some (span_new 0 2)"
    by (simp add: span_intersect_def span_end_def)
  obtain h w' where fs: "fill_spans sample_config (FileId 1 2) 3 (span_new 0 2) None [] [span_new 0 2] ?w = (Answered h, w')"
    by (cases "fill_failed sample_config (FileId 1 2) [] (Provider (Os 24)) None (snd (on_file (punch_range_fd 0 2) w1))")
       (simp add: t s)
  from fill_fails_only_for_demand [OF this] obtain before sp rest w0 e w2 only where
    k: "[span_new 0 2] = before @ sp # rest" "all_fetched sample_config (FileId 1 2) 3 before ?w w0"
      "transfer sample_config (FileId 1 2) 3 sp w0 = (Inl e, w2)" "span_intersect sp (span_new 0 2) = Some only"
      "only = sp \<longrightarrow> h = failure_answer sample_config e" by (metis (full_types))
  then have "before = []" "sp = span_new 0 2" by (cases before; simp)+
  with k t s have "h = failure_answer sample_config (Provider (Os 24))" by simp
  then have "h = Failed ''an error''" by (simp add: failure_answer_def sample_config_def)
  with t fs show ?thesis by simp
qed

text \<open>C40: The window that is fetched stays inside the file and never ends more than \<open>READAHEAD\<close> past a byte the
  reader demanded and does not have; nothing that is held is fetched again, and what is held with what is
  fetched covers the demand.\<close>

theorem readahead_bounded:
  assumes "ranges_ok got" "ranges_missing got (demand_of ev sz) = first # rest"
  shows "sp_offset first \<in> span_bytes (demand_of ev sz) - ranges_bytes got \<and>
    list_all (\<lambda>sp. span_end sp \<le> sz \<and> span_bytes sp \<inter> ranges_bytes got = {} \<and>
        span_end sp \<le> max (span_end (demand_of ev sz)) (sat_add (sp_offset first) READAHEAD))
      (ranges_missing got (widen got (demand_of ev sz) (sp_offset first) sz)) \<and>
    span_bytes (demand_of ev sz) \<subseteq>
      ranges_bytes got \<union> spans_bytes (ranges_missing got (widen got (demand_of ev sz) (sp_offset first) sz))"
proof -
  define d where "d = demand_of ev sz"
  define ss where "ss = ranges_missing got (widen got d (sp_offset first) sz)"
  have le: "span_end d \<le> sz" by (simp add: d_def demand_in_file)
  note w = widen_facts [OF le, of got "sp_offset first"] and ms = missing_to_fetch [OF assms(1) le, of "sp_offset first", folded ss_def]
  have "sp_offset first \<in> span_bytes d - ranges_bytes got"
  proof -
    have "first \<in> set (ranges_missing got d)" using assms(2) by (simp add: d_def)
    then have "sp_offset first \<in> spans_bytes (ranges_missing got d)"
      using ranges_missing_elem(2) by (fastforce simp: spans_bytes_def span_bytes_def)
    then show ?thesis using ranges_missing_bytes [OF assms(1)] by blast
  qed
  moreover have "span_end sp \<le> sz \<and> span_bytes sp \<inter> ranges_bytes got = {} \<and>
      span_end sp \<le> max (span_end d) (sat_add (sp_offset first) READAHEAD)" if "sp \<in> set ss" for sp
  proof -
    have e: "span_end sp \<le> span_end (widen got d (sp_offset first) sz)"
      using ranges_missing_elem(4) that by (simp add: ss_def)
    have "span_bytes sp \<subseteq> spans_bytes ss" using that by (auto simp: spans_bytes_def)
    then show ?thesis using ms(2) order.trans [OF e w(2)] order.trans [OF e w(4)] by blast
  qed
  ultimately show ?thesis using ms(3) by (auto simp: d_def ss_def list_all_iff)
qed

lemma readahead_bounded_witness:
  "sp_offset (span_new 0 2) \<in> span_bytes (demand_of sample_event 3) - ranges_bytes []"
proof -
  have d: "demand_of sample_event 3 = span_new 0 2"
    by (simp add: demand_of_def sample_event_def span_clamped_to_def span_new_def span_end_def sat_sub_def Let_def)
  have "ranges_missing [] (demand_of sample_event 3) = [span_new 0 2]"
    by (simp add: d ranges_missing_def span_end_def)
  from readahead_bounded [OF _ this] show ?thesis by simp
qed

text \<open>A placeholder of size zero that has a name is let through and stays a placeholder: the demand is empty,
  so nothing is missing of it, and the code that would clear the mark is not reached.\<close>

theorem empty_placeholder_keeps_mark:
  assumes "k_plan (wd_kernel w) = []" "f_mark (w_file w)" "f_size (w_file w) = 0" "f_nlink (w_file w) \<noteq> 0"
    and "partial_lookup (wd_partial w) (f_id (w_file w)) = None" "policy_decide (su_policy su) (pc_cgroup ev) = Hydrate"
  shows "\<exists>w'. decide_and_fill su ev w = (AlreadyPresent, w') \<and> f_mark (w_file w')"
proof -
  define k where "k = wd_kernel w"
  have same: "w\<lparr>wd_kernel := k\<rparr> = w" by (simp add: k_def)
  have f: "f_mark (k_file k)" "f_size (k_file k) = 0" "f_nlink (k_file k) \<noteq> 0" "k_plan k = []"
    using assms by (simp_all add: k_def w_file_def)
  have st: "sys_fstat k = (Inr (k_file k), k)"
    using f(4) by (simp add: sys_fstat_def sys_call_def next_outcome_def)
  have m: "on_file has_mark_fd w = (Inr True, w)"
    using f by (simp add: on_file_def k_def [symmetric] has_mark_fd_def sys_has_mark_def sys_call_def next_outcome_def same)
  have n: "nothing_to_serve w = (None, w)"
    using f by (simp add: nothing_to_serve_def on_file_def k_def [symmetric] st same)
  have i: "on_file id_and_size_fd w = (Inr (f_id (k_file k), 0), w)"
    using f by (simp add: on_file_def k_def [symmetric] id_and_size_fd_def sys_bind_def st sys_return_def same)
  obtain wt where v: "on_file witness_fd w = (Inr wt, w)"
    by (simp add: on_file_def k_def [symmetric] witness_fd_def sys_bind_def st sys_return_def same)
  have p: "partial_standing (wd_partial w) (f_id (k_file k)) wt = (Unknown, (wd_partial w)\<lparr>p_tick := Suc (p_tick (wd_partial w))\<rparr>)"
    using assms(5) by (simp add: partial_standing_def partial_lookup_def Let_def w_file_def k_def)
  define w2 where "w2 = w\<lparr>wd_partial := (wd_partial w)\<lparr>p_tick := Suc (p_tick (wd_partial w))\<rparr>\<rparr>"
  have c: "on_file (clear_residue 0) w2 = (Inr (), w2)"
    by (simp add: on_file_def clear_residue_def punch_fd_def punch_range_fd_def sys_return_def)
  have h: "held_ranges su (f_id (k_file k)) 0 w = (Inr [], w2)"
    by (simp add: held_ranges_def v p w2_def [symmetric] c)
  have "demand_of ev 0 = span_new 0 0"
    by (simp add: demand_of_def span_clamped_to_def Let_def sat_sub_def span_new_def)
  then have "fill_demand su ev (f_id (k_file k)) 0 (demand_of ev 0) [] w2 = (AlreadyPresent, w2)"
    by (simp add: fill_demand_def ranges_missing_def span_end_def)
  then have "decide_and_fill su ev w = (AlreadyPresent, w2)"
    by (simp add: decide_and_fill_def m n assms(6) i h)
  moreover have "f_mark (w_file w2)" using assms(2) by (simp add: w2_def w_file_def)
  ultimately show ?thesis by blast
qed

lemma empty_placeholder_keeps_mark_witness:
  "\<exists>w'. decide_and_fill sample_config sample_event
      ((sample_worker [])\<lparr>wd_kernel := (sample_kernel [])\<lparr>k_file := sample_inode\<lparr>f_size := 0\<rparr>\<rparr>\<rparr>) = (AlreadyPresent, w') \<and>
    f_mark (w_file w')"
  by (rule empty_placeholder_keeps_mark)
     (simp_all add: w_file_def sample_worker_def sample_kernel_def sample_inode_def partial_default_def
       partial_lookup_def partial_new_def sample_config_def sample_event_def policy_decide_def)

end
