(* ===== verification/Changes.thy ===== *)
theory Changes
  imports Fanotify Wire
begin

text \<open>
  Local changes on their way to the daemon: \<open>Watcher::poll\<close> of \<open>crates/hydrationd/src/watch.rs\<close>, which
  drops the writes of this process and of the daemon; \<open>Dirty\<close> and the two threads of
  \<open>crates/hydrationd/src/report.rs\<close>, as a step relation whose steps are what a thread does while it holds
  the lock or one send; and the healing tick of the fetch thread (\<open>daemon.rs\<close>), which rebuilds a
  connection the reporter found dead.
\<close>

unbundle bit_operations_syntax

section \<open>The watcher\<close>

definition FAN_MODIFY :: u64 where "FAN_MODIFY = 0x2"
definition FAN_Q_OVERFLOW :: u64 where "FAN_Q_OVERFLOW = 0x4000"
definition FAN_CLOSE_WRITE :: u64 where "FAN_CLOSE_WRITE = 0x8"

datatype change = Modified | Closed_Write

record observed =
  ob_file :: file_id
  ob_what :: change

record watcher =
  wa_ignore_pids :: "int list"
  wa_peer :: "int option"
  wa_overflowed :: bool

text \<open>\<open>take_overflow\<close> reports and clears.\<close>

definition take_overflow :: "watcher \<Rightarrow> bool \<times> watcher" where
  "take_overflow w = (wa_overflowed w, w\<lparr>wa_overflowed := False\<rparr>)"

text \<open>
  The loop over one batch.  \<open>file_of fd\<close> is what \<open>fstat\<close> of the descriptor gives; the descriptors that
  were closed are the second component.
\<close>

fun poll_events ::
  "(int \<Rightarrow> file_id option) \<Rightarrow> event list \<Rightarrow> watcher \<Rightarrow> observed list \<times> int list \<times> watcher" where
  "poll_events file_of [] w = ([], [], w)"
| "poll_events file_of (ev # evs) w =
     (if ev_fd ev < 0 then
        poll_events file_of evs (if ev_mask ev AND FAN_Q_OVERFLOW \<noteq> 0 then w\<lparr>wa_overflowed := True\<rparr> else w)
      else case poll_events file_of evs w of
             (out, closed, w') \<Rightarrow>
               (if ev_pid ev \<in> set (wa_ignore_pids w) \<or> wa_peer w = Some (ev_pid ev) then out
                else case file_of (ev_fd ev) of
                       None \<Rightarrow> out
                     | Some f \<Rightarrow>
                         \<lparr>ob_file = f, ob_what = (if ev_mask ev AND FAN_CLOSE_WRITE \<noteq> 0 then Closed_Write else Modified)\<rparr> # out,
                ev_fd ev # closed, w'))"

text \<open>\<open>poll\<close>: nothing when the wait timed out, the error of a failed read, or the batch.\<close>

definition watcher_poll ::
  "(int \<Rightarrow> file_id option) \<Rightarrow> (io_error + event list) option \<Rightarrow> watcher \<Rightarrow> (io_error + observed list) \<times> int list \<times> watcher" where
  "watcher_poll file_of ready w =
     (case ready of
        None \<Rightarrow> (Inr [], [], w)
      | Some (Inl e) \<Rightarrow> (Inl e, [], w)
      | Some (Inr evs) \<Rightarrow> (case poll_events file_of evs w of (out, closed, w') \<Rightarrow> (Inr out, closed, w')))"

section \<open>The dirty set\<close>

record dirty =
  di_files :: "(file_id \<times> bool) list"
  di_lost :: bool

definition note_change :: "file_id \<Rightarrow> change \<Rightarrow> dirty \<Rightarrow> dirty" where
  "note_change f what d =
     (let was = (case map_of (di_files d) f of Some c \<Rightarrow> c | None \<Rightarrow> False)
      in d\<lparr>di_files := AList.update f (was \<or> what = Closed_Write) (di_files d)\<rparr>)"

definition take_dirty :: "dirty \<Rightarrow> (file_id list \<times> bool) \<times> dirty" where
  "take_dirty d = ((map fst (di_files d), di_lost d), \<lparr>di_files = [], di_lost = False\<rparr>)"

definition note_all :: "observed list \<Rightarrow> dirty \<Rightarrow> dirty" where
  "note_all seen d = foldl (\<lambda>d ob. note_change (ob_file ob) (ob_what ob) d) d seen"

section \<open>The two threads\<close>

text \<open>
  Where the sender is: between batches, about to send the \<open>Resync\<close> of a batch, or about to send its files.
  \<open>rp_owed\<close> is no state of the program: the changes noticed and not yet reported, each with the
  number of the batch it was noticed before.
\<close>

datatype sending = Resting | Resyncing "file_id list" | Listing "file_id list"

record reporter =
  rp_dirty :: dirty
  rp_sending :: sending
  rp_watcher :: watcher
  rp_peer_lost :: bool
  rp_sent :: "from_helper list"
  rp_owed :: "(nat \<times> file_id) set"
  rp_batch :: nat

definition reporter_spawn :: "watcher \<Rightarrow> reporter" where
  "reporter_spawn w =
     \<lparr>rp_dirty = \<lparr>di_files = [], di_lost = True\<rparr>, rp_sending = Resting, rp_watcher = w, rp_peer_lost = False,
      rp_sent = [], rp_owed = {}, rp_batch = 0\<rparr>"

text \<open>One turn of the drainer.\<close>

definition drainer_turn ::
  "(int \<Rightarrow> file_id option) \<Rightarrow> (io_error + event list) option \<Rightarrow> reporter \<Rightarrow> reporter" where
  "drainer_turn file_of ready r =
     (case watcher_poll file_of ready (rp_watcher r) of
        (Inl e, _, w) \<Rightarrow> r\<lparr>rp_watcher := w, rp_dirty := (rp_dirty r)\<lparr>di_lost := True\<rparr>\<rparr>
      | (Inr seen, _, w) \<Rightarrow>
          (case take_overflow w of
             (lost, w') \<Rightarrow>
               if seen = [] \<and> \<not> lost then r\<lparr>rp_watcher := w'\<rparr>
               else r\<lparr>rp_watcher := w',
                      rp_dirty := note_all seen ((rp_dirty r)\<lparr>di_lost := di_lost (rp_dirty r) \<or> lost\<rparr>),
                      rp_owed := rp_owed r \<union> (\<lambda>ob. (rp_batch r, ob_file ob)) ` set seen\<rparr>))"

text \<open>The sender wakes up and takes the set.\<close>

definition sender_take :: "reporter \<Rightarrow> reporter" where
  "sender_take r =
     (case take_dirty (rp_dirty r) of
        ((files, lost), d) \<Rightarrow>
          r\<lparr>rp_dirty := d, rp_batch := Suc (rp_batch r),
            rp_sending := (if lost then Resyncing files else if files = [] then Resting else Listing files)\<rparr>)"

text \<open>What a failed send leaves: the loss and the dead connection are recorded, the batch is gone.\<close>

definition send_failed :: "reporter \<Rightarrow> reporter" where
  "send_failed r =
     r\<lparr>rp_sending := Resting, rp_dirty := (rp_dirty r)\<lparr>di_lost := True\<rparr>, rp_peer_lost := True\<rparr>"

text \<open>\<open>ok\<close> says whether the send succeeded.\<close>

definition sender_send :: "bool \<Rightarrow> reporter \<Rightarrow> reporter" where
  "sender_send ok r =
     (case rp_sending r of
        Resting \<Rightarrow> r
      | Resyncing files \<Rightarrow>
          if ok then r\<lparr>rp_sending := (if files = [] then Resting else Listing files), rp_sent := rp_sent r @ [Resync],
                       rp_owed := {}\<rparr>
          else send_failed r
      | Listing files \<Rightarrow>
          if ok then r\<lparr>rp_sending := Resting, rp_sent := rp_sent r @ [Changed files],
                       rp_owed := {(n, f) \<in> rp_owed r. \<not> (n < rp_batch r \<and> f \<in> set files)}\<rparr>
          else send_failed r)"

text \<open>
  The healing tick of the fetch thread: the flag is swapped out, the connection rebuilt, and the flag put
  back when that failed.
\<close>

definition heal_tick :: "bool \<Rightarrow> bool \<Rightarrow> bool" where
  "heal_tick flag reconnected = (if flag \<and> \<not> reconnected then True else False)"

inductive report_step :: "reporter \<Rightarrow> reporter \<Rightarrow> bool" where
  drained: "report_step r (drainer_turn file_of ready r)"
| taken: "rp_sending r = Resting \<Longrightarrow> report_step r (sender_take r)"
| sent: "rp_sending r \<noteq> Resting \<Longrightarrow> report_step r (sender_send ok r)"
| healed: "report_step r (r\<lparr>rp_peer_lost := heal_tick (rp_peer_lost r) ok\<rparr>)"

inductive reported :: "reporter \<Rightarrow> bool" where
  spawned: "reported (reporter_spawn w)"
| stepped: "reported r \<Longrightarrow> report_step r r' \<Longrightarrow> reported r'"

section \<open>What the watcher lets through\<close>

definition ours :: "watcher \<Rightarrow> event \<Rightarrow> bool" where
  "ours w ev \<longleftrightarrow> ev_pid ev \<in> set (wa_ignore_pids w) \<or> wa_peer w = Some (ev_pid ev)"

definition observation :: "event \<Rightarrow> file_id \<Rightarrow> observed" where
  "observation ev f =
     \<lparr>ob_file = f, ob_what = (if ev_mask ev AND FAN_CLOSE_WRITE \<noteq> 0 then Closed_Write else Modified)\<rparr>"

definition observations :: "(int \<Rightarrow> file_id option) \<Rightarrow> watcher \<Rightarrow> event list \<Rightarrow> observed set" where
  "observations file_of w evs =
     {observation ev f | ev f. ev \<in> set evs \<and> 0 \<le> ev_fd ev \<and> \<not> ours w ev \<and> file_of (ev_fd ev) = Some f}"

lemma observations_Cons:
  "observations file_of w (ev # evs) =
     {observation ev f | f. 0 \<le> ev_fd ev \<and> \<not> ours w ev \<and> file_of (ev_fd ev) = Some f} \<union> observations file_of w evs"
  unfolding observations_def set_simps by blast

lemma poll_events_out:
  "poll_events file_of evs w = (out, closed, w') \<Longrightarrow>
     set out = observations file_of w evs \<and>
     closed = filter (\<lambda>fd. 0 \<le> fd) (map ev_fd evs) \<and>
     wa_overflowed w' = (wa_overflowed w \<or> (\<exists>ev \<in> set evs. ev_fd ev < 0 \<and> ev_mask ev AND FAN_Q_OVERFLOW \<noteq> 0))"
proof (induction evs arbitrary: out closed w w')
  case (Cons ev evs)
  show ?case
  proof (cases "ev_fd ev < 0")
    case True
    define w1 where "w1 = (if ev_mask ev AND FAN_Q_OVERFLOW \<noteq> 0 then w\<lparr>wa_overflowed := True\<rparr> else w)"
    have o: "observations file_of w1 evs = observations file_of w (ev # evs)"
      using True by (simp add: observations_Cons) (simp add: observations_def ours_def w1_def)
    have "poll_events file_of evs w1 = (out, closed, w')" using Cons(2) True by (simp add: w1_def)
    note ih = Cons(1) [OF this]
    have "wa_overflowed w1 = (wa_overflowed w \<or> ev_mask ev AND FAN_Q_OVERFLOW \<noteq> 0)" by (simp add: w1_def)
    with ih True show ?thesis unfolding o by (simp add: not_le)
  next
    case False
    obtain out1 closed1 w1 where p: "poll_events file_of evs w = (out1, closed1, w1)" by (metis prod_cases3)
    note ih = Cons(1) [OF p]
    have "closed = ev_fd ev # closed1" "w' = w1" using Cons(2) p False by auto
    have "out = (if ours w ev then out1
        else case file_of (ev_fd ev) of None \<Rightarrow> out1 | Some f \<Rightarrow> observation ev f # out1)"
      using Cons(2) p False by (auto simp: ours_def observation_def split: option.splits if_splits)
    then have so: "set out = set out1 \<union> {observation ev f | f. \<not> ours w ev \<and> file_of (ev_fd ev) = Some f}"
      by (auto split: option.splits if_splits)
    have sa: "{observation ev f | f. \<not> ours w ev \<and> file_of (ev_fd ev) = Some f} =
        {observation ev f | f. 0 \<le> ev_fd ev \<and> \<not> ours w ev \<and> file_of (ev_fd ev) = Some f}" using False by auto
    have "set out = observations file_of w (ev # evs)"
      unfolding so observations_Cons sa ih [THEN conjunct1] by (rule Un_commute)
    with \<open>closed = ev_fd ev # closed1\<close> \<open>w' = w1\<close> ih False show ?thesis by simp
  qed
qed (simp add: observations_def)

section \<open>Nothing noticed is lost in silence\<close>

definition in_hand :: "reporter \<Rightarrow> file_id set" where
  "in_hand r = (case rp_sending r of Resting \<Rightarrow> {} | Resyncing files \<Rightarrow> set files | Listing files \<Rightarrow> set files)"

definition resync_due :: "reporter \<Rightarrow> bool" where
  "resync_due r \<longleftrightarrow> di_lost (rp_dirty r) \<or> (\<exists>files. rp_sending r = Resyncing files)"

definition dirty_files :: "reporter \<Rightarrow> file_id set" where
  "dirty_files r = fst ` set (di_files (rp_dirty r))"

definition report_inv :: "reporter \<Rightarrow> bool" where
  "report_inv r \<longleftrightarrow>
     (\<forall>(n, f) \<in> rp_owed r. n \<le> rp_batch r) \<and>
     (resync_due r \<or>
        (\<forall>(n, f) \<in> rp_owed r. f \<in> dirty_files r \<or> n < rp_batch r \<and> f \<in> in_hand r))"

lemma fst_set_update: "fst ` set (AList.update k v xs) = insert k (fst ` set xs)"
  by (induction xs) auto

lemma note_all_files:
  "fst ` set (di_files (note_all seen d)) = fst ` set (di_files d) \<union> ob_file ` set seen \<and> di_lost (note_all seen d) = di_lost d"
proof (induction seen arbitrary: d)
  case (Cons o1 seen)
  then show ?case by (simp add: note_all_def note_change_def Let_def fst_set_update)
qed (simp add: note_all_def)

lemma drainer_inv: "report_inv r \<Longrightarrow> report_inv (drainer_turn file_of ready r)"
proof -
  assume inv: "report_inv r"
  obtain res c w where p: "watcher_poll file_of ready (rp_watcher r) = (res, c, w)" by (metis prod_cases3)
  show ?thesis
  proof (cases res)
    case (Inl e)
    with inv p show ?thesis by (simp add: drainer_turn_def report_inv_def resync_due_def)
  next
    case (Inr seen)
    obtain lost w' where t: "take_overflow w = (lost, w')" by fastforce
    show ?thesis
    proof (cases "seen = [] \<and> \<not> lost")
      case True
      with inv p t Inr show ?thesis
        by (simp add: drainer_turn_def report_inv_def resync_due_def dirty_files_def in_hand_def)
    next
      case False
      define r' where "r' = drainer_turn file_of ready r"
      have r': "r' = r\<lparr>rp_watcher := w', rp_dirty := note_all seen ((rp_dirty r)\<lparr>di_lost := di_lost (rp_dirty r) \<or> lost\<rparr>),
          rp_owed := rp_owed r \<union> (\<lambda>ob. (rp_batch r, ob_file ob)) ` set seen\<rparr>"
        unfolding r'_def drainer_turn_def p t Inr using False by (simp only: t prod.case sum.case if_False)
      have f: "dirty_files r' = dirty_files r \<union> ob_file ` set seen" "in_hand r' = in_hand r"
        by (simp_all add: r' dirty_files_def in_hand_def note_all_files)
      have "resync_due r \<Longrightarrow> resync_due r'" by (auto simp: resync_due_def r' note_all_files)
      with inv f show ?thesis unfolding r'_def [symmetric] report_inv_def by (auto simp: r')
    qed
  qed
qed

lemma sender_take_inv: "report_inv r \<Longrightarrow> rp_sending r = Resting \<Longrightarrow> report_inv (sender_take r)"
  by (fastforce simp: report_inv_def sender_take_def take_dirty_def resync_due_def dirty_files_def in_hand_def)

lemma sender_send_inv: "report_inv r \<Longrightarrow> report_inv (sender_send ok r)"
  by (cases "rp_sending r")
     (auto simp: report_inv_def sender_send_def send_failed_def resync_due_def dirty_files_def in_hand_def)

lemma reported_inv: "reported r \<Longrightarrow> report_inv r"
proof (induction rule: reported.induct)
  case (spawned w)
  then show ?case by (simp add: report_inv_def reporter_spawn_def)
next
  case (stepped r r')
  from stepped(2,3) show ?case
  proof (cases rule: report_step.cases)
    case (healed ok)
    with stepped(3) show ?thesis
      by (simp add: report_inv_def resync_due_def dirty_files_def in_hand_def)
  qed (simp_all add: drainer_inv sender_take_inv sender_send_inv)
qed

section \<open>Properties\<close>

text \<open>C23: No local change is lost in silence.  In every state the two threads can reach, by every
  interleaving of batches, overflows, failed reads and failed sends, every change that was noticed and not
  yet reported is still in the set or in the batch about to be sent, or else a \<open>Resync\<close> is due, which
  tells the daemon to walk.  So when nothing is due, dirty or in hand, everything was reported.\<close>

theorem changes_not_lost:
  assumes "reported r"
  shows "(\<forall>(n, f) \<in> rp_owed r. f \<in> dirty_files r \<or> f \<in> in_hand r \<or> resync_due r) \<and>
    (rp_sending r = Resting \<and> di_files (rp_dirty r) = [] \<and> \<not> di_lost (rp_dirty r) \<longrightarrow> rp_owed r = {})"
  using reported_inv [OF assms] by (auto simp: report_inv_def resync_due_def dirty_files_def in_hand_def)

definition sample_change :: event where
  "sample_change = \<lparr>ev_mask = FAN_CLOSE_WRITE, ev_fd = 5, ev_pid = 77, ev_range = None, ev_pidfd = None, ev_mnt_id = None\<rparr>"

definition sample_watcher :: watcher where
  "sample_watcher = \<lparr>wa_ignore_pids = [1], wa_peer = Some 2, wa_overflowed = False\<rparr>"

lemma changes_not_lost_witness:
  "\<exists>r. reported r \<and> \<not> resync_due r \<and> (1, FileId 1 2) \<in> rp_owed r \<and>
     (FileId 1 2 \<in> dirty_files r \<or> FileId 1 2 \<in> in_hand r)"
proof -
  let ?s = "sender_send True (sender_take (reporter_spawn sample_watcher))"
  let ?r = "drainer_turn (\<lambda>_. Some (FileId 1 2)) (Some (Inr [sample_change])) ?s"
  have t: "rp_sending (sender_take (reporter_spawn sample_watcher)) \<noteq> Resting"
    by (simp add: sender_take_def reporter_spawn_def take_dirty_def)
  have r: "reported ?r"
    by (rule reported.stepped [OF reported.stepped [OF reported.stepped [OF reported.spawned report_step.taken]
          report_step.sent [OF t]] report_step.drained]) (simp add: reporter_spawn_def)
  have "(1, FileId 1 2) \<in> rp_owed ?r" "\<not> resync_due ?r"
    by (simp_all add: drainer_turn_def watcher_poll_def take_overflow_def sample_change_def sample_watcher_def reporter_spawn_def
        sender_send_def sender_take_def take_dirty_def resync_due_def note_all_files)
  with changes_not_lost [OF r] r show ?thesis by blast
qed

text \<open>The feedback loop is closed and the overflow marker is not missed.  From one batch the watcher reports
  exactly the files of the events that carry a descriptor, were not caused by this process or the daemon and
  can still be identified; it closes every descriptor of the batch once; and an overflow marker, which has
  none, raises the flag.\<close>

theorem watcher_reports_exactly:
  "case poll_events file_of evs w of (out, closed, w') \<Rightarrow>
     ob_file ` set out = {f. \<exists>ev. ev \<in> set evs \<and> 0 \<le> ev_fd ev \<and> \<not> ours w ev \<and> file_of (ev_fd ev) = Some f} \<and>
     closed = filter (\<lambda>fd. 0 \<le> fd) (map ev_fd evs) \<and>
     (wa_overflowed w' \<longleftrightarrow> wa_overflowed w \<or> (\<exists>ev. ev \<in> set evs \<and> ev_fd ev < 0 \<and> ev_mask ev AND FAN_Q_OVERFLOW \<noteq> 0))"
proof -
  obtain out closed w' where p: "poll_events file_of evs w = (out, closed, w')" by (metis prod_cases3)
  have "ob_file (observation ev f) = f" for ev f by (simp add: observation_def)
  then have "ob_file ` observations file_of w evs =
      {f. \<exists>ev. ev \<in> set evs \<and> 0 \<le> ev_fd ev \<and> \<not> ours w ev \<and> file_of (ev_fd ev) = Some f}"
    unfolding observations_def by (force simp: image_def)
  with poll_events_out [OF p] p show ?thesis by (simp add: Bex_def)
qed

end
