(* ===== verification/Evict.thy ===== *)
theory Evict
  imports Placeholder Fanotify
begin

text \<open>
  \<open>crates/hydrationd/src/evict.rs\<close> and the in-mount construction of a placeholder
  (\<open>placeholder::create_under\<close>): the operations that change the content of a file inside the marked
  mount, and so run while the group ignores the file.  Their state is the file, with the plan of the
  faults of its calls, and the group, with the plan of its own.
\<close>

section \<open>Eviction\<close>

datatype refusal = NotUploaded | AlreadyDehydrated

datatype backup = Exclude | Include

text \<open>\<open>flags::set_nodump\<close> opens the name to change one inode flag.\<close>

definition set_nodump :: "bool \<Rightarrow> unit sys" where
  "set_nodump on = sys_bind sys_open (\<lambda>_. set_nodump_fd on)"

text \<open>A filesystem without the flag is not a failure.\<close>

definition exclude_from_backup :: "backup \<Rightarrow> unit sys" where
  "exclude_from_backup b k =
     (if b = Exclude
      then (case set_nodump True k of
              (Inr _, k') \<Rightarrow> (Inr (), k')
            | (Inl e, k') \<Rightarrow> if kind_of e = Unsupported then (Inr (), k') else (Inl e, k'))
      else (Inr (), k))"

text \<open>From the mark to the new stamp: the part of an eviction that only touches the file.\<close>

definition drop_content :: "backup \<Rightarrow> unit sys" where
  "drop_content b =
     sys_bind (mark_dehydrated True) (\<lambda>_.
     sys_bind (exclude_from_backup b) (\<lambda>_.
     sys_bind sys_open (\<lambda>_.
     sys_bind sys_fstat (\<lambda>st.
     sys_bind (punch_fd (f_size st)) (\<lambda>_. sys_ignore stamp_write_fd)))))"

definition evict ::
  "string \<Rightarrow> backup \<Rightarrow> bool \<Rightarrow> kernel \<times> group \<Rightarrow> (io_error + (refusal + unit)) \<times> kernel \<times> group" where
  "evict path b safe = (\<lambda>(k, g).
     case has_mark_fd k of
       (Inl e, k1) \<Rightarrow> (Inl e, k1, g)
     | (Inr marked, k1) \<Rightarrow>
         if marked then (Inr (Inl AlreadyDehydrated), k1, g)
         else if \<not> safe then (Inr (Inl NotUploaded), k1, g)
         else (case drop_content b k1 of
                 (Inl e, k2) \<Rightarrow> (Inl e, k2, g)
               | (Inr _, k2) \<Rightarrow>
                   (case group_unignore path g of
                      (Inl e, g') \<Rightarrow> (Inl e, k2, g')
                    | (Inr _, g') \<Rightarrow> (Inr (Inr ()), k2, g'))))"

text \<open>At startup no mark of the previous run is left, so removing one that is not there is no failure.\<close>

definition arm :: "string \<Rightarrow> group \<Rightarrow> (io_error + unit) \<times> group" where
  "arm path g =
     (case group_unignore path g of
        (Inr _, g') \<Rightarrow> (Inr (), g')
      | (Inl e, g') \<Rightarrow> if raw_os_error e = Some ENOENT then (Inr (), g') else (Inl e, g'))"

section \<open>Constructing a placeholder in a watched mount\<close>

text \<open>
  \<open>open\<close> with \<open>create_new\<close> gives an empty file the inode number the filesystem picks, \<open>set_len\<close> makes
  the new bytes a hole, and permissions are no part of the model of a file.
\<close>

definition empty_inode :: "file_id \<Rightarrow> int \<times> int \<Rightarrow> inode" where
  "empty_inode i t =
     \<lparr>f_id = i, f_size = 0, f_nlink = 1, f_data = (\<lambda>_. None), f_mark = False, f_flags = 0,
      f_mtime = fst t, f_mtime_nsec = snd t, f_stamp = None, f_hydrated_at = None\<rparr>"

definition sys_create_new :: "file_id \<Rightarrow> unit sys" where
  "sys_create_new i = sys_call (\<lambda>k. (Inr (), k\<lparr>k_file := empty_inode i (k_time k)\<rparr>))"

definition sys_set_len :: "u64 \<Rightarrow> unit sys" where
  "sys_set_len n =
     sys_call (\<lambda>k. (Inr (), k\<lparr>k_file := file_touch (k_time k)
        ((k_file k)\<lparr>f_size := n, f_data := (\<lambda>p. if p < n then f_data (k_file k) p else None)\<rparr>)\<rparr>))"

definition sys_chmod :: "unit sys" where
  "sys_chmod = sys_call (sys_return ())"

definition build_placeholder :: "u64 \<Rightarrow> unit sys" where
  "build_placeholder n =
     sys_bind sys_open (\<lambda>_.
     sys_bind (sys_set_len n) (\<lambda>_.
     sys_bind sys_chmod (\<lambda>_. mark_dehydrated True)))"

definition create_under ::
  "string \<Rightarrow> file_id \<Rightarrow> u64 \<Rightarrow> kernel \<times> group \<Rightarrow> (io_error + file_id) \<times> kernel \<times> group" where
  "create_under path i n = (\<lambda>(k, g).
     case sys_create_new i k of
       (Inl e, k1) \<Rightarrow> (Inl e, k1, g)
     | (Inr _, k1) \<Rightarrow>
         (case group_ignore path g of
            (Inl e, g1) \<Rightarrow> (Inl e, k1, g1)
          | (Inr _, g1) \<Rightarrow>
              (case build_placeholder n k1 of (made, k2) \<Rightarrow>
               case group_unignore path g1 of (rearmed, g2) \<Rightarrow>
               case made of
                 Inl e \<Rightarrow> (Inl e, k2, g2)
               | Inr _ \<Rightarrow>
                   (case rearmed of
                      Inl e \<Rightarrow> (Inl e, k2, g2)
                    | Inr _ \<Rightarrow>
                        (case id_and_size_fd k2 of
                           (Inl e, k3) \<Rightarrow> (Inl e, k3, g2)
                         | (Inr (found, _), k3) \<Rightarrow> (Inr found, k3, g2))))))"

text \<open>\<open>placeholder::create\<close>, for a mount that is not watched yet.\<close>

definition create :: "file_id \<Rightarrow> u64 \<Rightarrow> file_id sys" where
  "create i n =
     sys_bind (sys_create_new i) (\<lambda>_.
     sys_bind (sys_set_len n) (\<lambda>_.
     sys_bind sys_chmod (\<lambda>_.
     sys_bind (mark_dehydrated True) (\<lambda>_.
     sys_bind id_and_size_fd (\<lambda>p. sys_return (fst p))))))"

section \<open>Rules\<close>

lemma quiet_set_nodump_path [quiet_rules]: "quiet (set_nodump on)"
  unfolding set_nodump_def by (intro quiet_rules)

lemma quiet_exclude [quiet_rules]: "quiet (exclude_from_backup b)"
  unfolding quiet_def exclude_from_backup_def
  by (auto split: sum.splits prod.splits dest!: quietD [OF quiet_set_nodump_path])

lemma quiet_chmod [quiet_rules]: "quiet sys_chmod"
  unfolding sys_chmod_def by (intro quiet_call quiet_rules)

lemma group_unignore_Inr:
  "group_unignore path g = (Inr u, g') \<Longrightarrow> path \<notin> set (gr_ignored g') \<and> gr_answers g' = gr_answers g"
  by (auto simp: group_unignore_def group_mark_def group_call_def split: if_splits list.splits option.splits)

lemma group_unignore_Inl:
  "group_unignore path g = (Inl e, g') \<Longrightarrow> gr_ignored g' = gr_ignored g \<and> gr_answers g' = gr_answers g"
  by (auto simp: group_unignore_def group_mark_def group_call_def split: if_splits list.splits option.splits)

lemma unignore_present:
  "path \<in> set (gr_ignored g) \<Longrightarrow> CHR 0x00 \<notin> set path \<Longrightarrow> gr_plan g = [] \<Longrightarrow>
     \<exists>g'. group_unignore path g = (Inr (), g')"
  by (simp add: group_unignore_def group_mark_def group_call_def)

text \<open>A file after \<open>drop_content\<close>: marked and empty on success; on an error every byte is where it was.\<close>

lemma drop_content_cases:
  assumes "drop_content b k = (r, k')"
  shows "(\<exists>e. r = Inl e) \<and> (core (k_file k') = core (k_file k) \<or>
            core (k_file k') = core ((k_file k)\<lparr>f_mark := True\<rparr>)) \<or>
         r = Inr () \<and> f_mark (k_file k') \<and> (\<forall>p<f_size (k_file k'). f_data (k_file k') p = None) \<and>
           f_size (k_file k') = f_size (k_file k) \<and> f_id (k_file k') = f_id (k_file k)"
proof -
  obtain rm k1 where m: "sys_set_mark k = (rm, k1)" by fastforce
  show ?thesis
  proof (cases rm)
    case (Inl e)
    then show ?thesis using assms m sys_set_mark_file [OF m]
      by (auto simp: drop_content_def mark_dehydrated_def sys_bind_def)
  next
    case (Inr u)
    then have f1: "k_file k1 = (k_file k)\<lparr>f_mark := True\<rparr>" using sys_set_mark_file [OF m] by auto
    define look where "look = sys_bind (exclude_from_backup b) (\<lambda>_. sys_bind sys_open (\<lambda>_. sys_fstat))"
    have ql: "quiet look" unfolding look_def by (intro quiet_rules)
    obtain rl k2 where l: "look k1 = (rl, k2)" by fastforce
    have c2: "core (k_file k2) = core (k_file k1)" by (rule quietD [OF ql l])
    have d: "drop_content b k =
        (case rl of Inl e \<Rightarrow> (Inl e, k2)
         | Inr st \<Rightarrow> sys_bind (punch_fd (f_size st)) (\<lambda>_. sys_ignore stamp_write_fd) k2)"
      using m Inr l by (auto simp: drop_content_def mark_dehydrated_def look_def sys_bind_def split: sum.splits prod.splits)
    show ?thesis
    proof (cases rl)
      case (Inl e)
      then have "r = Inl e \<and> k' = k2" using assms d by simp
      then show ?thesis using c2 f1 by (intro disjI1) simp
    next
      case (Inr st)
      have st: "f_size st = f_size (k_file k2)"
        using l Inr by (auto simp: look_def sys_bind_Inr dest!: sys_fstat_Inr)
      obtain rp k3 where p: "punch_fd (f_size st) k2 = (rp, k3)" by fastforce
      show ?thesis
      proof (cases rp)
        case (Inl e)
        have "k_file k3 = k_file k2"
          using p Inl unfolding punch_fd_def punch_range_fd_def
          by (auto simp: sys_return_def sys_punch_def dest!: sys_call_Inl split: if_splits)
        moreover have "r = Inl e \<and> k' = k3" using assms d Inr Inl p by (simp add: sys_bind_def)
        ultimately show ?thesis using c2 f1 by (intro disjI1) simp
      next
        case (Inr v)
        obtain s k4 where w: "sys_ignore stamp_write_fd k3 = (s, k4)" by fastforce
        have c4: "core (k_file k4) = core (k_file k3)" using quiet_ignore [OF quiet_stamp] w by (rule quietD)
        have s: "s = Inr ()" using w by (simp add: sys_ignore_def)
        have e: "(r, k') = (Inr (), k4)" using assms d \<open>rl = Inr st\<close> p Inr w s by (simp add: sys_bind_def)
        have h: "\<forall>q<f_size st. f_data (k_file k3) q = None"
          using punch_range_fd_Inr [OF p [unfolded punch_fd_def Inr]]
          by (simp add: span_bytes_def span_end_def span_new_def sat_add_def)
        have "shrunk (k_file k2) (k_file k3)" using shrunk_punch_range [of k2 0 "f_size st"] p by (simp add: punch_fd_def)
        then show ?thesis using e h c2 c4 f1 st by (simp add: shrunk_def core_eq)
      qed
    qed
  qed
qed

text \<open>What an eviction leaves, by its answer.\<close>

definition evicted :: "string \<Rightarrow> inode \<times> group \<Rightarrow> inode \<times> group \<Rightarrow> bool" where
  "evicted path before after =
     (f_mark (fst after) \<and> (\<forall>p<f_size (fst after). f_data (fst after) p = None) \<and>
      f_size (fst after) = f_size (fst before) \<and> f_id (fst after) = f_id (fst before) \<and>
      path \<notin> set (gr_ignored (snd after)))"

text \<open>C10: Under every combination of faults an eviction does one of three things.  It succeeds, and then
  the file is a placeholder of its old size and identity whose reads are intercepted again, it was not
  a placeholder before and its content was safe elsewhere.  It refuses, and then file and group are as
  they were.  Or it fails: then no content is gone, unless the failure is that of taking the ignore
  mark off, the last step; and in every case the file has the mark or every byte it had.\<close>

theorem evict_all_or_nothing:
  assumes "evict path b safe (k, g) = (r, k', g')" "file_safe (k_file k)"
  shows "file_safe (k_file k') \<and>
    (case r of
       Inr (Inr _) \<Rightarrow> safe \<and> evicted path (k_file k, g) (k_file k', g')
     | Inr (Inl why) \<Rightarrow> core (k_file k') = core (k_file k) \<and> g' = g \<and> (why = NotUploaded \<longrightarrow> \<not> safe)
     | Inl e \<Rightarrow> safe \<and> fst (group_unignore path g) = Inl e \<or> f_data (k_file k') = f_data (k_file k))"
proof -
  obtain rm k1 where m: "has_mark_fd k = (rm, k1)" by fastforce
  have c1: "core (k_file k1) = core (k_file k)" by (rule quietD [OF quiet_has_mark_fd m])
  have s1: "file_safe (k_file k1)" using assms(2) c1 by (simp add: file_safe_def complete_def core_eq)
  show ?thesis
  proof (cases "rm = Inr False \<and> safe")
    case False
    then show ?thesis using assms m c1 s1
      by (auto simp: evict_def core_eq split: sum.splits if_splits)
  next
    case True
    obtain rd k2 where d: "drop_content b k1 = (rd, k2)" by fastforce
    obtain ru g1 where u: "group_unignore path g = (ru, g1)" by fastforce
    have e: "(r, k', g') = (case rd of Inl e \<Rightarrow> (Inl e, k2, g)
        | Inr _ \<Rightarrow> (case ru of Inl e \<Rightarrow> (Inl e, k2, g1) | Inr _ \<Rightarrow> (Inr (Inr ()), k2, g1)))"
      using assms(1) m True d u by (simp add: evict_def split: sum.splits)
    show ?thesis using drop_content_cases [OF d]
    proof
      assume *: "(\<exists>e. rd = Inl e) \<and> (core (k_file k2) = core (k_file k1) \<or>
          core (k_file k2) = core ((k_file k1)\<lparr>f_mark := True\<rparr>))"
      then obtain err where "rd = Inl err" by blast
      moreover have "f_data (k_file k2) = f_data (k_file k)" "file_safe (k_file k2)"
        using * c1 s1 by (auto simp: core_eq file_safe_def complete_def)
      ultimately show ?thesis using e by simp
    next
      assume *: "rd = Inr () \<and> f_mark (k_file k2) \<and> (\<forall>p<f_size (k_file k2). f_data (k_file k2) p = None) \<and>
          f_size (k_file k2) = f_size (k_file k1) \<and> f_id (k_file k2) = f_id (k_file k1)"
      then have "file_safe (k_file k2)" by (simp add: file_safe_def)
      then show ?thesis using * e u c1 True group_unignore_Inr [of path g "()" g1]
        by (auto simp: evicted_def core_eq split: sum.splits)
    qed
  qed
qed

definition sample_group :: group where
  "sample_group = \<lparr>gr_plan = [], gr_answers = [], gr_ignored = [''a'']\<rparr>"

definition held_inode :: inode where
  "held_inode = sample_inode\<lparr>f_mark := False\<rparr>"

definition held_kernel :: "outcome list \<Rightarrow> kernel" where
  "held_kernel plan = (sample_kernel plan)\<lparr>k_file := held_inode\<rparr>"

lemmas evict_eval =
  evict_def drop_content_def exclude_from_backup_def set_nodump_def sys_open_def mark_dehydrated_def
  has_mark_fd_def sys_has_mark_def held_kernel_def held_inode_def placeholder_eval
  group_unignore_def group_ignore_def group_mark_def group_call_def sample_group_def

lemma held_safe: "file_safe (k_file (held_kernel plan))"
  by (simp add: file_safe_def complete_def held_kernel_def held_inode_def sample_inode_def)

lemma evict_all_or_nothing_witness:
  "evicted ''a'' (held_inode, sample_group)
     (k_file (fst (snd (evict ''a'' Exclude True (held_kernel [], sample_group)))),
      snd (snd (evict ''a'' Exclude True (held_kernel [], sample_group))))"
proof -
  obtain r k' g' where h: "evict ''a'' Exclude True (held_kernel [], sample_group) = (r, k', g')"
    by (metis prod.exhaust)
  have "r = Inr (Inr ())" using h by (simp add: evict_eval)
  moreover have "k_file (held_kernel []) = held_inode" by (simp add: held_kernel_def)
  ultimately show ?thesis
    using evict_all_or_nothing [OF h held_safe] h by simp
qed

text \<open>Every call on the file succeeds.\<close>

lemma next_outcome_nil: "k_plan k = [] \<Longrightarrow> next_outcome k = (SysOk, k)"
  by (simp add: next_outcome_def)

lemma plan_nil_call:
  "k_plan k = [] \<Longrightarrow> (\<And>k. k_plan (snd (act k)) = k_plan k) \<Longrightarrow> k_plan (snd (sys_call act k)) = []"
  by (simp add: sys_call_def next_outcome_nil)

text \<open>The window the order of the two steps leaves.  Where the kernel refuses to take the ignore
  mark off, the eviction reports the error of a file that already has no content: a placeholder
  whose every byte is a hole and whose reads raise no event, because the group still ignores it.\<close>

theorem evict_left_ignored:
  assumes "k_plan k = []" "\<not> f_mark (k_file k)" "0 < f_size (k_file k)"
    and "path \<in> set (gr_ignored g)" "CHR 0x00 \<notin> set path" "gr_plan g = [Some e]"
  shows "\<exists>k' g'. evict path Include True (k, g) = (Inl e, k', g') \<and> f_size (k_file k') = f_size (k_file k) \<and>
           (\<forall>p<f_size (k_file k'). f_data (k_file k') p = None) \<and> path \<in> set (gr_ignored g')"
proof -
  have h: "has_mark_fd k = (Inr False, k)"
    using assms(1,2) by (simp add: has_mark_fd_def sys_has_mark_def sys_call_def next_outcome_nil)
  obtain r k2 where d: "drop_content Include k = (r, k2)" by fastforce
  have r: "r = Inr ()"
    using d assms(1) order.strict_implies_not_eq [OF assms(3)]
    by (auto simp: drop_content_def mark_dehydrated_def exclude_from_backup_def sys_open_def sys_bind_def
        sys_set_mark_def sys_call_def next_outcome_nil sys_return_def sys_fstat_def punch_fd_def punch_range_fd_def
        sys_punch_def sys_ignore_def)
  have u: "group_unignore path g = (Inl e, g\<lparr>gr_plan := []\<rparr>)"
    using assms(5,6) by (simp add: group_unignore_def group_mark_def group_call_def)
  show ?thesis
    using drop_content_cases [OF d] r h d u assms(4) by (simp add: evict_def)
qed

lemma evict_left_ignored_witness:
  "\<exists>k' g'. evict ''a'' Include True (held_kernel [], sample_group\<lparr>gr_plan := [Some (Os EIO)]\<rparr>) = (Inl (Os EIO), k', g') \<and>
     f_size (k_file k') = f_size (k_file (held_kernel [])) \<and>
     (\<forall>p<f_size (k_file k'). f_data (k_file k') p = None) \<and> ''a'' \<in> set (gr_ignored g')"
  by (rule evict_left_ignored)
     (simp_all add: held_kernel_def held_inode_def sample_kernel_def sample_inode_def sample_group_def)

text \<open>\<open>arm\<close> leaves a file that is not ignored alone, and needs no earlier mark.\<close>

lemma arm_again: "arm path g = (Inr u, g') \<Longrightarrow> gr_plan g = [] \<Longrightarrow> arm path g' = (Inr (), g')"
  by (auto simp: arm_def group_unignore_def group_mark_def group_call_def split: if_splits)

section \<open>What a created placeholder is\<close>

lemma sys_create_new_Inr:
  "sys_create_new i k = (Inr u, k') \<Longrightarrow> \<exists>t. k_file k' = empty_inode i t"
  unfolding sys_create_new_def by (drule sys_call_Inr) (elim exE conjE, auto simp del: split_paired_Ex)

lemma sys_set_len_file:
  "sys_set_len n k = (r, k') \<Longrightarrow>
     (\<exists>e. r = Inl e) \<and> k_file k' = k_file k \<or>
     r = Inr () \<and> core (k_file k') = (f_id (k_file k), n, f_nlink (k_file k),
        (\<lambda>p. if p < n then f_data (k_file k) p else None), f_mark (k_file k))"
  unfolding sys_set_len_def
  by (cases r) (auto dest!: sys_call_Inr sys_call_Inl simp: core_def file_touch_def)

text \<open>A placeholder constructed in a watched mount and reported as such has its size, the mark, no
  byte of content and no ignore mark: the first read of it is intercepted and finds a placeholder.\<close>

theorem create_under_ok:
  assumes "create_under path i n (k, g) = (Inr found, k', g')"
  shows "found = i \<and> f_id (k_file k') = i \<and> f_size (k_file k') = n \<and> f_mark (k_file k') \<and>
         (\<forall>p. f_data (k_file k') p = None) \<and> path \<notin> set (gr_ignored g')"
proof -
  obtain k1 where c: "sys_create_new i k = (Inr (), k1)"
    using assms by (auto simp: create_under_def split: sum.splits prod.splits)
  obtain g1 where ig: "group_ignore path g = (Inr (), g1)"
    using assms c by (auto simp: create_under_def split: sum.splits prod.splits)
  obtain k2 where b: "build_placeholder n k1 = (Inr (), k2)"
    using assms c ig by (auto simp: create_under_def split: sum.splits prod.splits)
  obtain g2 where u: "group_unignore path g1 = (Inr (), g2)"
    using assms c ig b by (auto simp: create_under_def split: sum.splits prod.splits)
  obtain sz where f: "id_and_size_fd k2 = (Inr (found, sz), k')" and g': "g' = g2"
    using assms c ig b u by (auto simp: create_under_def split: sum.splits prod.splits)
  obtain t where k1: "k_file k1 = empty_inode i t" using sys_create_new_Inr [OF c] by blast
  obtain ka kb kc where bo: "sys_open k1 = (Inr (), ka)" and bl: "sys_set_len n ka = (Inr (), kb)"
    and bc: "sys_chmod kb = (Inr (), kc)" and bm: "sys_set_mark kc = (Inr (), k2)"
    using b by (auto simp: build_placeholder_def sys_bind_Inr mark_dehydrated_def)
  have "core (k_file ka) = core (k_file k1)" by (rule sys_open_file [OF bo])
  moreover have "core (k_file kb) = (f_id (k_file ka), n, f_nlink (k_file ka),
      (\<lambda>p. if p < n then f_data (k_file ka) p else None), f_mark (k_file ka))"
    using sys_set_len_file [OF bl] by simp
  moreover have "core (k_file kc) = core (k_file kb)" by (rule quietD [OF quiet_chmod bc])
  moreover have "k_file k2 = (k_file kc)\<lparr>f_mark := True\<rparr>" using sys_set_mark_file [OF bm] by simp
  moreover have "core (k_file k') = core (k_file k2)" by (rule quietD [OF quiet_id_and_size_fd f])
  moreover have "found = f_id (k_file k2)"
    using f by (auto simp: id_and_size_fd_def sys_bind_Inr sys_return_def dest!: sys_fstat_Inr)
  ultimately show ?thesis
    using k1 g' group_unignore_Inr [OF u] by (auto simp: core_def empty_inode_def)
qed

lemma create_under_ok_witness:
  "f_mark (k_file (fst (snd (create_under ''b'' (FileId 1 9) 5 (held_kernel [], sample_group)))))"
proof -
  obtain r k' g' where h: "create_under ''b'' (FileId 1 9) 5 (held_kernel [], sample_group) = (r, k', g')"
    by (metis prod.exhaust)
  have "\<exists>found. r = Inr found"
    using h by (auto simp: create_under_def sys_create_new_def build_placeholder_def sys_set_len_def sys_chmod_def
        id_and_size_fd_def evict_eval)
  then show ?thesis using h create_under_ok by fastforce
qed

text \<open>The error path of the same construction: where giving the file its permissions fails, it stays
  behind with its size, no content and no mark, and its events are armed, so nothing says that its
  zeros are not its content.\<close>

theorem create_under_interrupted_unsafe:
  assumes "k_plan k = [SysOk, SysOk, SysOk, SysErr e]" "gr_plan g = []" "CHR 0x00 \<notin> set path" "0 < n"
  shows "\<exists>k' g'. create_under path i n (k, g) = (Inl (Os e), k', g') \<and> f_size (k_file k') = n \<and>
           \<not> file_safe (k_file k') \<and> path \<notin> set (gr_ignored g')"
  using assms
  by (auto simp: create_under_def sys_create_new_def build_placeholder_def sys_set_len_def sys_chmod_def sys_open_def
      sys_bind_def sys_call_def next_outcome_def sys_return_def group_ignore_def group_unignore_def group_mark_def
      group_call_def file_safe_def complete_def empty_inode_def file_touch_def intro!: exI [of _ 0])

lemma create_under_interrupted_unsafe_witness:
  "\<exists>k' g'. create_under ''b'' (FileId 1 9) 5 (held_kernel [SysOk, SysOk, SysOk, SysErr EPERM], sample_group) =
       (Inl (Os EPERM), k', g') \<and>
     f_size (k_file k') = 5 \<and> \<not> file_safe (k_file k') \<and> ''b'' \<notin> set (gr_ignored g')"
  by (rule create_under_interrupted_unsafe) (simp_all add: held_kernel_def sample_kernel_def sample_group_def)

end
