(* ===== verification/Evict_Plan.thy ===== *)
theory Evict_Plan
  imports Prelude "HOL-Library.Sublist" "HOL-Library.Product_Lexorder"
begin

text \<open>
  \<open>crates/hydration-client/src/evict_policy.rs\<close>: which resident files to turn back into placeholders
  when the disk is short.  \<open>plan\<close> is a pure function of the candidates, the free space and the clock;
  all its quantities are 64-bit words, and its sums saturate as the code's do.
\<close>

section \<open>Configuration and candidates\<close>

record eviction_config =
  ec_low_pct :: u32
  ec_low_abs :: u64
  ec_high_pct :: u32
  ec_high_abs :: u64
  ec_grace_secs :: u64
  ec_sweep_cap :: u64
  ec_min_interval_secs :: u64

definition GIB :: u64 where "GIB = 1024 * 1024 * 1024"

definition default_pressure :: eviction_config where
  "default_pressure =
     \<lparr>ec_low_pct = 10, ec_low_abs = 10 * GIB, ec_high_pct = 15, ec_high_abs = 15 * GIB,
      ec_grace_secs = 4 * 60 * 60, ec_sweep_cap = 8 * GIB, ec_min_interval_secs = 5 * 60\<rparr>"

definition marks :: "eviction_config \<Rightarrow> u64 \<Rightarrow> u64 \<times> u64" where
  "marks cfg tot =
     (min (tot div 100 * ucast (ec_low_pct cfg)) (ec_low_abs cfg),
      min (tot div 100 * ucast (ec_high_pct cfg)) (ec_high_abs cfg))"

record candidate =
  ca_rel :: string
  ca_reclaimable :: u64
  ca_recency :: u64

section \<open>The choice\<close>

text \<open>\<open>sort_by\<close> is stable: oldest first, and of two as old the one that gives back more.\<close>

definition evict_key :: "candidate \<Rightarrow> nat \<times> int" where
  "evict_key c = (unat (ca_recency c), - uint (ca_reclaimable c))"

fun take_oldest ::
  "eviction_config \<Rightarrow> u64 \<Rightarrow> u64 \<Rightarrow> u64 \<Rightarrow> candidate list \<Rightarrow> u64 \<Rightarrow> candidate list \<Rightarrow> candidate list" where
  "take_oldest cfg available high now [] freed selected = selected"
| "take_oldest cfg available high now (c # cs) freed selected =
     (if high \<le> sat_add available freed then selected
      else if sat_sub now (ca_recency c) < ec_grace_secs cfg
      then take_oldest cfg available high now cs freed selected
      else if selected \<noteq> [] \<and> ec_sweep_cap cfg < sat_add freed (ca_reclaimable c) then selected
      else take_oldest cfg available high now cs (sat_add freed (ca_reclaimable c)) (selected @ [c]))"

definition chosen :: "candidate list \<Rightarrow> u64 \<Rightarrow> u64 \<Rightarrow> eviction_config \<Rightarrow> u64 \<Rightarrow> candidate list" where
  "chosen cs available tot cfg now =
     (case marks cfg tot of (low, high) \<Rightarrow>
        if low \<le> available then [] else take_oldest cfg available high now (sort_key evict_key cs) 0 [])"

definition plan :: "candidate list \<Rightarrow> u64 \<Rightarrow> u64 \<Rightarrow> eviction_config \<Rightarrow> u64 \<Rightarrow> string list" where
  "plan cs available tot cfg now = map ca_rel (chosen cs available tot cfg now)"

section \<open>What is chosen\<close>

text \<open>The bytes a list of candidates gives back, without wrap-around.\<close>

definition gives_back :: "candidate list \<Rightarrow> nat" where
  "gives_back cs = (\<Sum>c\<leftarrow>cs. unat (ca_reclaimable c))"

lemma gives_back_simps [simp]:
  "gives_back [] = 0" "gives_back (cs @ ds) = gives_back cs + gives_back ds"
  "gives_back (c # cs) = unat (ca_reclaimable c) + gives_back cs"
  by (simp_all add: gives_back_def)

definition capped :: "nat \<Rightarrow> nat" where
  "capped n = min n (2 ^ 64 - 1)"

lemma unat_sat: "unat (sat_add (a :: u64) b) = capped (unat a + unat b)"
  by (simp add: unat_sat_add capped_def)

lemma capped_add: "capped (capped a + b) = capped (a + b)"
  by (simp add: capped_def min_def)

definition out_of_grace :: "eviction_config \<Rightarrow> u64 \<Rightarrow> candidate \<Rightarrow> bool" where
  "out_of_grace cfg now c \<longleftrightarrow> ec_grace_secs cfg \<le> sat_sub now (ca_recency c)"

text \<open>
  The invariant of the loop: what is selected so far is what the freed bytes count, and every selection
  was made below the high mark and, but for the first, within the cap.
\<close>

definition batch_ok :: "eviction_config \<Rightarrow> u64 \<Rightarrow> u64 \<Rightarrow> u64 \<Rightarrow> candidate list \<Rightarrow> bool" where
  "batch_ok cfg available high now sel \<longleftrightarrow>
     (\<forall>c\<in>set sel. out_of_grace cfg now c) \<and>
     (\<forall>n<length sel. capped (unat available + gives_back (take n sel)) < unat high) \<and>
     (1 < length sel \<longrightarrow> capped (gives_back sel) \<le> unat (ec_sweep_cap cfg))"

lemma batch_ok_snoc:
  assumes "batch_ok cfg available high now sel" "out_of_grace cfg now c"
    and "capped (unat available + gives_back sel) < unat high"
    and "sel = [] \<or> capped (gives_back (sel @ [c])) \<le> unat (ec_sweep_cap cfg)"
  shows "batch_ok cfg available high now (sel @ [c])"
  using assms unfolding batch_ok_def by (auto simp: less_Suc_eq)

lemma sat_freed: "unat freed = capped (gives_back sel) \<Longrightarrow>
  unat (sat_add (available :: u64) freed) = capped (unat available + gives_back sel)"
  by (simp add: unat_sat) (simp add: capped_def min_def)

lemma take_oldest_ok:
  assumes "batch_ok cfg available high now sel" "unat freed = capped (gives_back sel)"
  shows "batch_ok cfg available high now (take_oldest cfg available high now cs freed sel) \<and>
    (\<exists>es. take_oldest cfg available high now cs freed sel = sel @ es \<and> subseq es cs)"
  using assms
proof (induction cs arbitrary: freed sel)
  case (Cons c cs)
  let ?f = "sat_add freed (ca_reclaimable c)"
  have f: "unat ?f = capped (gives_back (sel @ [c]))"
    using Cons.prems(2) by (simp add: unat_sat capped_add)
  show ?case
  proof (cases "high \<le> sat_add available freed")
    case False
    then have below: "capped (unat available + gives_back sel) < unat high"
      using sat_freed [OF Cons.prems(2), of available] by (simp add: word_le_nat_alt)
    show ?thesis
    proof (cases "sat_sub now (ca_recency c) < ec_grace_secs cfg")
      case True
      then show ?thesis using Cons.IH [OF Cons.prems] False by auto
    next
      case old: False
      show ?thesis
      proof (cases "sel \<noteq> [] \<and> ec_sweep_cap cfg < ?f")
        case True
        then show ?thesis using Cons.prems(1) False old by simp
      next
        case room: False
        then have "sel = [] \<or> capped (gives_back (sel @ [c])) \<le> unat (ec_sweep_cap cfg)"
          using f by (auto simp: word_less_nat_alt)
        then have "batch_ok cfg available high now (sel @ [c])"
          using batch_ok_snoc [OF Cons.prems(1) _ below] old by (auto simp: out_of_grace_def)
        from Cons.IH [OF this f] show ?thesis using False old room by auto
      qed
    qed
  qed (use Cons.prems in auto)
qed auto

lemma chosen_ok:
  "batch_ok cfg available (snd (marks cfg tot)) now (chosen cs available tot cfg now) \<and>
   subseq (chosen cs available tot cfg now) (sort_key evict_key cs)"
  using take_oldest_ok [of cfg available "snd (marks cfg tot)" now "[]" 0 "sort_key evict_key cs"]
  by (auto simp: chosen_def batch_ok_def capped_def split: prod.splits)

text \<open>C39: A sweep is bounded.  It selects nothing unless free space is below the low mark; what it selects
  is a subsequence of the candidates in order of age; no selected file was acquired within the grace
  period; every selection was made while free space plus what the earlier ones give back was below
  the high mark; and two files or more never give back more than the cap.\<close>

theorem plan_bounded:
  assumes sel_def: "sel = chosen cs available tot cfg now"
  shows "plan cs available tot cfg now = map ca_rel sel \<and>
    (sel \<noteq> [] \<longrightarrow> available < fst (marks cfg tot)) \<and>
    subseq sel (sort_key evict_key cs) \<and> set sel \<subseteq> set cs \<and>
    (\<forall>c\<in>set sel. ec_grace_secs cfg \<le> sat_sub now (ca_recency c)) \<and>
    (\<forall>n<length sel. unat available + gives_back (take n sel) < unat (snd (marks cfg tot))) \<and>
    (1 < length sel \<and> unat (ec_sweep_cap cfg) < 2 ^ 64 - 1 \<longrightarrow> gives_back sel \<le> unat (ec_sweep_cap cfg))"
proof -
  note ok = chosen_ok [of cfg available tot now cs, folded sel_def, unfolded batch_ok_def]
  have "set sel \<subseteq> set cs" using ok by (auto dest: list_emb_set)
  moreover have "unat available + gives_back (take n sel) < unat (snd (marks cfg tot))" if "n < length sel" for n
  proof -
    have "capped (unat available + gives_back (take n sel)) < unat (snd (marks cfg tot))" using ok that by simp
    moreover have "unat (snd (marks cfg tot)) < 2 ^ 64" using unsigned_less [of "snd (marks cfg tot)"] by simp
    ultimately show ?thesis by (simp add: capped_def min_def split: if_splits)
  qed
  moreover have "sel \<noteq> [] \<longrightarrow> available < fst (marks cfg tot)"
    by (auto simp: sel_def chosen_def split: prod.splits if_splits)
  moreover have "1 < length sel \<and> unat (ec_sweep_cap cfg) < 2 ^ 64 - 1 \<longrightarrow> gives_back sel \<le> unat (ec_sweep_cap cfg)"
    using ok by (auto simp: capped_def min_def split: if_splits)
  ultimately show ?thesis using ok by (auto simp: plan_def sel_def out_of_grace_def)
qed

definition sample_cfg :: eviction_config where
  "sample_cfg =
     \<lparr>ec_low_pct = 100, ec_low_abs = 100, ec_high_pct = 100, ec_high_abs = 300, ec_grace_secs = 10,
      ec_sweep_cap = 1000, ec_min_interval_secs = 0\<rparr>"

definition cand :: "string \<Rightarrow> u64 \<Rightarrow> u64 \<Rightarrow> candidate" where
  "cand r n t = \<lparr>ca_rel = r, ca_reclaimable = n, ca_recency = t\<rparr>"

lemma plan_bounded_witness:
  "set (chosen [cand ''new'' 100 500, cand ''old'' 100 100] 40 10000 sample_cfg 1000) \<subseteq>
     {cand ''new'' 100 500, cand ''old'' 100 100} \<and>
   plan [cand ''new'' 100 500, cand ''old'' 100 100] 40 10000 sample_cfg 1000 = [''old'', ''new'']"
proof -
  have "plan [cand ''new'' 100 500, cand ''old'' 100 100] 40 10000 sample_cfg 1000 = [''old'', ''new'']"
    by (simp add: plan_def chosen_def marks_def sample_cfg_def cand_def evict_key_def sat_add_def sat_sub_def)
  then show ?thesis
    using plan_bounded [OF refl, of "[cand ''new'' 100 500, cand ''old'' 100 100]" 40 10000 sample_cfg 1000] by simp
qed

text \<open>The cap counts bytes and not files.  Files that give nothing back (their content is stored inline
  or is a hole) never reach the mark nor the cap: under pressure every one of them that is out of its
  grace period is selected, and the disk is no emptier for it.\<close>

theorem weightless_files_are_all_evicted:
  assumes "available < fst (marks cfg tot)" "available < snd (marks cfg tot)"
    and "\<forall>c\<in>set cs. ca_reclaimable c = 0 \<and> ec_grace_secs cfg \<le> sat_sub now (ca_recency c)"
  shows "set (plan cs available tot cfg now) = ca_rel ` set cs \<and> gives_back (chosen cs available tot cfg now) = 0"
proof -
  obtain low high where m: "marks cfg tot = (low, high)" by fastforce
  have "take_oldest cfg available high now ds 0 sel = sel @ ds"
    if "\<forall>c\<in>set ds. ca_reclaimable c = 0 \<and> ec_grace_secs cfg \<le> sat_sub now (ca_recency c)" for ds sel
    using that assms(2) m by (induction ds arbitrary: sel) (auto simp: sat_add_def not_le not_less)
  from this [of "sort_key evict_key cs" "[]"]
  have c: "chosen cs available tot cfg now = sort_key evict_key cs"
    using assms m by (auto simp: chosen_def)
  have "gives_back ds = 0" if "\<forall>c\<in>set ds. ca_reclaimable c = 0" for ds
    using that by (induction ds) auto
  then show ?thesis using assms(3) c by (simp add: plan_def)
qed

lemma weightless_files_are_all_evicted_witness:
  "set (plan [cand ''a'' 0 1, cand ''b'' 0 2] 40 10000 sample_cfg 1000) = {''a'', ''b''}"
  using weightless_files_are_all_evicted [of 40 sample_cfg 10000 "[cand ''a'' 0 1, cand ''b'' 0 2]" 1000]
  by (simp add: marks_def sample_cfg_def cand_def sat_sub_def)

text \<open>With the shipped marks the low one is never above the high one, so a sweep is never idle under pressure.\<close>

lemma unat_less_64: "unat (w :: u64) < 2 ^ 64"
  by (rule order_less_le_trans [OF unsigned_less]) simp

lemma default_marks_ordered: "fst (marks default_pressure tot) \<le> snd (marks default_pressure tot)"
proof -
  have d: "unat (tot div 100) < 2 ^ 58" using unat_less_64 [of tot] by (simp add: unat_div)
  have "unat (tot div 100 * 10) = unat (tot div 100) * 10" "unat (tot div 100 * 15) = unat (tot div 100) * 15"
    using d by (simp_all add: unat_word_ariths)
  then have "tot div 100 * 10 \<le> tot div 100 * 15" by (simp add: word_le_nat_alt)
  then show ?thesis
    by (auto simp: marks_def default_pressure_def GIB_def min_def word_le_nat_alt)
qed

end
