(* ===== verification/Names.thy ===== *)
theory Names
  imports Texts
begin

text \<open>
  \<open>names\<close> and \<open>ignore\<close> of \<open>crates/hydration-protocol/src/lib.rs\<close>: which file names are the framework's
  own, and which paths the user wants left alone.
\<close>

section \<open>The framework's own names\<close>

definition MANIFEST :: string where "MANIFEST = ''.hydration-manifest''"
definition LINEAGE :: string where "LINEAGE = ''.hydration-lineage''"
definition IGNORE :: string where "IGNORE = ''.hydration-ignore''"

definition ascii_digit :: "char \<Rightarrow> bool" where
  "ascii_digit c \<longleftrightarrow> byte_in 0x30 0x39 c"

definition scratch_infix :: string where "scratch_infix = ''.hydration-''"

definition is_scratch :: "string \<Rightarrow> bool" where
  "is_scratch name =
     (case strip_prefix ''.'' name of
        None \<Rightarrow> False
      | Some rest \<Rightarrow>
          (case rsplit_once scratch_infix rest of
             None \<Rightarrow> False
           | Some (base, sq) \<Rightarrow> base \<noteq> [] \<and> sq \<noteq> [] \<and> list_all ascii_digit sq))"

definition is_internal :: "string \<Rightarrow> bool" where
  "is_internal name \<longleftrightarrow>
     name = MANIFEST \<or> name = MANIFEST @ ''.tmp'' \<or> name = LINEAGE \<or> name = LINEAGE @ ''.tmp'' \<or>
     name = IGNORE \<or> is_scratch name"

section \<open>Ignore rules\<close>

record ignore_set =
  ig_component :: "string list"
  ig_prefix :: "string list"

definition byte_order_mark :: string where
  "byte_order_mark = [CHR 0xEF, CHR 0xBB, CHR 0xBF]"

text \<open>What one line of the file adds to the rules.\<close>

definition rule_line :: "string \<Rightarrow> string" where
  "rule_line raw =
     (let t = trim_end raw in case strip_prefix byte_order_mark t of Some s \<Rightarrow> s | None \<Rightarrow> t)"

definition add_rule :: "ignore_set \<Rightarrow> string \<Rightarrow> ignore_set" where
  "add_rule ig raw =
     (let line = rule_line raw
      in if line = [] \<or> hd line = CHR ''#'' then ig
         else if ''..'' \<in> set (split_on slash line) then ig
         else if slash \<in> set line
         then (let p = trim_slashes line
               in if p = [] then ig else ig\<lparr>ig_prefix := ig_prefix ig @ [p]\<rparr>)
         else ig\<lparr>ig_component := ig_component ig @ [line]\<rparr>)"

definition ignore_from_config :: "string \<Rightarrow> ignore_set" where
  "ignore_from_config contents =
     foldl add_rule \<lparr>ig_component = [''.git''], ig_prefix = []\<rparr> (str_lines contents)"

definition ignore_default :: ignore_set where
  "ignore_default = ignore_from_config []"

definition is_ignored :: "ignore_set \<Rightarrow> path \<Rightarrow> bool" where
  "is_ignored ig rel \<longleftrightarrow>
     list_ex (\<lambda>c. is_utf8 c \<and> c \<in> set (ig_component ig)) rel \<or>
     (case path_str rel of
        None \<Rightarrow> False
      | Some rs \<Rightarrow>
          list_ex (\<lambda>p. rs = p \<or> prefix p rs \<and> length p < length rs \<and> rs ! length p = slash) (ig_prefix ig))"

section \<open>Scratch names\<close>

lemma rsplit_once_last:
  assumes "\<And>i. length b < i \<Longrightarrow> \<not> prefix p (drop i (b @ p @ s))"
  shows "rsplit_once p (b @ p @ s) = Some (b, s)"
proof -
  let ?t = "b @ p @ s"
  have split: "[0..<Suc (length ?t)] = [0..<length b] @ length b # [Suc (length b)..<Suc (length ?t)]"
  proof -
    have "[0..<Suc (length ?t)] = [0..<length b] @ [length b..<Suc (length ?t)]"
      using upt_add_eq_append [of 0 "length b" "Suc (length p + length s)"] by (simp del: upt_Suc)
    then show ?thesis by (simp add: upt_conv_Cons del: upt_Suc)
  qed
  have "filter (\<lambda>i. prefix p (drop i ?t)) (rev [Suc (length b)..<Suc (length ?t)]) = []"
    unfolding filter_empty_conv using assms by (simp del: append_assoc drop_append upt_Suc)
  then show ?thesis unfolding rsplit_once_def split by simp
qed

lemma scratch_infix_once:
  assumes "list_all ascii_digit s" "length b < i"
  shows "\<not> prefix scratch_infix (drop i (b @ scratch_infix @ s))"
proof
  assume "prefix scratch_infix (drop i (b @ scratch_infix @ s))"
  then have "prefix scratch_infix (drop (i - length b) (scratch_infix @ s))"
    using assms(2) by simp
  then obtain z where z: "drop (i - length b) (scratch_infix @ s) = scratch_infix @ z" by (auto simp: prefix_def)
  have dot: "CHR ''.'' \<notin> set s" using assms(1) by (auto simp: list_all_iff ascii_digit_def byte_in_def)
  have "CHR ''.'' \<in> set (drop (i - length b) (scratch_infix @ s))" unfolding z by (simp add: scratch_infix_def)
  moreover have "set (drop (i - length b) (scratch_infix @ s)) \<subseteq> set (tl scratch_infix @ s)"
  proof -
    have "0 < i - length b" using assms(2) by simp
    then obtain m where "i - length b = Suc m" by (cases "i - length b") auto
    then show ?thesis using set_drop_subset [of m "tl scratch_infix @ s"] by (simp add: scratch_infix_def)
  qed
  ultimately show False using dot by (auto simp: scratch_infix_def)
qed

lemma rsplit_once_Some: "rsplit_once p s = Some (b, q) \<Longrightarrow> s = b @ p @ q"
proof (unfold rsplit_once_def, cases "filter (\<lambda>i. prefix p (drop i s)) (rev [0..<Suc (length s)])")
  case (Cons i js)
  then have "prefix p (drop i s)" by (metis filter_eq_ConsD)
  then have "s = take i s @ p @ drop (i + length p) s"
    by (metis add.commute append_take_drop_id drop_drop prefix_def append_eq_conv_conj)
  then show "(case filter (\<lambda>i. prefix p (drop i s)) (rev [0..<Suc (length s)]) of [] \<Rightarrow> None
      | i # _ \<Rightarrow> Some (take i s, drop (i + length p) s)) = Some (b, q) \<Longrightarrow> s = b @ p @ q"
    using Cons by auto
qed simp

text \<open>A name is a scratch name exactly when it reads \<open>.<base>.hydration-<digits>\<close> with a base and at
  least one digit.\<close>

theorem is_scratch_exactly:
  "is_scratch name \<longleftrightarrow>
     (\<exists>base sq. name = ''.'' @ base @ scratch_infix @ sq \<and> base \<noteq> [] \<and> sq \<noteq> [] \<and> list_all ascii_digit sq)"
proof
  assume "is_scratch name"
  then obtain rest base sq where "strip_prefix ''.'' name = Some rest" "rsplit_once scratch_infix rest = Some (base, sq)"
    "base \<noteq> []" "sq \<noteq> []" "list_all ascii_digit sq"
    by (auto simp: is_scratch_def split: option.splits)
  moreover from this have "name = ''.'' @ rest" "rest = base @ scratch_infix @ sq"
    by (auto simp: strip_prefix_def prefix_def split: if_splits dest: rsplit_once_Some)
  ultimately show "\<exists>base sq. name = ''.'' @ base @ scratch_infix @ sq \<and> base \<noteq> [] \<and> sq \<noteq> [] \<and> list_all ascii_digit sq"
    by blast
next
  assume "\<exists>base sq. name = ''.'' @ base @ scratch_infix @ sq \<and> base \<noteq> [] \<and> sq \<noteq> [] \<and> list_all ascii_digit sq"
  then obtain base sq where n: "name = ''.'' @ base @ scratch_infix @ sq" "base \<noteq> []" "sq \<noteq> []" "list_all ascii_digit sq"
    by blast
  have "rsplit_once scratch_infix (base @ scratch_infix @ sq) = Some (base, sq)"
    by (rule rsplit_once_last) (rule scratch_infix_once [OF n(4)])
  then show "is_scratch name" using n by (simp add: is_scratch_def strip_prefix_def)
qed

text \<open>The names that must survive a sweep of scratch files are none of them.\<close>

lemma kept_names_are_not_scratch: "\<not> is_scratch MANIFEST" "\<not> is_scratch LINEAGE" "\<not> is_scratch IGNORE"
  by (simp_all add: is_scratch_def strip_prefix_def rsplit_once_def MANIFEST_def LINEAGE_def IGNORE_def
      scratch_infix_def upt_conv_Cons)

section \<open>What the rules ignore\<close>

lemma add_rule_keeps: "set (ig_component ig) \<subseteq> set (ig_component (add_rule ig raw))"
  by (auto simp: add_rule_def Let_def)

lemma fold_rules_keep: "set (ig_component ig) \<subseteq> set (ig_component (foldl add_rule ig ls))"
proof (induction ls arbitrary: ig)
  case (Cons l ls)
  then show ?case using add_rule_keeps [of ig l] by (metis foldl_Cons subset_trans)
qed simp

lemma utf8_git: "is_utf8 ''.git''"
  by (simp add: byte_in_def)

text \<open>No configuration turns \<open>.git\<close> off: a path with that component, at any depth, is ignored.\<close>

theorem git_always_ignored:
  assumes "''.git'' \<in> set rel"
  shows "is_ignored (ignore_from_config contents) rel"
proof -
  have "''.git'' \<in> set (ig_component (ignore_from_config contents))"
    using fold_rules_keep [of "\<lparr>ig_component = [''.git''], ig_prefix = []\<rparr>"] by (auto simp: ignore_from_config_def)
  then show ?thesis using assms utf8_git by (force simp: is_ignored_def list_ex_iff)
qed

lemma git_always_ignored_witness: "is_ignored (ignore_from_config ''src'') [''a'', ''.git'', ''index'']"
  by (rule git_always_ignored) simp

text \<open>A list of components as a rule of the configuration would write it.\<close>

definition plain_component :: "string \<Rightarrow> bool" where
  "plain_component c \<longleftrightarrow> c \<noteq> [] \<and> slash \<notin> set c"

lemma join_append: "ps \<noteq> [] \<Longrightarrow> qs \<noteq> [] \<Longrightarrow> join_with c (ps @ qs) = join_with c ps @ c # join_with c qs"
proof (induction c ps rule: join_with.induct)
  case (2 c s)
  then show ?case by (cases qs) auto
qed auto

lemma join_inj:
  assumes "join_with slash ps = join_with slash qs" "ps \<noteq> []" "qs \<noteq> []"
    and "\<forall>c\<in>set ps. slash \<notin> set c" "\<forall>c\<in>set qs. slash \<notin> set c"
  shows "ps = qs"
  using assms split_join by metis

lemma under_prefix_iff:
  assumes "ps \<noteq> []" "\<forall>c\<in>set ps. plain_component c" "\<forall>c\<in>set rel. plain_component c" "rel \<noteq> []"
  shows "(join_with slash rel = join_with slash ps \<or>
          prefix (join_with slash ps) (join_with slash rel) \<and>
          length (join_with slash ps) < length (join_with slash rel) \<and>
          join_with slash rel ! length (join_with slash ps) = slash) \<longleftrightarrow> prefix ps rel"
    (is "?same \<or> ?below \<longleftrightarrow> _")
proof
  assume "prefix ps rel"
  then obtain qs where q: "rel = ps @ qs" by (auto simp: prefix_def)
  show "?same \<or> ?below"
    using join_append [OF assms(1), of qs slash] q by (cases "qs = []") (auto simp: nth_append)
next
  have ns: "\<forall>c\<in>set ps. slash \<notin> set c" "\<forall>c\<in>set rel. slash \<notin> set c"
    using assms(2,3) by (auto simp: plain_component_def)
  assume "?same \<or> ?below"
  then show "prefix ps rel"
  proof
    assume ?same
    then show ?thesis using join_inj [OF _ assms(4,1) ns(2,1)] by simp
  next
    assume b: ?below
    then obtain z where z: "join_with slash rel = join_with slash ps @ z" by (auto simp: prefix_def)
    then obtain t where t: "z = slash # t" using b by (cases z) (auto simp: nth_append)
    have "rel = split_on slash (join_with slash ps @ slash # t)"
      using split_join [OF assms(4) ns(2)] z t by simp
    also have "\<dots> = split_on slash (join_with slash (ps @ split_on slash t))"
      using join_append [OF assms(1), of "split_on slash t" slash] by (simp add: join_split)
    also have "\<dots> = ps @ split_on slash t"
    proof (rule split_join)
      have "slash \<notin> set c" if "c \<in> set (split_on slash t)" for c
        using that
        by (induction slash t arbitrary: c rule: split_on.induct) (auto split: if_splits list.splits)
      then show "\<forall>s\<in>set (ps @ split_on slash t). slash \<notin> set s" using ns(1) by auto
    qed simp
    finally show ?thesis by simp
  qed
qed

text \<open>The rules as a specification over components: any component names a rule, or the components of
  an anchored rule are a prefix of the path.\<close>

definition rules_hit :: "string list \<Rightarrow> path list \<Rightarrow> path \<Rightarrow> bool" where
  "rules_hit cs pss rel \<longleftrightarrow>
     (\<exists>c\<in>set rel. c \<in> set cs) \<or> (\<exists>ps\<in>set pss. prefix ps rel)"

text \<open>On paths in UTF-8 the comparison of joined strings decides the specification on components: a
  path is ignored when one of its components is a component rule or when it is at or below an
  anchored rule, and never because of a longer name with the same beginning.\<close>

theorem is_ignored_refines_components:
  assumes "rel \<noteq> []" "\<forall>c\<in>set rel. plain_component c \<and> is_utf8 c" "is_utf8 (join_with slash rel)"
    and "\<forall>ps\<in>set pss. ps \<noteq> [] \<and> (\<forall>c\<in>set ps. plain_component c)"
  shows "is_ignored \<lparr>ig_component = cs, ig_prefix = map (join_with slash) pss\<rparr> rel \<longleftrightarrow> rules_hit cs pss rel"
proof -
  have "(join_with slash rel = join_with slash ps \<or>
          prefix (join_with slash ps) (join_with slash rel) \<and>
          length (join_with slash ps) < length (join_with slash rel) \<and>
          join_with slash rel ! length (join_with slash ps) = slash) \<longleftrightarrow> prefix ps rel" if "ps \<in> set pss" for ps
    using that assms(1,2,4) by (intro under_prefix_iff) auto
  then show ?thesis using assms(2,3) by (auto simp: is_ignored_def path_str_def rules_hit_def list_ex_iff)
qed

lemma is_ignored_refines_components_witness:
  "is_ignored \<lparr>ig_component = [''.git''], ig_prefix = map (join_with slash) [[''build'', ''out'']]\<rparr>
     [''build'', ''outer''] \<longleftrightarrow> rules_hit [''.git''] [[''build'', ''out'']] [''build'', ''outer'']"
  by (rule is_ignored_refines_components) (simp_all add: plain_component_def byte_in_def)

text \<open>Where a name below an anchored rule is not UTF-8, the rule does not reach it: the directory is
  ignored and the file in it is not.\<close>

theorem anchored_rule_misses_non_utf8:
  assumes "\<not> is_utf8 (join_with slash rel)" "ig_component ig = [''.git'']" "''.git'' \<notin> set rel"
  shows "\<not> is_ignored ig rel"
  using assms by (auto simp: is_ignored_def path_str_def list_ex_iff)

lemma anchored_rule_misses_non_utf8_witness:
  "is_ignored (ignore_from_config ''build/out'') [''build'', ''out''] \<and>
   \<not> is_ignored (ignore_from_config ''build/out'') [''build'', ''out'', [CHR 0xFF]]"
proof -
  have ig: "ignore_from_config ''build/out'' = \<lparr>ig_component = [''.git''], ig_prefix = [''build/out'']\<rparr>"
    by (simp add: ignore_from_config_def str_lines.simps add_rule_def rule_line_def trim_end_def trim_rev.simps
        white_space_def strip_prefix_def byte_order_mark_def trim_slashes_def)
  have "\<not> is_utf8 (join_with slash [''build'', ''out'', [CHR 0xFF]])"
    by (simp add: utf8_next_def wide_defs is_utf8.simps)
  then have "\<not> is_ignored (ignore_from_config ''build/out'') [''build'', ''out'', [CHR 0xFF]]"
    unfolding ig by (rule anchored_rule_misses_non_utf8) simp_all
  then show ?thesis by (simp add: ig is_ignored_def path_str_def byte_in_def)
qed

text \<open>A rule with a slash at an end only is anchored, one without is not: the two differ below a directory.\<close>

lemma slashes_change_the_rule:
  "is_ignored (ignore_from_config ''build'') [''a'', ''build''] \<and>
   \<not> is_ignored (ignore_from_config ''/build/'') [''a'', ''build'']"
  by (simp add: ignore_from_config_def str_lines.simps add_rule_def rule_line_def trim_end_def trim_rev.simps
      white_space_def strip_prefix_def byte_order_mark_def trim_slashes_def is_ignored_def path_str_def byte_in_def)

end
