(* ===== verification/Lineage.thy ===== *)
theory Lineage
  imports Names
begin

text \<open>
  \<open>crates/hydration-client/src/lineage.rs\<close>: what was last known about the object at each path, kept
  across a save that replaces the file and loses its attributes.  The \<open>BTreeMap\<close> is an association
  list in key order, the maps and sets of a scan are association lists and lists.
\<close>

section \<open>The record\<close>

record lin_record =
  lr_id :: string
  lr_tag :: "string option"

record lineage =
  ln_paths :: "(string \<times> lin_record) list"
  ln_dirty :: bool

definition lineage_default :: lineage where
  "lineage_default = \<lparr>ln_paths = [], ln_dirty = False\<rparr>"

definition lineage_get :: "lineage \<Rightarrow> string \<Rightarrow> lin_record option" where
  "lineage_get l = map_of (ln_paths l)"

section \<open>The file\<close>

definition parse_line :: "string \<Rightarrow> (string \<times> lin_record) option" where
  "parse_line line =
     (if line = [] \<or> hd line = CHR ''#'' then None
      else case split_on tab line of
             path # cloud_id # tags \<Rightarrow>
               if path = [] \<or> cloud_id = [] then None
               else Some (path, \<lparr>lr_id = cloud_id,
                                 lr_tag = (case tags of t # _ \<Rightarrow> if t = [] then None else Some t | [] \<Rightarrow> None)\<rparr>)
           | _ \<Rightarrow> None)"

definition take_line :: "(string \<times> lin_record) list \<Rightarrow> string \<Rightarrow> (string \<times> lin_record) list" where
  "take_line m line = (case parse_line line of Some (p, r) \<Rightarrow> bt_insert p r m | None \<Rightarrow> m)"

text \<open>A file that is missing, unreadable or not UTF-8 is an empty record.\<close>

definition lineage_load :: "string option \<Rightarrow> lineage" where
  "lineage_load raw =
     (case raw of
        None \<Rightarrow> lineage_default
      | Some s \<Rightarrow>
          if is_utf8 s then \<lparr>ln_paths = foldl take_line [] (str_lines s), ln_dirty = False\<rparr>
          else lineage_default)"

definition em_dash :: string where "em_dash = [CHR 0xE2, CHR 0x80, CHR 0x94]"

definition lineage_head :: "string list" where
  "lineage_head =
     [''# What each file's extended attributes said, the last time they were there.'',
      ''# Written by the hydration framework so that a save which replaces a file'',
      ''# '' @ em_dash @ '' git, and most editors '' @ em_dash @ '' does not lose which cloud object the file is,'',
      ''# or which version of it the edit is based on. Not a backup, and not'',
      ''# authoritative: the file's own attributes win whenever it still has them.'',
      ''#'',
      ''# path'' @ tab # ''cloud-id'' @ tab # ''etag'']"

definition lineage_row :: "string \<times> lin_record \<Rightarrow> string" where
  "lineage_row e =
     fst e @ tab # lr_id (snd e) @ tab # (case lr_tag (snd e) of Some t \<Rightarrow> t | None \<Rightarrow> [])"

definition lineage_render :: "lineage \<Rightarrow> string" where
  "lineage_render l = concat (map (\<lambda>s. s @ [newline]) (lineage_head @ map lineage_row (ln_paths l)))"

text \<open>
  The two names the record is written under, and the faults of the calls to come: a write may stop
  after some bytes, and a rename happens or does not.
\<close>

datatype disk_fault = Fine | Torn nat io_error

record lineage_disk =
  ld_target :: "string option"
  ld_tmp :: "string option"
  ld_plan :: "disk_fault list"

definition next_fault :: "lineage_disk \<Rightarrow> disk_fault \<times> lineage_disk" where
  "next_fault d = (case ld_plan d of [] \<Rightarrow> (Fine, d) | x # xs \<Rightarrow> (x, d\<lparr>ld_plan := xs\<rparr>))"

definition write_tmp :: "string \<Rightarrow> lineage_disk \<Rightarrow> (io_error + unit) \<times> lineage_disk" where
  "write_tmp out d =
     (case next_fault d of
        (Fine, d1) \<Rightarrow> (Inr (), d1\<lparr>ld_tmp := Some out\<rparr>)
      | (Torn n e, d1) \<Rightarrow> (Inl e, d1\<lparr>ld_tmp := Some (take n out)\<rparr>))"

definition rename_tmp :: "lineage_disk \<Rightarrow> (io_error + unit) \<times> lineage_disk" where
  "rename_tmp d =
     (case next_fault d of
        (Fine, d1) \<Rightarrow> (Inr (), d1\<lparr>ld_target := ld_tmp d1, ld_tmp := None\<rparr>)
      | (Torn n e, d1) \<Rightarrow> (Inl e, d1))"

definition lineage_write :: "lineage \<Rightarrow> lineage_disk \<Rightarrow> (io_error + unit) \<times> lineage \<times> lineage_disk" where
  "lineage_write l d =
     (if \<not> ln_dirty l then (Inr (), l, d)
      else case write_tmp (lineage_render l) d of
             (Inl e, d1) \<Rightarrow> (Inl e, l, d1)
           | (Inr _, d1) \<Rightarrow>
               (case rename_tmp d1 of
                  (Inl e, d2) \<Rightarrow> (Inl e, l, d2)
                | (Inr _, d2) \<Rightarrow> (Inr (), l\<lparr>ln_dirty := False\<rparr>, d2)))"

text \<open>A path below the root as the record keys it.\<close>

definition relative :: "path \<Rightarrow> path \<Rightarrow> string option" where
  "relative root p = Option.bind (path_below root p) path_str"

section \<open>Taking in a scan\<close>

definition survives :: "(string \<times> lin_record) list \<Rightarrow> string list \<Rightarrow> string \<times> lin_record \<Rightarrow> bool" where
  "survives seen live e \<longleftrightarrow>
     fst e \<notin> set (map fst seen) \<and> lr_id (snd e) \<notin> set (map (lr_id \<circ> snd) seen) \<and> fst e \<in> set live"

definition absorbed :: "(string \<times> lin_record) list \<Rightarrow> string list \<Rightarrow> lineage \<Rightarrow> (string \<times> lin_record) list" where
  "absorbed seen live l =
     foldl (\<lambda>m e. bt_insert (fst e) (snd e) m) (filter (survives seen live) (ln_paths l)) seen"

definition absorb :: "(string \<times> lin_record) list \<Rightarrow> string list \<Rightarrow> lineage \<Rightarrow> lineage" where
  "absorb seen live l =
     (let nxt = absorbed seen live l
      in if nxt \<noteq> ln_paths l then \<lparr>ln_paths = nxt, ln_dirty = True\<rparr> else l)"

section \<open>What a scan leaves\<close>

definition lineage_ok :: "lineage \<Rightarrow> bool" where
  "lineage_ok l \<longleftrightarrow> bt_ok (ln_paths l)"

lemma map_of_fold_insert:
  "distinct (map fst es) \<Longrightarrow>
     map_of (foldl (\<lambda>m e. bt_insert (fst e) (snd e) m) m es) k =
     (case map_of es k of Some v \<Rightarrow> Some v | None \<Rightarrow> map_of m k)"
  by (induction es arbitrary: m) (auto split: option.splits simp: map_of_eq_None_iff image_iff)

lemma bt_ok_fold_insert: "bt_ok m \<Longrightarrow> bt_ok (foldl (\<lambda>m e. bt_insert (fst e) (snd e) m) m es)"
  by (induction es arbitrary: m) simp_all

lemma ln_paths_absorb: "ln_paths (absorb seen live l) = absorbed seen live l"
  by (simp add: absorb_def Let_def)

lemma absorb_lookup:
  assumes "lineage_ok l" "distinct (map fst seen)"
  shows "lineage_get (absorb seen live l) p =
    (case map_of seen p of
       Some r \<Rightarrow> Some r
     | None \<Rightarrow> (case lineage_get l p of
                  Some r \<Rightarrow> if lr_id r \<notin> set (map (lr_id \<circ> snd) seen) \<and> p \<in> set live then Some r else None
                | None \<Rightarrow> None))"
proof (cases "map_of seen p")
  case None
  then have "p \<notin> set (map fst seen)" by (simp add: map_of_eq_None_iff)
  then show ?thesis using assms None
    by (simp add: lineage_get_def ln_paths_absorb absorbed_def map_of_fold_insert map_of_filter_keys bt_ok_distinct
        lineage_ok_def survives_def split: option.split)
qed (use assms in \<open>simp add: lineage_get_def ln_paths_absorb absorbed_def map_of_fold_insert\<close>)

lemma absorb_lookup_cases:
  assumes "lineage_ok l" "distinct (map fst seen)" "lineage_get (absorb seen live l) p = Some r"
  obtains (fresh) "map_of seen p = Some r" "lr_id r \<in> set (map (lr_id \<circ> snd) seen)"
    | (kept) "lineage_get l p = Some r" "lr_id r \<notin> set (map (lr_id \<circ> snd) seen)"
proof (cases "map_of seen p")
  case None
  then show ?thesis using assms(3) kept by (simp add: absorb_lookup [OF assms(1,2)] split: option.splits if_splits)
next
  case (Some s)
  then have "s = r" using assms(3) by (simp add: absorb_lookup [OF assms(1,2)])
  moreover have "lr_id s \<in> set (map (lr_id \<circ> snd) seen)" using map_of_SomeD [OF Some] by force
  ultimately show ?thesis using Some fresh by blast
qed

text \<open>C36: The three rules of a scan, whatever order its maps are walked in: what it read off the files is
  recorded; an older record is kept exactly when its path is still there, was not read afresh, and
  no file read claims its object; and the result is in key order with one record a path.\<close>

theorem absorb_follows_rules:
  assumes "lineage_ok l" "distinct (map fst seen)"
  shows "lineage_ok (absorb seen live l) \<and>
    (\<forall>p. lineage_get (absorb seen live l) p =
      (case map_of seen p of
         Some r \<Rightarrow> Some r
       | None \<Rightarrow> (case lineage_get l p of
                    Some r \<Rightarrow> if lr_id r \<notin> set (map (lr_id \<circ> snd) seen) \<and> p \<in> set live then Some r else None
                  | None \<Rightarrow> None)))"
  using assms absorb_lookup [OF assms]
  by (auto simp: lineage_ok_def ln_paths_absorb absorbed_def intro!: bt_ok_fold_insert bt_ok_filter)

definition rec_a :: lin_record where "rec_a = \<lparr>lr_id = ''A'', lr_tag = Some ''ct:1''\<rparr>"

definition lin_a :: lineage where "lin_a = \<lparr>ln_paths = [(''a.txt'', rec_a)], ln_dirty = False\<rparr>"

lemma absorb_follows_rules_witness:
  "lineage_get (absorb [] [''a.txt''] lin_a) ''a.txt'' = Some rec_a \<and>
   lineage_get (absorb [(''b.txt'', rec_a)] [''a.txt'', ''b.txt''] lin_a) ''a.txt'' = None"
proof -
  have ok: "lineage_ok lin_a" by (simp add: lineage_ok_def lin_a_def bt_ok_def)
  from absorb_follows_rules [OF ok, of "[]" "[''a.txt'']"]
    absorb_follows_rules [OF ok, of "[(''b.txt'', rec_a)]" "[''a.txt'', ''b.txt'']"]
  show ?thesis by (simp add: lineage_get_def lin_a_def)
qed

section \<open>An object is at one path\<close>

definition one_path :: "lineage \<Rightarrow> bool" where
  "one_path l \<longleftrightarrow>
     (\<forall>p q r s. lineage_get l p = Some r \<and> lineage_get l q = Some s \<and> lr_id r = lr_id s \<longrightarrow> p = q)"

text \<open>Taking in a scan keeps the invariant that makes a path safe as a key: no object is recorded at
  two paths, provided no two of the files read carry the same object.\<close>

theorem absorb_keeps_one_path:
  assumes "lineage_ok l" "one_path l" "distinct (map fst seen)" "distinct (map (lr_id \<circ> snd) seen)"
  shows "one_path (absorb seen live l)"
proof -
  have inj: "p = q" if "map_of seen p = Some r" "map_of seen q = Some s" "lr_id r = lr_id s" for p q r s
  proof -
    have "inj_on (lr_id \<circ> snd) (set seen)" using assms(4) by (simp add: distinct_map)
    moreover have "(p, r) \<in> set seen" "(q, s) \<in> set seen" using that by (auto dest: map_of_SomeD)
    ultimately have "(p, r) = (q, s)" using that(3) by (intro inj_onD [of "lr_id \<circ> snd"]) auto
    then show ?thesis by simp
  qed
  show ?thesis
    unfolding one_path_def
  proof (intro allI impI, elim conjE)
    fix p q r s
    assume p: "lineage_get (absorb seen live l) p = Some r" and q: "lineage_get (absorb seen live l) q = Some s"
      and e: "lr_id r = lr_id s"
    show "p = q"
    proof (rule absorb_lookup_cases [OF assms(1,3) p]; rule absorb_lookup_cases [OF assms(1,3) q])
      assume "map_of seen p = Some r" "map_of seen q = Some s"
      then show "p = q" using inj e by blast
    next
      assume "lineage_get l p = Some r" "lineage_get l q = Some s"
      then show "p = q" using assms(2) e unfolding one_path_def by blast
    qed (use e in simp_all)
  qed
qed

lemma absorb_keeps_one_path_witness: "one_path (absorb [(''b.txt'', rec_a)] [''a.txt'', ''b.txt''] lin_a)"
  by (rule absorb_keeps_one_path)
     (auto simp: lineage_ok_def bt_ok_def lin_a_def one_path_def lineage_get_def split: if_splits)

text \<open>Where two files do carry the same object (a copy that kept the attributes), both are recorded.\<close>

lemma copied_attributes_break_one_path:
  "\<not> one_path (absorb [(''a.txt'', rec_a), (''copy.txt'', rec_a)] [''a.txt'', ''copy.txt''] lin_a)"
proof -
  let ?l = "absorb [(''a.txt'', rec_a), (''copy.txt'', rec_a)] [''a.txt'', ''copy.txt''] lin_a"
  have "lineage_get ?l ''a.txt'' = Some rec_a" "lineage_get ?l ''copy.txt'' = Some rec_a"
    by (simp_all add: absorb_lookup lineage_ok_def bt_ok_def lin_a_def)
  moreover have "''a.txt'' \<noteq> ''copy.txt''" by simp
  ultimately show ?thesis unfolding one_path_def by blast
qed

section \<open>Writing and reading back\<close>

definition field_ok :: "string \<Rightarrow> bool" where
  "field_ok s \<longleftrightarrow> s \<noteq> [] \<and> tab \<notin> set s \<and> newline \<notin> set s \<and> is_utf8 s"

definition record_ok :: "string \<times> lin_record \<Rightarrow> bool" where
  "record_ok e \<longleftrightarrow> field_ok (fst e) \<and> hd (fst e) \<noteq> CHR ''#'' \<and> field_ok (lr_id (snd e)) \<and>
     (case lr_tag (snd e) of Some t \<Rightarrow> field_ok t \<and> last t \<noteq> return | None \<Rightarrow> True)"

lemma parse_row:
  assumes "record_ok e"
  shows "parse_line (strip_return (lineage_row e)) = Some e" "newline \<notin> set (lineage_row e)" "is_utf8 (lineage_row e)"
proof -
  obtain p r where e: "e = (p, r)" by force
  have f: "field_ok p" "hd p \<noteq> CHR ''#''" "field_ok (lr_id r)"
    "\<And>t. lr_tag r = Some t \<Longrightarrow> field_ok t \<and> last t \<noteq> return"
    using assms by (auto simp: e record_ok_def)
  have s: "strip_return (lineage_row e) = lineage_row e"
    using f by (cases "lr_tag r") (auto simp: strip_return_def lineage_row_def e field_ok_def)
  have h: "lineage_row e \<noteq> []" "hd (lineage_row e) \<noteq> CHR ''#''"
    using f by (auto simp: lineage_row_def e field_ok_def)
  have "split_on tab (lineage_row e) = [p, lr_id r, (case lr_tag r of Some t \<Rightarrow> t | None \<Rightarrow> [])]"
    using f by (cases "lr_tag r") (auto simp: lineage_row_def e field_ok_def split_on_append)
  then show "parse_line (strip_return (lineage_row e)) = Some e"
    using f h s by (cases "lr_tag r") (auto simp: parse_line_def e field_ok_def)
  show "newline \<notin> set (lineage_row e)"
    using f by (cases "lr_tag r") (auto simp: lineage_row_def e field_ok_def)
  show "is_utf8 (lineage_row e)"
    using f by (cases "lr_tag r") (auto simp: lineage_row_def e field_ok_def is_utf8_append byte_in_def)
qed

lemma lines_of_list:
  "\<forall>s\<in>set ss. newline \<notin> set s \<Longrightarrow> str_lines (concat (map (\<lambda>s. s @ [newline]) ss)) = map strip_return ss"
  by (induction ss) (simp_all add: str_lines_line)

lemma utf8_of_list: "\<forall>s\<in>set ss. is_utf8 s \<Longrightarrow> is_utf8 (concat (map (\<lambda>s. s @ [newline]) ss))"
  by (induction ss) (simp_all add: is_utf8_append byte_in_def)

lemma head_lines:
  "\<forall>s\<in>set lineage_head. newline \<notin> set s \<and> parse_line (strip_return s) = None"
  by (simp add: lineage_head_def em_dash_def parse_line_def strip_return_def)

lemma head_utf8: "\<forall>s\<in>set lineage_head. is_utf8 s"
  unfolding lineage_head_def by (simp add: em_dash_def utf8_next_def wide_defs is_utf8.simps)

lemma fold_no_lines: "\<forall>s\<in>set ss. parse_line s = None \<Longrightarrow> foldl take_line m ss = m"
  by (induction ss) (simp_all add: take_line_def)

lemma fold_rows:
  "\<forall>e\<in>set es. record_ok e \<Longrightarrow>
     foldl take_line m (map (\<lambda>e. strip_return (lineage_row e)) es) =
     foldl (\<lambda>m e. bt_insert (fst e) (snd e) m) m es"
  by (induction es arbitrary: m) (simp_all add: take_line_def parse_row split: prod.split)

lemma load_render:
  assumes "\<forall>e\<in>set (ln_paths l). record_ok e"
  shows "lineage_load (Some (lineage_render l)) =
    \<lparr>ln_paths = foldl (\<lambda>m e. bt_insert (fst e) (snd e) m) [] (ln_paths l), ln_dirty = False\<rparr>"
proof -
  let ?ss = "lineage_head @ map lineage_row (ln_paths l)"
  have "str_lines (lineage_render l) = map strip_return ?ss"
    unfolding lineage_render_def by (rule lines_of_list) (use head_lines assms parse_row in auto)
  moreover have "is_utf8 (lineage_render l)"
    unfolding lineage_render_def by (rule utf8_of_list) (use head_utf8 assms parse_row in auto)
  moreover have "foldl take_line [] (map strip_return lineage_head) = []"
    by (rule fold_no_lines) (use head_lines in auto)
  ultimately show ?thesis
    using fold_rows [OF assms, of "[]"] by (simp add: lineage_load_def comp_def)
qed

text \<open>C37: A record whose fields are non-empty and free of tabs and newlines, whose paths do not start with
  a comment sign and whose tags do not end in a carriage return, is read back as it was written.\<close>

theorem lineage_round_trip:
  assumes "lineage_ok l" "\<forall>e\<in>set (ln_paths l). record_ok e"
  shows "lineage_load (Some (lineage_render l)) = l\<lparr>ln_dirty := False\<rparr>"
proof -
  let ?m = "foldl (\<lambda>m e. bt_insert (fst e) (snd e) m) [] (ln_paths l)"
  have d: "distinct (map fst (ln_paths l))" using assms(1) by (simp add: lineage_ok_def bt_ok_distinct)
  have "map_of ?m = map_of (ln_paths l)"
    by (rule ext) (simp add: map_of_fold_insert [OF d] split: option.split)
  moreover have "bt_ok ?m" by (simp add: bt_ok_fold_insert)
  ultimately have "?m = ln_paths l" using assms(1) bt_ok_ext by (simp add: lineage_ok_def)
  then show ?thesis using load_render [OF assms(2)] by simp
qed

lemma lineage_round_trip_witness:
  "lineage_load (Some (lineage_render (lin_a\<lparr>ln_dirty := True\<rparr>))) = lin_a"
  using lineage_round_trip [of "lin_a\<lparr>ln_dirty := True\<rparr>"]
  by (simp add: lineage_ok_def bt_ok_def lin_a_def rec_a_def record_ok_def field_ok_def byte_in_def)

text \<open>The fields are not escaped.  A file whose name holds a tab is read back as a record of another
  path: the part before the tab, with the rest of the name for its object and the object for its tag.\<close>

theorem tab_in_a_name_records_another_path:
  assumes "field_ok a" "hd a \<noteq> CHR ''#''" "field_ok b" "field_ok i"
  shows "lineage_get (lineage_load (Some (lineage_render
           \<lparr>ln_paths = [(a @ tab # b, \<lparr>lr_id = i, lr_tag = None\<rparr>)], ln_dirty = True\<rparr>))) a =
         Some \<lparr>lr_id = b, lr_tag = Some i\<rparr>"
proof -
  let ?l = "\<lparr>ln_paths = [(a @ tab # b, \<lparr>lr_id = i, lr_tag = None\<rparr>)], ln_dirty = True\<rparr>"
  let ?row = "a @ tab # b @ tab # i @ [tab]"
  have row: "lineage_row (a @ tab # b, \<lparr>lr_id = i, lr_tag = None\<rparr>) = ?row" by (simp add: lineage_row_def)
  have "str_lines (lineage_render ?l) = map strip_return (lineage_head @ [?row])"
    unfolding lineage_render_def using row assms head_lines
    by (subst lines_of_list) (auto simp: field_ok_def)
  moreover have "is_utf8 (lineage_render ?l)"
    unfolding lineage_render_def using row assms head_utf8
    by (intro utf8_of_list) (auto simp: field_ok_def is_utf8_append byte_in_def)
  moreover have "foldl take_line [] (map strip_return lineage_head) = []"
    by (rule fold_no_lines) (use head_lines in auto)
  moreover have "parse_line (strip_return ?row) = Some (a, \<lparr>lr_id = b, lr_tag = Some i\<rparr>)"
    using assms by (auto simp: parse_line_def strip_return_def field_ok_def split_on_append)
  ultimately show ?thesis by (simp add: lineage_load_def take_line_def lineage_get_def)
qed

lemma tab_in_a_name_records_another_path_witness:
  "lineage_get (lineage_load (Some (lineage_render
     \<lparr>ln_paths = [(''a'' @ tab # ''b'', \<lparr>lr_id = ''X'', lr_tag = None\<rparr>)], ln_dirty = True\<rparr>))) ''a'' =
   Some \<lparr>lr_id = ''b'', lr_tag = Some ''X''\<rparr>"
  by (rule tab_in_a_name_records_another_path) (simp_all add: field_ok_def byte_in_def)

text \<open>Writing is atomic: whatever fails and wherever, what a reader of the record finds is the
  previous one or the whole new one; only the new one counts as written, and a failure keeps the record
  marked for the next attempt.\<close>

theorem lineage_write_atomic:
  assumes "lineage_write l d = (r, l', d')" "ln_dirty l"
  shows "(case r of
            Inr _ \<Rightarrow> ld_target d' = Some (lineage_render l) \<and> \<not> ln_dirty l'
          | Inl e \<Rightarrow> ld_target d' = ld_target d \<and> l' = l) \<and> ln_paths l' = ln_paths l"
  using assms
  by (auto simp: lineage_write_def write_tmp_def rename_tmp_def next_fault_def
      split: prod.splits sum.splits list.splits disk_fault.splits)

lemma lineage_write_atomic_witness:
  "ld_target (snd (snd (lineage_write (lin_a\<lparr>ln_dirty := True\<rparr>)
     \<lparr>ld_target = Some ''old'', ld_tmp = None, ld_plan = [Torn 3 (Os EIO)]\<rparr>))) = Some ''old''"
proof -
  let ?d = "\<lparr>ld_target = Some ''old'', ld_tmp = None, ld_plan = [Torn 3 (Os EIO)]\<rparr>"
  obtain r l' d' where h: "lineage_write (lin_a\<lparr>ln_dirty := True\<rparr>) ?d = (r, l', d')" by (metis prod.exhaust)
  have "r = Inl (Os EIO)" using h by (auto simp: lineage_write_def write_tmp_def next_fault_def)
  then show ?thesis using lineage_write_atomic [OF h] h by simp
qed

end
