(* ===== verification/Client_Store.thy ===== *)
theory Client_Store
  imports Lineage Attributes "HOL-Library.AList" "HOL-Library.Multiset"
begin

text \<open>
  \<open>crates/hydration-client/src/store.rs\<close>: the client's index from file identities to paths, rebuilt by
  walking the sync directory, and the attributes it writes.  The directory is an association list of
  paths and nodes; looking at a file never fails but for its absence, and every call that changes a
  file takes its outcome from \<open>cl_plan\<close> (all succeed once it is used up).  The standard library's
  hash function is an argument.
\<close>

section \<open>The sync directory\<close>

record cfile =
  cf_inode :: inode
  cf_cloud :: "string option"
  cf_tag :: "string option"
  cf_pinned :: bool
  cf_mode :: u32

datatype node = Folder | Regular cfile | Other

type_synonym tree = "(path \<times> node) list"

record client =
  cl_tree :: tree
  cl_unreadable :: "path list"
  cl_ignore_file :: "string option"
  cl_lineage :: lineage_disk
  cl_plan :: "int option list"

definition file_at :: "tree \<Rightarrow> path \<Rightarrow> cfile option" where
  "file_at t p = (case map_of t p of Some (Regular f) \<Rightarrow> Some f | _ \<Rightarrow> None)"

definition with_file :: "path \<Rightarrow> (cfile \<Rightarrow> cfile) \<Rightarrow> tree \<Rightarrow> tree" where
  "with_file p g = AList.map_entry p (\<lambda>n. case n of Regular f \<Rightarrow> Regular (g f) | _ \<Rightarrow> n)"

definition read_dir :: "client \<Rightarrow> path \<Rightarrow> io_error + (path \<times> node) list" where
  "read_dir w d =
     (if d \<in> set (cl_unreadable w) then Inl (Os EACCES)
      else Inr (filter (\<lambda>(p, _). p \<noteq> [] \<and> butlast p = d) (cl_tree w)))"

definition user_call :: "(client \<Rightarrow> (io_error + 'a) \<times> client) \<Rightarrow> client \<Rightarrow> (io_error + 'a) \<times> client" where
  "user_call act w =
     (case cl_plan w of
        Some e # ps \<Rightarrow> (Inl (Os e), w\<lparr>cl_plan := ps\<rparr>)
      | ps \<Rightarrow> act (w\<lparr>cl_plan := tl ps\<rparr>))"

definition OWNER_WRITE :: u32 where "OWNER_WRITE = 0x80"

text \<open>\<open>setxattr\<close>: the kernel wants write permission on the inode.\<close>

definition set_attr :: "path \<Rightarrow> (cfile \<Rightarrow> cfile) \<Rightarrow> client \<Rightarrow> (io_error + unit) \<times> client" where
  "set_attr p g =
     user_call (\<lambda>w. case file_at (cl_tree w) p of
                      None \<Rightarrow> (Inl (Os ENOENT), w)
                    | Some f \<Rightarrow>
                        if and (cf_mode f) OWNER_WRITE = 0 then (Inl (Os EACCES), w)
                        else (Inr (), w\<lparr>cl_tree := with_file p g (cl_tree w)\<rparr>))"

definition stat_mode :: "path \<Rightarrow> client \<Rightarrow> (io_error + u32) \<times> client" where
  "stat_mode p =
     user_call (\<lambda>w. case file_at (cl_tree w) p of
                      None \<Rightarrow> (Inl (Os ENOENT), w) | Some f \<Rightarrow> (Inr (cf_mode f), w))"

definition set_mode :: "path \<Rightarrow> u32 \<Rightarrow> client \<Rightarrow> (io_error + unit) \<times> client" where
  "set_mode p m =
     user_call (\<lambda>w. case file_at (cl_tree w) p of
                      None \<Rightarrow> (Inl (Os ENOENT), w)
                    | Some f \<Rightarrow> (Inr (), w\<lparr>cl_tree := with_file p (\<lambda>f. f\<lparr>cf_mode := m\<rparr>) (cl_tree w)\<rparr>))"

section \<open>Writing attributes of read-only files\<close>

definition with_temporarily_writable ::
  "path \<Rightarrow> (client \<Rightarrow> (io_error + unit) \<times> client) \<Rightarrow> client \<Rightarrow> (io_error + unit) \<times> client" where
  "with_temporarily_writable p act w =
     (case act w of
        (Inr u, w1) \<Rightarrow> (Inr u, w1)
      | (Inl e, w1) \<Rightarrow>
          if raw_os_error e \<noteq> Some EACCES then (Inl e, w1)
          else (case stat_mode p w1 of
                  (Inl e2, w2) \<Rightarrow> (Inl e2, w2)
                | (Inr mode, w2) \<Rightarrow>
                    (case set_mode p (or mode OWNER_WRITE) w2 of
                       (Inl e3, w3) \<Rightarrow> (Inl e3, w3)
                     | (Inr _, w3) \<Rightarrow>
                         (case act w3 of (out, w4) \<Rightarrow>
                          case set_mode p mode w4 of (restored, w5) \<Rightarrow>
                            (case out of Inl e4 \<Rightarrow> Inl e4 | Inr _ \<Rightarrow> restored, w5)))))"

definition set_cloud :: "path \<Rightarrow> string \<Rightarrow> client \<Rightarrow> (io_error + unit) \<times> client" where
  "set_cloud p i = with_temporarily_writable p (set_attr p (\<lambda>f. f\<lparr>cf_cloud := Some i\<rparr>))"

definition set_tag :: "path \<Rightarrow> string \<Rightarrow> client \<Rightarrow> (io_error + unit) \<times> client" where
  "set_tag p t = with_temporarily_writable p (set_attr p (\<lambda>f. f\<lparr>cf_tag := Some t\<rparr>))"

definition adopt_cloud_id :: "path \<Rightarrow> string \<Rightarrow> string option \<Rightarrow> client \<Rightarrow> (io_error + unit) \<times> client" where
  "adopt_cloud_id p i tag w =
     (case set_cloud p i w of
        (Inl e, w1) \<Rightarrow> (Inl e, w1)
      | (Inr _, w1) \<Rightarrow> (case tag of Some t \<Rightarrow> set_tag p t w1 | None \<Rightarrow> (Inr (), w1)))"

definition set_pinned :: "path \<Rightarrow> client \<Rightarrow> (io_error + unit) \<times> client" where
  "set_pinned p = with_temporarily_writable p (set_attr p (\<lambda>f. f\<lparr>cf_pinned := True\<rparr>))"

definition clear_pinned :: "path \<Rightarrow> client \<Rightarrow> (io_error + unit) \<times> client" where
  "clear_pinned p = with_temporarily_writable p (set_attr p (\<lambda>f. f\<lparr>cf_pinned := False\<rparr>))"

text \<open>\<open>stamp::write_as\<close> does not change the mode of the file.\<close>

definition set_stamp_as :: "path \<Rightarrow> inode \<Rightarrow> client \<Rightarrow> (io_error + unit) \<times> client" where
  "set_stamp_as p md =
     set_attr p (\<lambda>f. f\<lparr>cf_inode := (cf_inode f)\<lparr>f_stamp := Some (stamp_of md)\<rparr>\<rparr>)"

section \<open>The index\<close>

record entry =
  en_path :: path
  en_cloud :: "string option"
  en_etag :: "string option"
  en_size :: u64

record store =
  st_index :: "(file_id \<times> path) list"
  st_root :: "path option"
  st_lineage :: "lineage option"
  st_fingerprint :: u64
  st_lineage_writes :: bool
  st_ignore :: ignore_set

definition store_new :: store where
  "store_new =
     \<lparr>st_index = [], st_root = None, st_lineage = None, st_fingerprint = 0, st_lineage_writes = False,
      st_ignore = ignore_default\<rparr>"

definition remembering :: "store \<Rightarrow> store" where
  "remembering st = st\<lparr>st_lineage := Some lineage_default, st_lineage_writes := True\<rparr>"

definition consulting :: "store \<Rightarrow> store" where
  "consulting st = st\<lparr>st_lineage := Some lineage_default, st_lineage_writes := False\<rparr>"

definition load_ignore :: "client \<Rightarrow> ignore_set" where
  "load_ignore w =
     ignore_from_config (case cl_ignore_file w of Some s \<Rightarrow> if is_utf8 s then s else [] | None \<Rightarrow> [])"

definition path_is_ignored :: "store \<Rightarrow> path \<Rightarrow> bool" where
  "path_is_ignored st p =
     (case st_root st of
        None \<Rightarrow> False
      | Some root \<Rightarrow> (case path_below root p of Some rel \<Rightarrow> is_ignored (st_ignore st) rel | None \<Rightarrow> False))"

text \<open>An attribute that is not UTF-8 is read as absent.\<close>

definition attr_string :: "string option \<Rightarrow> string option" where
  "attr_string v = (case v of Some s \<Rightarrow> if is_utf8 s then Some s else None | None \<Rightarrow> None)"

definition recorded_for :: "store \<Rightarrow> path \<Rightarrow> lin_record option" where
  "recorded_for st p =
     (case st_root st of
        None \<Rightarrow> None
      | Some root \<Rightarrow>
          (case relative root p of
             None \<Rightarrow> None
           | Some rel \<Rightarrow> (case st_lineage st of None \<Rightarrow> None | Some l \<Rightarrow> lineage_get l rel)))"

definition lookup :: "store \<Rightarrow> client \<Rightarrow> file_id \<Rightarrow> entry option" where
  "lookup st w f =
     (case map_of (st_index st) f of
        None \<Rightarrow> None
      | Some p \<Rightarrow>
          (case file_at (cl_tree w) p of
             None \<Rightarrow> None
           | Some c \<Rightarrow>
               if f_id (cf_inode c) \<noteq> f then None
               else let cloud = attr_string (cf_cloud c); etag = attr_string (cf_tag c)
                    in case (cloud, recorded_for st p) of
                         (None, Some r) \<Rightarrow>
                           Some \<lparr>en_path = p, en_cloud = Some (lr_id r), en_etag = lr_tag r, en_size = f_size (cf_inode c)\<rparr>
                       | _ \<Rightarrow> Some \<lparr>en_path = p, en_cloud = cloud, en_etag = etag, en_size = f_size (cf_inode c)\<rparr>))"

definition by_cloud_id :: "store \<Rightarrow> client \<Rightarrow> (string \<times> entry) list" where
  "by_cloud_id st w =
     foldl (\<lambda>m (f, _). case lookup st w f of
              Some e \<Rightarrow> (case en_cloud e of Some c \<Rightarrow> AList.update c e m | None \<Rightarrow> m)
            | None \<Rightarrow> m) [] (st_index st)"

definition remember_path :: "file_id \<Rightarrow> path \<Rightarrow> store \<Rightarrow> store" where
  "remember_path f p st = st\<lparr>st_index := AList.update f p (st_index st)\<rparr>"

definition forget_path :: "file_id \<Rightarrow> store \<Rightarrow> store" where
  "forget_path f st = st\<lparr>st_index := AList.delete f (st_index st)\<rparr>"

section \<open>The walk\<close>

type_synonym facts = "path \<times> u64 \<times> string option \<times> string option"

record walk =
  wk_index :: "(file_id \<times> path) list"
  wk_print :: u64
  wk_seen :: "(string \<times> lin_record) list"
  wk_live :: "string list"
  wk_found :: nat

definition walk_new :: walk where
  "walk_new = \<lparr>wk_index = [], wk_print = 0, wk_seen = [], wk_live = [], wk_found = 0\<rparr>"

text \<open>What a file with attributes says of itself, when it is no placeholder.\<close>

definition note_lineage :: "path \<Rightarrow> path \<Rightarrow> cfile \<Rightarrow> walk \<Rightarrow> walk" where
  "note_lineage root p c wk =
     (case relative root p of
        None \<Rightarrow> wk
      | Some rel \<Rightarrow>
          if f_mark (cf_inode c) then wk
          else wk\<lparr>wk_seen := (case attr_string (cf_cloud c) of
                               Some i \<Rightarrow> AList.update rel \<lparr>lr_id = i, lr_tag = attr_string (cf_tag c)\<rparr> (wk_seen wk)
                             | None \<Rightarrow> wk_seen wk),
                   wk_live := List.insert rel (wk_live wk)\<rparr>)"

definition note_file :: "(facts \<Rightarrow> u64) \<Rightarrow> bool \<Rightarrow> ignore_set \<Rightarrow> path \<Rightarrow> path \<Rightarrow> cfile \<Rightarrow> walk \<Rightarrow> walk" where
  "note_file hash lineage ig root p c wk =
     (let ignored = (case path_below root p of Some rel \<Rightarrow> is_ignored ig rel | None \<Rightarrow> False);
          wk1 = (if lineage \<and> \<not> ignored then note_lineage root p c wk else wk);
          wk2 = (if ignored then wk1
                 else wk1\<lparr>wk_print := wk_print wk1 +
                           hash (p, f_size (cf_inode c), attr_string (cf_cloud c), attr_string (cf_tag c))\<rparr>)
      in wk2\<lparr>wk_index := AList.update (f_id (cf_inode c)) p (wk_index wk2), wk_found := Suc (wk_found wk2)\<rparr>)"

definition internal_name :: "path \<Rightarrow> bool" where
  "internal_name p \<longleftrightarrow> p \<noteq> [] \<and> is_utf8 (last p) \<and> is_internal (last p)"

definition visit ::
  "(facts \<Rightarrow> u64) \<Rightarrow> bool \<Rightarrow> ignore_set \<Rightarrow> path \<Rightarrow> path list \<times> walk \<Rightarrow> path \<times> node \<Rightarrow> path list \<times> walk" where
  "visit hash lineage ig root s e =
     (case (s, e) of ((stack, wk), (p, n)) \<Rightarrow>
        case n of
          Folder \<Rightarrow> (p # stack, wk)
        | Other \<Rightarrow> (stack, wk)
        | Regular c \<Rightarrow> if internal_name p then (stack, wk) else (stack, note_file hash lineage ig root p c wk))"

definition depth_left :: "client \<Rightarrow> path \<Rightarrow> nat" where
  "depth_left w d = Suc (Max (insert 0 (length ` fst ` set (cl_tree w)))) - length d"

lemma visit_stack:
  "fst (foldl (visit hash lineage ig root) (stack, wk) es) =
     rev (map fst (filter (\<lambda>(p, n). n = Folder) es)) @ stack"
  by (induction es arbitrary: stack wk) (auto simp: visit_def split: node.splits)

function walk_loop ::
  "(facts \<Rightarrow> u64) \<Rightarrow> bool \<Rightarrow> ignore_set \<Rightarrow> path \<Rightarrow> client \<Rightarrow> path list \<Rightarrow> walk \<Rightarrow> (io_error + unit) \<times> walk" where
  "walk_loop hash lineage ig root w stack wk =
     (case stack of
        [] \<Rightarrow> (Inr (), wk)
      | d # rest \<Rightarrow>
          (case read_dir w d of
             Inl e \<Rightarrow> (Inl e, wk)
           | Inr es \<Rightarrow>
               (case foldl (visit hash lineage ig root) (rest, wk) es of
                  (stack', wk') \<Rightarrow> walk_loop hash lineage ig root w stack' wk')))"
  by pat_completeness auto

termination
proof (relation "inv_image (mult less_than) (\<lambda>(_, _, _, _, w, stack, _). image_mset (depth_left w) (mset stack))",
    goal_cases)
  case (2 hash lineage ig root w stack wk d rest es stack' wk')
  have "stack' = rev (map fst (filter (\<lambda>(p, n). n = Folder) es)) @ rest"
    using 2(3) visit_stack [of hash lineage ig root rest wk es] by (metis fst_conv)
  moreover have "depth_left w p < depth_left w d" if "p \<in> fst ` set es" for p
  proof -
    have p: "p \<in> fst ` set (cl_tree w)" "p \<noteq> []" "butlast p = d"
      using that 2(2) by (auto simp: read_dir_def split: if_splits)
    then have "length p \<le> Max (insert 0 (length ` fst ` set (cl_tree w)))" by (intro Max_ge) auto
    moreover have "length p = Suc (length d)" using p(2,3) by (cases p rule: rev_cases) auto
    ultimately show ?thesis by (simp add: depth_left_def)
  qed
  ultimately show ?case
    using 2(1)
    by (force simp: add.commute intro!: one_step_implies_mult [where J = "{#_#}", simplified])
qed (simp add: wf_mult)

declare walk_loop.simps [simp del]

definition scan :: "(facts \<Rightarrow> u64) \<Rightarrow> path \<Rightarrow> store \<times> client \<Rightarrow> (io_error + nat) \<times> store \<times> client" where
  "scan hash root = (\<lambda>(st, w).
     let st1 = st\<lparr>st_lineage := map_option (\<lambda>_. lineage_load (ld_target (cl_lineage w))) (st_lineage st),
                  st_ignore := load_ignore w, st_root := Some root, st_index := []\<rparr>
     in case walk_loop hash (st_lineage st1 \<noteq> None) (st_ignore st1) root w [root] walk_new of
          (Inl e, wk) \<Rightarrow> (Inl e, st1\<lparr>st_index := wk_index wk\<rparr>, w)
        | (Inr _, wk) \<Rightarrow>
            let st2 = st1\<lparr>st_index := wk_index wk, st_fingerprint := wk_print wk\<rparr>
            in case st_lineage st2 of
                 None \<Rightarrow> (Inr (wk_found wk), st2, w)
               | Some l \<Rightarrow>
                   let l1 = absorb (wk_seen wk) (wk_live wk) l
                   in if st_lineage_writes st2
                      then (case lineage_write l1 (cl_lineage w) of
                              (_, l2, d) \<Rightarrow>
                                (Inr (wk_found wk), st2\<lparr>st_lineage := Some l2\<rparr>, w\<lparr>cl_lineage := d\<rparr>))
                      else (Inr (wk_found wk), st2\<lparr>st_lineage := Some l1\<rparr>, w))"

section \<open>The files after a call\<close>

lemma map_of_with_file:
  "map_of (with_file p g t) q =
     (if q = p then map_option (\<lambda>n. case n of Regular f \<Rightarrow> Regular (g f) | _ \<Rightarrow> n) (map_of t p) else map_of t q)"
  by (auto simp: with_file_def map_of_map_entry split: option.split)

lemma file_at_with_file:
  "file_at (with_file p g t) q = (if q = p then map_option g (file_at t p) else file_at t q)"
  by (auto simp: file_at_def map_of_with_file split: option.splits node.splits)

lemma user_callE:
  assumes "user_call act w = (r, w')"
  obtains (fails) e where "r = Inl (Os e)" "cl_tree w' = cl_tree w" "Some e \<in> set (cl_plan w)"
      "set (cl_plan w') \<subseteq> set (cl_plan w)"
    | (acts) w0 where "act w0 = (r, w')" "cl_tree w0 = cl_tree w" "set (cl_plan w0) \<subseteq> set (cl_plan w)"
proof (cases "cl_plan w")
  case Nil
  then show ?thesis using assms acts [of "w\<lparr>cl_plan := []\<rparr>"] by (simp add: user_call_def)
next
  case (Cons x xs)
  then show ?thesis
    using assms fails acts [of "w\<lparr>cl_plan := xs\<rparr>"]
    by (cases x) (auto simp: user_call_def subset_insertI)
qed

lemma set_attr_cases:
  assumes "set_attr p g w = (r, w')"
  shows "r = Inr () \<and> file_at (cl_tree w) p \<noteq> None \<and> cl_tree w' = with_file p g (cl_tree w) \<or>
         (\<exists>e. r = Inl e) \<and> cl_tree w' = cl_tree w"
  using assms unfolding set_attr_def
  by (elim user_callE) (auto split: option.splits if_splits)

lemma set_mode_cases:
  assumes "set_mode p m w = (r, w')"
  shows "r = Inr () \<and> cl_tree w' = with_file p (\<lambda>f. f\<lparr>cf_mode := m\<rparr>) (cl_tree w) \<or>
         (\<exists>e. r = Inl e) \<and> cl_tree w' = cl_tree w"
  using assms unfolding set_mode_def
  by (elim user_callE) (auto split: option.splits)

lemma stat_mode_cases:
  assumes "stat_mode p w = (r, w')"
  shows "cl_tree w' = cl_tree w \<and> (\<forall>m. r = Inr m \<longrightarrow> (\<exists>f. file_at (cl_tree w) p = Some f \<and> m = cf_mode f))"
  using assms unfolding stat_mode_def
  by (elim user_callE) (auto split: option.splits)

lemma stat_mode_plan: "stat_mode p w = (r, w') \<Longrightarrow> set (cl_plan w') \<subseteq> set (cl_plan w)"
  unfolding stat_mode_def by (elim user_callE) (auto split: option.splits)

lemma set_mode_plan: "set_mode p m w = (r, w') \<Longrightarrow> set (cl_plan w') \<subseteq> set (cl_plan w)"
  unfolding set_mode_def by (elim user_callE) (auto split: option.splits)

lemma set_attr_plan: "set_attr p g w = (r, w') \<Longrightarrow> set (cl_plan w') \<subseteq> set (cl_plan w)"
  unfolding set_attr_def by (elim user_callE) (auto split: option.splits if_splits)

lemma set_mode_fails:
  assumes "set_mode p m w = (Inl e, w')" "file_at (cl_tree w) p = Some f"
  shows "\<exists>n. Some n \<in> set (cl_plan w)"
  using assms unfolding set_mode_def by (elim user_callE) auto

lemma temporarily_writable:
  assumes "with_temporarily_writable p (set_attr p g) w = (r, w')" "file_at (cl_tree w) p = Some f"
    and "\<And>f m. g (f\<lparr>cf_mode := m\<rparr>) = (g f)\<lparr>cf_mode := m\<rparr>"
  shows "(\<forall>q. q \<noteq> p \<longrightarrow> file_at (cl_tree w') q = file_at (cl_tree w) q) \<and>
    (\<exists>f'. file_at (cl_tree w') p = Some f' \<and> (r = Inr () \<longrightarrow> f' = g f) \<and>
       (cf_mode f' = cf_mode f \<or>
        cf_mode f' = or (cf_mode f) OWNER_WRITE \<and> r \<noteq> Inr () \<and> (\<exists>e. Some e \<in> set (cl_plan w))))"
proof -
  have gm: "cf_mode (g f) = cf_mode f" for f using assms(3) [where f = f and m = "cf_mode f"] 
    by (cases f; cases "g f") simp
  obtain r1 w1 where a: "set_attr p g w = (r1, w1)" by fastforce
  show ?thesis
  proof (cases "\<exists>e. r1 = Inl e \<and> raw_os_error e = Some EACCES")
    case False
    then have "r = r1" "w' = w1" using assms(1) a by (auto simp: with_temporarily_writable_def split: sum.splits if_splits)
    then show ?thesis using set_attr_cases [OF a] assms(2) gm by (auto simp: file_at_with_file)
  next
    case True
    then have t1: "cl_tree w1 = cl_tree w" using set_attr_cases [OF a] by auto
    obtain r2 w2 where b: "stat_mode p w1 = (r2, w2)" by fastforce
    have t2: "cl_tree w2 = cl_tree w" using stat_mode_cases [OF b] t1 by simp
    show ?thesis
    proof (cases r2)
      case (Inl e)
      then have "w' = w2" "r = Inl e" using assms(1) a True b by (auto simp: with_temporarily_writable_def)
      then show ?thesis using t2 assms(2) by simp
    next
      case (Inr mode)
      then have mode: "mode = cf_mode f" using stat_mode_cases [OF b] t1 assms(2) by simp
      obtain r3 w3 where c: "set_mode p (or mode OWNER_WRITE) w2 = (r3, w3)" by fastforce
      show ?thesis
      proof (cases r3)
        case (Inl e)
        then have "w' = w3" "r = Inl e" using assms(1) a True b Inr c by (auto simp: with_temporarily_writable_def)
        then show ?thesis using set_mode_cases [OF c] Inl t2 assms(2) by auto
      next
        case (Inr u)
        have t3: "cl_tree w3 = with_file p (\<lambda>f. f\<lparr>cf_mode := or mode OWNER_WRITE\<rparr>) (cl_tree w)"
          using set_mode_cases [OF c] Inr t2 by auto
        obtain out w4 where d: "set_attr p g w3 = (out, w4)" by fastforce
        obtain res w5 where e: "set_mode p mode w4 = (res, w5)" by fastforce
        have r: "w' = w5" "r = (case out of Inl e4 \<Rightarrow> Inl e4 | Inr _ \<Rightarrow> res)"
          using assms(1) a True b \<open>r2 = Inr mode\<close> c Inr d e by (auto simp: with_temporarily_writable_def)
        obtain f4 where f4: "file_at (cl_tree w4) p = Some f4" "cf_mode f4 = or mode OWNER_WRITE"
            "out = Inr () \<longrightarrow> f4\<lparr>cf_mode := mode\<rparr> = g f"
          using set_attr_cases [OF d] t3 assms(2,3) gm [of f] mode by (auto simp: file_at_with_file)
        have o4: "\<forall>q. q \<noteq> p \<longrightarrow> file_at (cl_tree w4) q = file_at (cl_tree w) q"
          using set_attr_cases [OF d] t3 by (auto simp: file_at_with_file)
        have pl: "set (cl_plan w4) \<subseteq> set (cl_plan w)"
          using set_attr_plan [OF a] stat_mode_plan [OF b] set_mode_plan [OF c] set_attr_plan [OF d] by blast
        show ?thesis
        proof (cases res)
          case (Inl e5)
          then have "\<exists>n. Some n \<in> set (cl_plan w)" using set_mode_fails [OF _ f4(1)] e pl by blast
          then show ?thesis
            using set_mode_cases [OF e] Inl r f4 o4 mode by (auto split: sum.splits)
        next
          case (Inr v)
          then show ?thesis
            using set_mode_cases [OF e] r f4 o4 mode
            by (auto simp: file_at_with_file split: sum.splits)
        qed
      qed
    qed
  qed
qed

text \<open>Writing an attribute through a temporary change of mode touches no other file; when it is reported
  as done the file has the attribute and the mode it had; and the mode is another one afterwards only
  if the call that restores it failed, which is reported.\<close>

theorem temporarily_writable_restores:
  assumes "with_temporarily_writable p (set_attr p g) w = (r, w')" "file_at (cl_tree w) p = Some f"
    and "\<And>f m. g (f\<lparr>cf_mode := m\<rparr>) = (g f)\<lparr>cf_mode := m\<rparr>"
  shows "(\<forall>q. q \<noteq> p \<longrightarrow> file_at (cl_tree w') q = file_at (cl_tree w) q) \<and>
    (\<exists>f'. file_at (cl_tree w') p = Some f' \<and> (r = Inr () \<longrightarrow> f' = g f) \<and>
       (cf_mode f' = cf_mode f \<or>
        cf_mode f' = or (cf_mode f) OWNER_WRITE \<and> r \<noteq> Inr () \<and> (\<exists>e. Some e \<in> set (cl_plan w))))"
  using temporarily_writable [OF assms] .

definition plain_file :: "file_id \<Rightarrow> cfile" where
  "plain_file i =
     \<lparr>cf_inode = \<lparr>f_id = i, f_size = 3, f_nlink = 1, f_data = (\<lambda>p. if p < 3 then Some 7 else None), f_mark = False,
                  f_flags = 0, f_mtime = 100, f_mtime_nsec = 0, f_stamp = None, f_hydrated_at = None\<rparr>,
      cf_cloud = None, cf_tag = None, cf_pinned = False, cf_mode = 0x1A4\<rparr>"

definition sample_client :: client where
  "sample_client =
     \<lparr>cl_tree = [([''s'', ''a.txt''], Regular (plain_file (FileId 1 5))),
                 ([''s'', ''pack''], Regular ((plain_file (FileId 1 6))\<lparr>cf_mode := 0x124\<rparr>))],
      cl_unreadable = [], cl_ignore_file = None,
      cl_lineage = \<lparr>ld_target = None, ld_tmp = None, ld_plan = []\<rparr>, cl_plan = []\<rparr>"

lemma temporarily_writable_restores_witness:
  "\<exists>f. file_at (cl_tree (snd (set_cloud [''s'', ''pack''] ''X'' sample_client))) [''s'', ''pack''] = Some f \<and>
       cf_cloud f = Some ''X'' \<and> cf_mode f = 0x124"
proof -
  obtain r w' where h: "with_temporarily_writable [''s'', ''pack'']
      (set_attr [''s'', ''pack''] (\<lambda>f. f\<lparr>cf_cloud := Some ''X''\<rparr>)) sample_client = (r, w')" by fastforce
  have f: "file_at (cl_tree sample_client) [''s'', ''pack''] = Some ((plain_file (FileId 1 6))\<lparr>cf_mode := 0x124\<rparr>)"
    by (simp add: sample_client_def file_at_def)
  have "r = Inr ()"
    using h by (simp add: with_temporarily_writable_def set_attr_def stat_mode_def set_mode_def user_call_def
        sample_client_def file_at_def plain_file_def OWNER_WRITE_def with_file_def)
  moreover have "w' = snd (set_cloud [''s'', ''pack''] ''X'' sample_client)" using h by (simp add: set_cloud_def)
  ultimately show ?thesis using temporarily_writable_restores [OF h f] by simp
qed

lemma set_cloud_done:
  assumes "with_temporarily_writable p (set_attr p (\<lambda>f. f\<lparr>cf_cloud := Some i\<rparr>)) w = (Inr (), w')"
    and "file_at (cl_tree w) p = Some f"
  shows "file_at (cl_tree w') p = Some (f\<lparr>cf_cloud := Some i\<rparr>)"
  using temporarily_writable [OF assms] by auto

text \<open>Adopting the identity an upload returned without a version tag leaves the tag of the file as it
  was: the new identity is then paired with the tag of another object's version.\<close>

theorem adopt_keeps_stale_tag:
  assumes "adopt_cloud_id p i None w = (Inr (), w')" "file_at (cl_tree w) p = Some f"
  shows "\<exists>f'. file_at (cl_tree w') p = Some f' \<and> cf_cloud f' = Some i \<and> cf_tag f' = cf_tag f"
proof -
  have h: "with_temporarily_writable p (set_attr p (\<lambda>f. f\<lparr>cf_cloud := Some i\<rparr>)) w = (Inr (), w')"
    using assms(1) by (auto simp: adopt_cloud_id_def set_cloud_def split: sum.splits prod.splits)
  show ?thesis using set_cloud_done [OF h assms(2)] by simp
qed

lemma adopt_keeps_stale_tag_witness:
  "\<exists>f'. file_at (cl_tree (snd (adopt_cloud_id [''s'', ''a.txt''] ''N'' None
       (snd (set_tag [''s'', ''a.txt''] ''old'' sample_client))))) [''s'', ''a.txt''] = Some f' \<and>
     cf_cloud f' = Some ''N'' \<and> cf_tag f' = Some ''old''"
proof -
  let ?w = "snd (set_tag [''s'', ''a.txt''] ''old'' sample_client)"
  have f: "file_at (cl_tree ?w) [''s'', ''a.txt''] = Some ((plain_file (FileId 1 5))\<lparr>cf_tag := Some ''old''\<rparr>)"
    by (simp add: set_tag_def with_temporarily_writable_def set_attr_def user_call_def
        sample_client_def file_at_def plain_file_def OWNER_WRITE_def with_file_def)
  obtain r w' where h: "adopt_cloud_id [''s'', ''a.txt''] ''N'' None ?w = (r, w')" by fastforce
  have "r = Inr ()" using h
    by (simp add: adopt_cloud_id_def set_cloud_def set_tag_def with_temporarily_writable_def set_attr_def user_call_def
        sample_client_def file_at_def plain_file_def OWNER_WRITE_def with_file_def)
  then show ?thesis using adopt_keeps_stale_tag [of "[''s'', ''a.txt'']" "''N''" ?w w', OF _ f] h by simp
qed

section \<open>What a lookup may answer\<close>

text \<open>The answer names a file that has the identity asked for, now.\<close>

lemma lookup_sound:
  assumes "lookup st w f = Some e"
  shows "map_of (st_index st) f = Some (en_path e) \<and>
    (\<exists>c. file_at (cl_tree w) (en_path e) = Some c \<and> f_id (cf_inode c) = f \<and> en_size e = f_size (cf_inode c))"
  using assms
  by (auto simp: lookup_def Let_def split: option.splits if_splits)

end
