(* ===== verification/Upload_Queue.thy ===== *)
theory Upload_Queue
  imports Span "HOL-Library.AList"
begin

text \<open>
  The queue of \<open>crates/hydration-client/src/upload.rs\<close>: edits waiting out their quiet period, uploads
  that have started, and the failures a file has had in a row.  Times are natural numbers of
  nanoseconds since the clock started, the clock is an argument, the hash maps and the set are
  association lists and a list.
\<close>

section \<open>State and operations\<close>

definition second :: nat where "second = 10 ^ 9"
definition RETRY_DOUBLINGS :: nat where "RETRY_DOUBLINGS = 8"
definition RETRY_CEILING :: nat where "RETRY_CEILING = 900 * second"
definition QUIET_PERIOD :: nat where "QUIET_PERIOD = 10 * second"

text \<open>The longest \<open>Duration\<close>: what \<open>saturating_mul\<close> stops at.\<close>

definition DURATION_MAX :: nat where "DURATION_MAX = 2 ^ 64 * second - 1"

record queue =
  q_waiting :: "(file_id \<times> nat) list"
  q_flight :: "file_id list"
  q_debounce :: nat
  q_failures :: "(file_id \<times> u32) list"

definition queue_new :: "nat \<Rightarrow> queue" where
  "queue_new debounce = \<lparr>q_waiting = [], q_flight = [], q_debounce = debounce, q_failures = []\<rparr>"

definition touch :: "nat \<Rightarrow> file_id \<Rightarrow> queue \<Rightarrow> queue" where
  "touch now f q =
     q\<lparr>q_failures := AList.delete f (q_failures q),
       q_waiting := AList.update f (now + q_debounce q) (q_waiting q)\<rparr>"

definition failure_count :: "file_id \<Rightarrow> queue \<Rightarrow> u32" where
  "failure_count f q = (case map_of (q_failures q) f of Some n \<Rightarrow> n | None \<Rightarrow> 0)"

definition backoff :: "nat \<Rightarrow> u32 \<Rightarrow> nat" where
  "backoff debounce n =
     min (min (debounce * 2 ^ min (unat n) RETRY_DOUBLINGS) DURATION_MAX) RETRY_CEILING"

definition failed :: "nat \<Rightarrow> file_id \<Rightarrow> queue \<Rightarrow> queue" where
  "failed now f q =
     (let n = sat_add (failure_count f q) 1
      in q\<lparr>q_failures := AList.update f n (q_failures q),
           q_waiting := AList.update f (now + backoff (q_debounce q) n) (q_waiting q)\<rparr>)"

definition sent :: "file_id \<Rightarrow> queue \<Rightarrow> queue" where
  "sent f q = q\<lparr>q_failures := AList.delete f (q_failures q)\<rparr>"

definition is_waiting :: "file_id \<Rightarrow> queue \<Rightarrow> bool" where
  "is_waiting f q \<longleftrightarrow> map_of (q_waiting q) f \<noteq> None"

definition cancel :: "file_id \<Rightarrow> queue \<Rightarrow> bool \<times> queue" where
  "cancel f q =
     (is_waiting f q,
      q\<lparr>q_failures := AList.delete f (q_failures q), q_waiting := AList.delete f (q_waiting q)\<rparr>)"

definition flush_now :: "nat \<Rightarrow> queue \<Rightarrow> queue" where
  "flush_now now q = q\<lparr>q_waiting := map (\<lambda>(f, _). (f, now)) (q_waiting q)\<rparr>"

definition due :: "nat \<Rightarrow> queue \<Rightarrow> file_id list" where
  "due now q = sort (map fst (filter (\<lambda>(_, d). d \<le> now) (q_waiting q)))"

definition waiting_set :: "queue \<Rightarrow> file_id set" where
  "waiting_set q = fst ` set (q_waiting q)"

definition sending_set :: "queue \<Rightarrow> file_id set" where
  "sending_set q = set (q_flight q)"

definition waiting_count :: "queue \<Rightarrow> nat" where
  "waiting_count q = length (q_waiting q)"

definition pending :: "queue \<Rightarrow> nat" where
  "pending q = length (q_waiting q) + length (q_flight q)"

definition begin_send :: "file_id \<Rightarrow> queue \<Rightarrow> queue" where
  "begin_send f q = q\<lparr>q_waiting := AList.delete f (q_waiting q), q_flight := List.insert f (q_flight q)\<rparr>"

definition finish_send :: "file_id \<Rightarrow> queue \<Rightarrow> queue" where
  "finish_send f q = q\<lparr>q_flight := removeAll f (q_flight q)\<rparr>"

section \<open>The invariant\<close>

definition queue_ok :: "queue \<Rightarrow> bool" where
  "queue_ok q \<longleftrightarrow>
     distinct (map fst (q_waiting q)) \<and> distinct (q_flight q) \<and> distinct (map fst (q_failures q))"

named_theorems queue_rules \<open>the operations of the queue, one update each\<close>

lemmas queue_ops [queue_rules] =
  touch_def failed_def sent_def cancel_def flush_now_def begin_send_def finish_send_def Let_def

lemma queue_ok_new [simp]: "queue_ok (queue_new d)"
  by (simp add: queue_ok_def queue_new_def)

lemma queue_ok_ops:
  assumes "queue_ok q"
  shows "queue_ok (touch now f q)" "queue_ok (failed now f q)" "queue_ok (sent f q)"
    "queue_ok (snd (cancel f q))" "queue_ok (flush_now now q)" "queue_ok (begin_send f q)"
    "queue_ok (finish_send f q)"
proof -
  have "map fst (map (\<lambda>(f, _). (f, now)) xs) = map fst xs" for xs :: "(file_id \<times> nat) list" by auto
  then show "queue_ok (flush_now now q)"
    using assms by (simp only: queue_ok_def flush_now_def) (simp del: map_map)
qed (use assms in \<open>simp_all add: queue_ok_def queue_rules distinct_update distinct_delete distinct_removeAll\<close>)

text \<open>An edit that is not in the cloud: waiting or in flight.\<close>

definition unsent :: "file_id \<Rightarrow> queue \<Rightarrow> bool" where
  "unsent f q \<longleftrightarrow> f \<in> waiting_set q \<or> f \<in> sending_set q"

lemma is_waiting_iff: "is_waiting f q \<longleftrightarrow> f \<in> waiting_set q"
  by (auto simp: is_waiting_def waiting_set_def map_of_eq_None_iff)

lemma keys_delete: "fst ` set (AList.delete f xs) = fst ` set xs - {f}"
  by (auto simp: set_alist_delete)

lemma waiting_ops [simp]:
  "waiting_set (touch now f q) = insert f (waiting_set q)"
  "waiting_set (failed now f q) = insert f (waiting_set q)"
  "waiting_set (sent f q) = waiting_set q"
  "waiting_set (snd (cancel f q)) = waiting_set q - {f}"
  "waiting_set (flush_now now q) = waiting_set q"
  "waiting_set (begin_send f q) = waiting_set q - {f}"
  "waiting_set (finish_send f q) = waiting_set q"
  by (simp_all add: waiting_set_def queue_rules dom_update keys_delete image_image split_beta)

lemma sending_ops [simp]:
  "sending_set (touch now f q) = sending_set q"
  "sending_set (failed now f q) = sending_set q"
  "sending_set (sent f q) = sending_set q"
  "sending_set (snd (cancel f q)) = sending_set q"
  "sending_set (flush_now now q) = sending_set q"
  "sending_set (begin_send f q) = insert f (sending_set q)"
  "sending_set (finish_send f q) = sending_set q - {f}"
  by (auto simp: sending_set_def queue_rules)

text \<open>What the user is told: the number of files with an edit that waits plus those being sent.\<close>

lemma pending_counts: "queue_ok q \<Longrightarrow> pending q = card (waiting_set q) + card (sending_set q)"
  unfolding queue_ok_def pending_def waiting_set_def sending_set_def
  by (metis distinct_card length_map set_map)

text \<open>The list of due files is exactly the files whose quiet period has expired, each once, in the
  order of their identities: it depends on what is waiting and not on how the map is laid out.\<close>

theorem due_exact:
  assumes "queue_ok q"
  shows "sorted (due now q) \<and> distinct (due now q) \<and>
    set (due now q) = {f. \<exists>d. map_of (q_waiting q) f = Some d \<and> d \<le> now} \<and>
    (\<forall>q'. queue_ok q' \<and> map_of (q_waiting q') = map_of (q_waiting q) \<longrightarrow> due now q' = due now q)"
proof -
  have all: "sorted (due now q) \<and> distinct (due now q) \<and>
      set (due now q) = {f. \<exists>d. map_of (q_waiting q) f = Some d \<and> d \<le> now}" if "queue_ok q" for q
    using that unfolding queue_ok_def due_def
    by (auto simp: distinct_map_filter image_iff split_beta dest: map_of_SomeD intro: map_of_is_SomeI)
  show ?thesis
    using all [OF assms] all by (auto intro: sorted_distinct_set_unique)
qed

definition sample_queue :: queue where
  "sample_queue = touch 0 (FileId 1 7) (touch (3 * second) (FileId 1 2) (queue_new QUIET_PERIOD))"

lemma sample_queue_ok: "queue_ok sample_queue"
  by (simp add: sample_queue_def queue_ok_ops)

lemma due_exact_witness: "set (due (10 * second) sample_queue) = {FileId 1 7}"
  using due_exact [OF sample_queue_ok, of "10 * second"]
  by (auto simp: sample_queue_def touch_def queue_new_def QUIET_PERIOD_def second_def split: if_splits)

section \<open>Backing off\<close>

lemma backoff_le: "backoff d n \<le> RETRY_CEILING"
  by (simp add: backoff_def)

lemma ceiling_in_range: "RETRY_CEILING \<le> DURATION_MAX"
  by (simp add: RETRY_CEILING_def DURATION_MAX_def second_def)

lemma backoff_ceiling_only: "backoff d n = min (d * 2 ^ min (unat n) RETRY_DOUBLINGS) RETRY_CEILING"
  using ceiling_in_range by (simp add: backoff_def min.assoc min_absorb2)

lemma backoff_mono: "m \<le> n \<Longrightarrow> backoff d m \<le> backoff d n"
proof -
  assume "m \<le> n"
  then have "(2::nat) ^ min (unat m) RETRY_DOUBLINGS \<le> 2 ^ min (unat n) RETRY_DOUBLINGS"
    by (intro power_increasing) (simp_all add: word_le_nat_alt min.coboundedI1)
  then show ?thesis unfolding backoff_ceiling_only by (intro min.mono mult_le_mono) simp_all
qed

fun fail_times :: "nat list \<Rightarrow> file_id \<Rightarrow> queue \<Rightarrow> queue" where
  "fail_times [] f q = q"
| "fail_times (t # ts) f q = fail_times ts f (failed t f (begin_send f q))"

lemma failure_count_failed:
  "failure_count f (failed t f (begin_send f q)) = sat_add (failure_count f q) 1"
  by (simp add: failure_count_def queue_rules update_conv)

lemma fail_times_count:
  "failure_count f (fail_times ts f q) = word_of_nat (min (unat (failure_count f q) + length ts) (2 ^ 32 - 1))"
proof (induction ts arbitrary: q)
  case Nil
  have "unat (failure_count f q) < 2 ^ 32" using unsigned_less [of "failure_count f q"] by simp
  then show ?case by (simp add: min_absorb1)
next
  case (Cons t ts)
  have "unat (sat_add (failure_count f q) 1) = min (unat (failure_count f q) + 1) (2 ^ 32 - 1)"
    by (simp add: unat_sat_add)
  moreover have "min (min (a + 1) m + l) m = min (a + Suc l) m" for a l m :: nat by (simp add: min_def)
  ultimately show ?case
    by (simp only: fail_times.simps Cons.IH failure_count_failed list.size) (simp only: add_Suc_right add_0_right)
qed

lemma fail_times_debounce: "q_debounce (fail_times ts f q) = q_debounce q"
  by (induction ts arbitrary: q) (simp_all add: queue_rules)

text \<open>However often an upload fails in a row, the file is waiting again; the wait after the last
  attempt is the quiet period doubled once for each failure in the row, eight times at most, never
  above the ceiling and never counted by anything but the failures since the last edit or success.\<close>

theorem backoff_doubles_to_ceiling:
  assumes "failure_count f q = 0" "length ts < 2 ^ 32 - 1" "q_debounce q = QUIET_PERIOD"
  shows "map_of (q_waiting (fail_times (ts @ [t]) f q)) f =
         Some (t + min (QUIET_PERIOD * 2 ^ min (Suc (length ts)) RETRY_DOUBLINGS) RETRY_CEILING)"
proof -
  have snoc: "fail_times (ts @ [t]) f q = failed t f (begin_send f (fail_times ts f q))"
    by (induction ts arbitrary: q) simp_all
  have "failure_count f (fail_times ts f q) = word_of_nat (length ts)"
    using assms(1,2) by (simp add: fail_times_count)
  moreover have "failure_count f (begin_send f (fail_times ts f q)) = failure_count f (fail_times ts f q)"
    by (simp add: failure_count_def begin_send_def)
  moreover have "unat (sat_add (word_of_nat (length ts) :: u32) 1) = Suc (length ts)"
    using assms(2) by (simp add: unat_sat_add unsigned_of_nat take_bit_nat_eq_self)
  ultimately show ?thesis
    using assms(3) fail_times_debounce [of ts f q] unfolding snoc
    by (simp add: failed_def Let_def update_conv backoff_ceiling_only begin_send_def)
qed

lemma backoff_doubles_to_ceiling_witness:
  "map_of (q_waiting (fail_times [0, 5] (FileId 1 2) sample_queue)) (FileId 1 2) = Some (5 + 40 * second)"
  using backoff_doubles_to_ceiling [of "FileId 1 2" sample_queue "[0]" 5]
  by (simp add: sample_queue_def failure_count_def touch_def queue_new_def QUIET_PERIOD_def RETRY_DOUBLINGS_def
      RETRY_CEILING_def second_def)

section \<open>The driver and the edits that arrive meanwhile\<close>

text \<open>
  The queue as the threads of the daemon work on it under its lock: an edit reported by the helper, and
  the upload driver, which takes the list of what is due, claims the files of that list one after the other
  (one may have been touched again since), and settles each when its upload has ended: \<open>Ended\<close> is any outcome
  but a failure.  The second component of the state is what is left of the driver's list.
\<close>

type_synonym driving = "queue \<times> file_id list"

datatype queue_event = Edited file_id | Looked | Claimed file_id | Ended file_id | Failing file_id | Flushed

inductive queue_step :: "nat \<Rightarrow> queue_event \<Rightarrow> driving \<Rightarrow> driving \<Rightarrow> bool" for now where
  edited: "queue_step now (Edited f) (q, b) (touch now f q, b)"
| looked: "queue_step now Looked (q, []) (q, due now q)"
| claimed: "queue_step now (Claimed f) (q, f # b) (begin_send f q, b)"
| ended: "f \<in> sending_set q \<Longrightarrow> queue_step now (Ended f) (q, b) (sent f (finish_send f q), b)"
| failing: "f \<in> sending_set q \<Longrightarrow> queue_step now (Failing f) (q, b) (failed now f (finish_send f q), b)"
| flushed: "queue_step now Flushed (q, b) (flush_now now q, b)"

inductive_cases queue_stepE: "queue_step now a (q, b) (q', b')"

lemma queue_step_ok: "queue_step now a (q, b) (q', b') \<Longrightarrow> queue_ok q \<Longrightarrow> queue_ok q'"
  by (elim queue_stepE) (simp_all add: queue_ok_ops)

text \<open>C12: No step of any thread drops an edit that has not been sent.  A file that is waiting or in flight
  stays so, through failures as well, until an upload of it ends otherwise with no further edit waiting; and
  an edit that waits keeps waiting until its file is claimed, so that one that arrives while its file is
  being sent is still there when that upload ends.\<close>

theorem unsent_until_delivered:
  assumes "queue_step now a (q, b) (q', b')"
  shows "(unsent f q \<longrightarrow> unsent f q' \<or> a = Ended f \<and> f \<notin> waiting_set q) \<and>
    (f \<in> waiting_set q \<longrightarrow> f \<in> waiting_set q' \<or> a = Claimed f \<and> f \<in> sending_set q')"
  using assms by (elim queue_stepE) (auto simp: unsent_def)

lemma unsent_until_delivered_witness:
  "unsent (FileId 1 7) (failed 9 (FileId 1 7) (finish_send (FileId 1 7) (begin_send (FileId 1 7) sample_queue)))"
proof -
  let ?q = "begin_send (FileId 1 7) sample_queue"
  have s: "FileId 1 7 \<in> sending_set ?q" by simp
  then have "unsent (FileId 1 7) ?q" by (simp add: unsent_def)
  with unsent_until_delivered [OF queue_step.failing [OF s, of 9 "[]"], of "FileId 1 7"] show ?thesis by simp
qed

text \<open>At a shutdown everything that waits is due.\<close>

lemma flushed_all_due: "set (due now (flush_now now q)) = waiting_set q"
  by (force simp: due_def flush_now_def waiting_set_def image_iff)

text \<open>An edit that arrives while its file is being sent does not keep the ordinary quiet period that
  \<open>touch\<close> gave it: where that upload then fails, \<open>failed\<close> counts the failure of the old bytes against
  the new ones and replaces their deadline by that of a backoff.\<close>

theorem failure_overrides_a_fresh_edit:
  assumes "q_debounce q = QUIET_PERIOD"
  shows "map_of (q_waiting (failed t2 f (finish_send f (touch t1 f (begin_send f q))))) f =
           Some (t2 + 2 * QUIET_PERIOD) \<and>
         failure_count f (failed t2 f (finish_send f (touch t1 f (begin_send f q)))) = 1"
proof -
  have "failure_count f (finish_send f (touch t1 f (begin_send f q))) = 0"
    by (simp add: failure_count_def queue_rules delete_conv)
  then show ?thesis using assms
    by (simp add: failed_def Let_def update_conv failure_count_def backoff_ceiling_only sat_add_def
        RETRY_DOUBLINGS_def RETRY_CEILING_def QUIET_PERIOD_def second_def queue_rules)
qed

lemma failure_overrides_a_fresh_edit_witness:
  "map_of (q_waiting (failed 8 (FileId 1 2) (finish_send (FileId 1 2) (touch 7 (FileId 1 2)
     (begin_send (FileId 1 2) sample_queue))))) (FileId 1 2) = Some (8 + 2 * QUIET_PERIOD)"
  using failure_overrides_a_fresh_edit [of sample_queue 8 "FileId 1 2" 7]
  by (simp add: sample_queue_def touch_def queue_new_def)

end
