(* ===== verification/Upload.thy ===== *)
theory Upload
  imports Client_Store Upload_Queue
begin

text \<open>
  \<open>run_upload\<close> of \<open>crates/hydration-client/src/upload.rs\<close>: one upload of one file.  The provider is
  code of the client's own, so it is an argument: its \<open>n\<close>-th upload answers as \<open>sk_upload n\<close> says, and
  while it runs the user may do anything to the sync directory (the first component); its \<open>n\<close>-th
  removal answers as \<open>sk_remove n\<close> says.  Every call is recorded with what it was given.
\<close>

section \<open>The provider\<close>

record uploaded =
  ul_id :: string
  ul_etag :: "string option"

record known =
  kn_id :: string
  kn_tag :: "string option"

datatype sink_call = SentTo path "known option" | Removed string

record sink =
  sk_upload :: "nat \<Rightarrow> (tree \<Rightarrow> tree) \<times> (io_error + uploaded)"
  sk_remove :: "nat \<Rightarrow> io_error + unit"
  sk_calls :: "sink_call list"

datatype upload_outcome = Sent string | DeletedInstead | NothingToDo | Ignored | UploadFailed

text \<open>The upload driver's world: its index, the directory and the provider.\<close>

type_synonym sending = "store \<times> client \<times> sink"

definition sink_upload :: "path \<Rightarrow> known option \<Rightarrow> client \<times> sink \<Rightarrow> (io_error + uploaded) \<times> client \<times> sink" where
  "sink_upload p kn = (\<lambda>(w, s).
     case sk_upload s (length (sk_calls s)) of
       (act, r) \<Rightarrow> (r, w\<lparr>cl_tree := act (cl_tree w)\<rparr>, s\<lparr>sk_calls := sk_calls s @ [SentTo p kn]\<rparr>))"

definition sink_remove :: "string \<Rightarrow> sink \<Rightarrow> (io_error + unit) \<times> sink" where
  "sink_remove i s = (sk_remove s (length (sk_calls s)), s\<lparr>sk_calls := sk_calls s @ [Removed i]\<rparr>)"

section \<open>One upload\<close>

text \<open>What is recorded after the bytes went out: the identity, and the state observed before they did.\<close>

definition settle_sent :: "path \<Rightarrow> uploaded \<Rightarrow> cfile option \<Rightarrow> client \<Rightarrow> upload_outcome \<times> client" where
  "settle_sent p u before w =
     (case adopt_cloud_id p (ul_id u) (ul_etag u) w of
        (Inl e, w1) \<Rightarrow> (UploadFailed, w1)
      | (Inr _, w1) \<Rightarrow>
          (Sent (ul_id u),
           case before of Some c \<Rightarrow> snd (set_stamp_as p (cf_inode c) w1) | None \<Rightarrow> w1))"

text \<open>The file was found under another name: sent again as a new object, and the first one removed.\<close>

definition resend :: "path \<Rightarrow> uploaded \<Rightarrow> client \<times> sink \<Rightarrow> upload_outcome \<times> client \<times> sink" where
  "resend p u = (\<lambda>(w, s).
     let before = file_at (cl_tree w) p
     in case sink_upload p None (w, s) of
          (Inl e, w1, s1) \<Rightarrow> (UploadFailed, w1, s1)
        | (Inr again, w1, s1) \<Rightarrow>
            (case (if ul_id again \<noteq> ul_id u then sink_remove (ul_id u) s1 else (Inr (), s1)) of
               (Inl e, s2) \<Rightarrow> (UploadFailed, w1, s2)
             | (Inr _, s2) \<Rightarrow> (case settle_sent p again before w1 of (r, w2) \<Rightarrow> (r, w2, s2))))"

text \<open>The end of an upload: the file may have been deleted while its bytes went out.\<close>

definition conclude :: "file_id \<Rightarrow> path \<Rightarrow> uploaded \<Rightarrow> cfile option \<Rightarrow> sending \<Rightarrow> upload_outcome \<times> sending" where
  "conclude f p u before = (\<lambda>(st, w, s).
     if lookup st w f = None
     then (case sink_remove (ul_id u) s of
             (Inl e, s1) \<Rightarrow> (UploadFailed, st, w, s1)
           | (Inr _, s1) \<Rightarrow> (DeletedInstead, st, w, s1))
     else (case settle_sent p u before w of (r, w1) \<Rightarrow> (r, st, w1, s)))"

text \<open>Looking again before a file that cannot be found is taken for deleted.\<close>

definition look_again :: "(facts \<Rightarrow> u64) \<Rightarrow> file_id \<Rightarrow> store \<times> client \<Rightarrow> store \<times> client" where
  "look_again hash f = (\<lambda>(st, w).
     if lookup st w f = None
     then (case st_root st of Some root \<Rightarrow> snd (scan hash root (st, w)) | None \<Rightarrow> (st, w))
     else (st, w))"

definition run_upload :: "(facts \<Rightarrow> u64) \<Rightarrow> file_id \<Rightarrow> sending \<Rightarrow> upload_outcome \<times> sending" where
  "run_upload hash f = (\<lambda>(st, w, s).
     case lookup st w f of
       None \<Rightarrow> (NothingToDo, st, w, s)
     | Some e \<Rightarrow>
         let p = en_path e
         in if path_is_ignored st p then (Ignored, st, w, s)
            else let before = file_at (cl_tree w) p;
                     kn = map_option (\<lambda>i. \<lparr>kn_id = i, kn_tag = en_etag e\<rparr>) (en_cloud e)
                 in case sink_upload p kn (w, s) of
                      (Inl err, w1, s1) \<Rightarrow> (UploadFailed, st, w1, s1)
                    | (Inr u, w1, s1) \<Rightarrow>
                        (case look_again hash f (st, w1) of (st2, w2) \<Rightarrow>
                           (case (if lookup st w1 f = None then lookup st2 w2 f else None) of
                              Some moved \<Rightarrow>
                                if en_path moved \<noteq> p
                                then (case resend (en_path moved) u (w2, s1) of (r, w3, s3) \<Rightarrow> (r, st2, w3, s3))
                                else conclude f p u before (st2, w2, s1)
                            | None \<Rightarrow> conclude f p u before (st2, w2, s1))))"

text \<open>\<open>Queue::run_one\<close>, and the driver's turn around it, which also settles the queue.\<close>

definition run_one :: "(facts \<Rightarrow> u64) \<Rightarrow> file_id \<Rightarrow> queue \<times> sending \<Rightarrow> upload_outcome \<times> queue \<times> sending" where
  "run_one hash f = (\<lambda>(q, x).
     case run_upload hash f x of (r, x') \<Rightarrow> (r, finish_send f (begin_send f q), x'))"

definition drive_one :: "(facts \<Rightarrow> u64) \<Rightarrow> nat \<Rightarrow> file_id \<Rightarrow> queue \<times> sending \<Rightarrow> queue \<times> sending" where
  "drive_one hash now f = (\<lambda>(q, x).
     case run_upload hash f x of (r, x') \<Rightarrow>
       (let q1 = finish_send f (begin_send f q)
        in if r = UploadFailed then failed now f q1 else sent f q1, x'))"

section \<open>What reaches the provider\<close>

lemma sink_upload_calls:
  "sink_upload p kn (w, s) = (r, w1, s1) \<Longrightarrow>
     sk_calls s1 = sk_calls s @ [SentTo p kn] \<and> sk_upload s1 = sk_upload s \<and> sk_remove s1 = sk_remove s \<and>
     r = snd (sk_upload s (length (sk_calls s))) \<and>
     w1 = w\<lparr>cl_tree := fst (sk_upload s (length (sk_calls s))) (cl_tree w)\<rparr>"
  by (auto simp: sink_upload_def split: prod.splits)

lemma sink_remove_calls:
  "sink_remove i s = (r, s1) \<Longrightarrow> sk_calls s1 = sk_calls s @ [Removed i]"
  by (auto simp: sink_remove_def)

lemma resend_calls:
  assumes "resend p u (w, s) = (r, w', s')"
  shows "sk_calls s' = sk_calls s @ SentTo p None #
    (case snd (sk_upload s (length (sk_calls s))) of
       Inr again \<Rightarrow> if ul_id again \<noteq> ul_id u then [Removed (ul_id u)] else []
     | Inl _ \<Rightarrow> [])"
proof -
  obtain r1 w1 s1 where a: "sink_upload p None (w, s) = (r1, w1, s1)" by (metis prod.exhaust)
  note c = sink_upload_calls [OF a]
  show ?thesis
    using assms a c
    by (auto simp: resend_def Let_def settle_sent_def dest!: sink_remove_calls
        split: sum.splits prod.splits if_splits)
qed

lemma conclude_calls:
  assumes "conclude f p u before (st, w, s) = (r, st', w', s')"
  shows "sk_calls s' = sk_calls s @ (if lookup st w f = None then [Removed (ul_id u)] else [])"
  using assms
  by (auto simp: conclude_def settle_sent_def dest!: sink_remove_calls split: if_splits sum.splits prod.splits)

lemma scan_tree: "cl_tree (snd (snd (scan hash root (st, w)))) = cl_tree w"
  by (auto simp: scan_def Let_def split: sum.splits prod.splits option.splits)

lemma look_again_tree: "look_again hash f (st, w) = (st2, w2) \<Longrightarrow> cl_tree w2 = cl_tree w"
  using scan_tree by (auto simp: look_again_def split: if_splits option.splits) (metis snd_conv)+

text \<open>Every call of one upload, and why it was made.\<close>

lemma run_upload_cases:
  assumes "run_upload hash f (st, w, s) = (r, st', w', s')"
  obtains (gone) "lookup st w f = None" "r = NothingToDo" "st' = st" "w' = w" "s' = s"
    | (ignored) e where "lookup st w f = Some e" "path_is_ignored st (en_path e)" "r = Ignored"
        "st' = st" "w' = w" "s' = s"
    | (refused) e kn err w1 s1 where "lookup st w f = Some e" "\<not> path_is_ignored st (en_path e)"
        "kn = map_option (\<lambda>i. \<lparr>kn_id = i, kn_tag = en_etag e\<rparr>) (en_cloud e)"
        "sink_upload (en_path e) kn (w, s) = (Inl err, w1, s1)" "r = UploadFailed" "st' = st" "w' = w1" "s' = s1"
    | (moved) e kn u w1 s1 st2 w2 m where "lookup st w f = Some e" "\<not> path_is_ignored st (en_path e)"
        "kn = map_option (\<lambda>i. \<lparr>kn_id = i, kn_tag = en_etag e\<rparr>) (en_cloud e)"
        "sink_upload (en_path e) kn (w, s) = (Inr u, w1, s1)" "look_again hash f (st, w1) = (st2, w2)"
        "lookup st w1 f = None" "lookup st2 w2 f = Some m" "en_path m \<noteq> en_path e"
        "resend (en_path m) u (w2, s1) = (r, w', s')" "st' = st2"
    | (stayed) e kn u w1 s1 st2 w2 where "lookup st w f = Some e" "\<not> path_is_ignored st (en_path e)"
        "kn = map_option (\<lambda>i. \<lparr>kn_id = i, kn_tag = en_etag e\<rparr>) (en_cloud e)"
        "sink_upload (en_path e) kn (w, s) = (Inr u, w1, s1)" "look_again hash f (st, w1) = (st2, w2)"
        "\<And>x. lookup st w1 f = None \<Longrightarrow> lookup st2 w2 f = Some x \<Longrightarrow> en_path x = en_path e"
        "conclude f (en_path e) u (file_at (cl_tree w) (en_path e)) (st2, w2, s1) = (r, st', w', s')"
proof (cases "lookup st w f")
  case None
  then have "r = NothingToDo" "st' = st" "w' = w" "s' = s" using assms by (auto simp: run_upload_def)
  with None show ?thesis by (rule gone)
next
  case (Some e)
  show ?thesis
  proof (cases "path_is_ignored st (en_path e)")
    case True
    then have "r = Ignored" "st' = st" "w' = w" "s' = s" using assms Some by (auto simp: run_upload_def Let_def)
    with Some True show ?thesis by (rule ignored)
  next
    case False
    define kn where "kn = map_option (\<lambda>i. \<lparr>kn_id = i, kn_tag = en_etag e\<rparr>) (en_cloud e)"
    obtain ru w1 s1 where up: "sink_upload (en_path e) kn (w, s) = (ru, w1, s1)" by (metis prod.exhaust)
    show ?thesis
    proof (cases ru)
      case (Inl err)
      have "run_upload hash f (st, w, s) = (UploadFailed, st, w1, s1)"
        using Some False up [unfolded Inl kn_def] by (simp add: run_upload_def Let_def)
      then have "r = UploadFailed" "st' = st" "w' = w1" "s' = s1" using assms by auto
      with Some False kn_def up [unfolded Inl] show ?thesis by (rule refused)
    next
      case (Inr u)
      obtain st2 w2 where la: "look_again hash f (st, w1) = (st2, w2)" by fastforce
      define m where "m = (if lookup st w1 f = None then lookup st2 w2 f else None)"
      have run: "run_upload hash f (st, w, s) =
          (case m of
             Some moved \<Rightarrow>
               if en_path moved \<noteq> en_path e
               then (case resend (en_path moved) u (w2, s1) of (r, w3, s3) \<Rightarrow> (r, st2, w3, s3))
               else conclude f (en_path e) u (file_at (cl_tree w) (en_path e)) (st2, w2, s1)
           | None \<Rightarrow> conclude f (en_path e) u (file_at (cl_tree w) (en_path e)) (st2, w2, s1))"
        using Some False up [unfolded Inr kn_def] la by (simp add: run_upload_def Let_def m_def)
      show ?thesis
      proof (cases "\<exists>x. m = Some x \<and> en_path x \<noteq> en_path e")
        case True
        then obtain x where x: "m = Some x" "en_path x \<noteq> en_path e" by blast
        then have l: "lookup st w1 f = None" "lookup st2 w2 f = Some x" by (auto simp: m_def split: if_splits)
        obtain r3 w3 s3 where rs: "resend (en_path x) u (w2, s1) = (r3, w3, s3)" by (metis prod.exhaust)
        then have eq: "r = r3" "st' = st2" "w' = w3" "s' = s3" using run x assms by auto
        show ?thesis by (rule moved [OF Some False kn_def up [unfolded Inr] la l x(2) rs [folded eq] eq(2)])
      next
        case stays: False
        then have "conclude f (en_path e) u (file_at (cl_tree w) (en_path e)) (st2, w2, s1) = (r, st', w', s')"
          using run assms by (cases m) simp_all
        moreover have "en_path x = en_path e" if "lookup st w1 f = None" "lookup st2 w2 f = Some x" for x
          using stays that by (auto simp: m_def)
        ultimately show ?thesis using stayed [OF Some False kn_def up [unfolded Inr] la] by blast
      qed
    qed
  qed
qed


section \<open>A sample directory, index and provider\<close>

definition sample_store :: store where
  "sample_store =
     store_new\<lparr>st_index := [(FileId 1 5, [''s'', ''a.txt'']), (FileId 1 6, [''s'', ''pack''])],
               st_root := Some [''s'']\<rparr>"

definition answering :: "(tree \<Rightarrow> tree) \<Rightarrow> sink" where
  "answering act =
     \<lparr>sk_upload = (\<lambda>n. if n = 0 then (act, Inr \<lparr>ul_id = ''A'', ul_etag = Some ''t1''\<rparr>)
                      else (id, Inr \<lparr>ul_id = ''B'', ul_etag = None\<rparr>)),
      sk_remove = (\<lambda>n. Inr ()), sk_calls = []\<rparr>"

definition move_node :: "path \<Rightarrow> path \<Rightarrow> tree \<Rightarrow> tree" where
  "move_node p q t = map (\<lambda>(x, n). (if x = p then q else x, n)) t"

lemmas upload_eval =
  run_upload_def lookup_def sample_store_def store_new_def sample_client_def file_at_def plain_file_def
  attr_string_def recorded_for_def relative_def sink_upload_def answering_def path_is_ignored_def path_below_def
  ignore_default_def ignore_from_config_def is_ignored_def path_str_def look_again_def conclude_def resend_def
  settle_sent_def adopt_cloud_id_def set_cloud_def set_tag_def with_temporarily_writable_def set_attr_def
  user_call_def OWNER_WRITE_def with_file_def set_stamp_as_def sink_remove_def scan_def walk_loop.simps
  read_dir_def visit_def note_file_def internal_name_def is_internal_def is_scratch_def strip_prefix_def
  MANIFEST_def LINEAGE_def IGNORE_def scratch_infix_def rsplit_once_def upt_conv_Cons load_ignore_def walk_new_def
  byte_in_def Let_def move_node_def

definition sample_entry :: entry where
  "sample_entry = \<lparr>en_path = [''s'', ''a.txt''], en_cloud = None, en_etag = None, en_size = 3\<rparr>"

lemma sample_lookup: "lookup sample_store sample_client (FileId 1 5) = Some sample_entry"
  by (simp add: upload_eval sample_entry_def)

lemma sample_not_ignored: "\<not> path_is_ignored sample_store (en_path sample_entry)"
  by (simp add: upload_eval sample_entry_def)


section \<open>A deletion during the upload\<close>

definition absent :: "file_id \<Rightarrow> tree \<Rightarrow> bool" where
  "absent f t \<longleftrightarrow> (\<forall>p c. file_at t p = Some c \<longrightarrow> f_id (cf_inode c) \<noteq> f)"

lemma absent_lookup: "absent f (cl_tree w) \<Longrightarrow> lookup st w f = None"
  using lookup_sound [of st w f] unfolding absent_def by (cases "lookup st w f") blast+

text \<open>C14: A file deleted while its bytes go out is deleted in the cloud too: the object the upload answered
  with is the last thing the provider is asked about, to remove it, and the upload does not count as
  sent, whatever was scanned in between.\<close>

theorem deleted_during_upload_removed:
  assumes "run_upload hash f (st, w, s) = (r, st', w', s')"
    and "lookup st w f = Some e" "\<not> path_is_ignored st (en_path e)"
    and "sk_upload s (length (sk_calls s)) = (act, Inr u)" "absent f (act (cl_tree w))"
  shows "(\<exists>kn. sk_calls s' = sk_calls s @ [SentTo (en_path e) kn, Removed (ul_id u)]) \<and>
    r = (case sk_remove s (Suc (length (sk_calls s))) of Inr _ \<Rightarrow> DeletedInstead | Inl _ \<Rightarrow> UploadFailed)"
  using assms(1)
proof (cases rule: run_upload_cases)
  case (stayed e1 kn u1 w1 s1 st2 w2)
  note a = sink_upload_calls [OF stayed(4)]
  have e1: "e1 = e" using stayed(1) assms(2) by simp
  have u1: "u1 = u" using a assms(4) by simp
  have "absent f (cl_tree w2)" using look_again_tree [OF stayed(5)] a assms(4,5) by simp
  then have "lookup st2 w2 f = None" by (rule absent_lookup)
  then show ?thesis
    using stayed(7) a e1 u1
    by (auto simp: conclude_def sink_remove_def split: sum.splits)
next
  case (moved e1 kn u1 w1 s1 st2 w2 m)
  note a = sink_upload_calls [OF moved(4)]
  have "absent f (cl_tree w2)" using look_again_tree [OF moved(5)] a assms(4,5) by simp
  then have "lookup st2 w2 f = None" by (rule absent_lookup)
  then show ?thesis using moved(7) by simp
next
  case (refused e1 kn err w1 s1)
  then show ?thesis using sink_upload_calls [OF refused(4)] assms(4) by simp
qed (use assms in auto)

lemma deleted_during_upload_removed_witness:
  "fst (run_upload (\<lambda>_. 0) (FileId 1 5) (sample_store, sample_client, answering (\<lambda>_. []))) = DeletedInstead"
proof -
  obtain r st' w' s' where h:
    "run_upload (\<lambda>_. 0) (FileId 1 5) (sample_store, sample_client, answering (\<lambda>_. [])) = (r, st', w', s')"
    by (metis prod.exhaust)
  have u: "sk_upload (answering (\<lambda>_. [])) (length (sk_calls (answering (\<lambda>_. [])))) = ((\<lambda>_. []), Inr \<lparr>ul_id = ''A'', ul_etag = Some ''t1''\<rparr>)"
    by (simp add: answering_def)
  show ?thesis
    using deleted_during_upload_removed [OF h sample_lookup sample_not_ignored u] h by (simp add: absent_def file_at_def answering_def)
qed

text \<open>Where that removal fails the upload is reported as failed and queued again, and the next attempt
  forgets it: the file is gone, so nothing is asked of the provider, and the object of a deleted file
  stays in the cloud.\<close>

theorem failed_removal_is_forgotten:
  assumes "run_upload hash f (st, w, s) = (r, st', w', s')"
    and "lookup st w f = Some e" "\<not> path_is_ignored st (en_path e)"
    and "sk_upload s (length (sk_calls s)) = (act, Inr u)" "absent f (act (cl_tree w))"
    and "sk_remove s (Suc (length (sk_calls s))) = Inl err"
    and "absent f (cl_tree w2)"
  shows "r = UploadFailed \<and> run_upload hash f (st2, w2, s') = (NothingToDo, st2, w2, s')"
proof -
  have "r = UploadFailed"
    using assms(1)
  proof (cases rule: run_upload_cases)
    case (stayed e1 kn u1 w1 s1 sta wa)
    note a = sink_upload_calls [OF stayed(4)]
    have "absent f (cl_tree wa)" using look_again_tree [OF stayed(5)] a assms(4,5) by simp
    then have "lookup sta wa f = None" by (rule absent_lookup)
    then show ?thesis using stayed(7) a assms(6) by (simp add: conclude_def sink_remove_def)
  next
    case (moved e1 kn u1 w1 s1 sta wa m)
    note a = sink_upload_calls [OF moved(4)]
    have "absent f (cl_tree wa)" using look_again_tree [OF moved(5)] a assms(4,5) by simp
    then have "lookup sta wa f = None" by (rule absent_lookup)
    then show ?thesis using moved(7) by simp
  qed (use assms in auto)
  moreover have "lookup st2 w2 f = None" by (rule absent_lookup [OF assms(7)])
  ultimately show ?thesis by (simp add: run_upload_def)
qed

lemma failed_removal_is_forgotten_witness:
  "\<exists>st' w' s'. run_upload (\<lambda>_. 0) (FileId 1 5)
       (sample_store, sample_client, (answering (\<lambda>_. []))\<lparr>sk_remove := (\<lambda>_. Inl (Os EIO))\<rparr>) = (UploadFailed, st', w', s') \<and>
     run_upload (\<lambda>_. 0) (FileId 1 5) (st', w', s') = (NothingToDo, st', w', s')"
proof -
  let ?s = "(answering (\<lambda>_. []))\<lparr>sk_remove := (\<lambda>_. Inl (Os EIO))\<rparr>"
  obtain r st' w' s' where h:
    "run_upload (\<lambda>_. 0) (FileId 1 5) (sample_store, sample_client, ?s) = (r, st', w', s')"
    by (metis prod.exhaust)
  have u: "sk_upload ?s (length (sk_calls ?s)) = ((\<lambda>_. []), Inr \<lparr>ul_id = ''A'', ul_etag = Some ''t1''\<rparr>)"
    by (simp add: answering_def)
  have w': "absent (FileId 1 5) (cl_tree w')"
    using h by (auto simp: upload_eval absent_def)
  show ?thesis
    using failed_removal_is_forgotten [OF h sample_lookup sample_not_ignored u _ _ w', where err = "Os EIO" and ?st2.0 = st']
      h by (simp add: absent_def file_at_def)
qed

section \<open>What is recorded as sent\<close>

lemma user_call_plain: "cl_plan w = [] \<Longrightarrow> user_call act w = act w"
  by (cases w) (simp add: user_call_def)

lemma set_mode_ok:
  "cl_plan w = [] \<Longrightarrow> file_at (cl_tree w) p = Some c \<Longrightarrow>
     set_mode p m w = (Inr (), w\<lparr>cl_tree := with_file p (\<lambda>f. f\<lparr>cf_mode := m\<rparr>) (cl_tree w)\<rparr>)"
  by (simp add: set_mode_def user_call_plain)

lemma stat_mode_ok:
  "cl_plan w = [] \<Longrightarrow> file_at (cl_tree w) p = Some c \<Longrightarrow> stat_mode p w = (Inr (cf_mode c), w)"
  by (simp add: stat_mode_def user_call_plain)

lemma set_attr_ok:
  "cl_plan w = [] \<Longrightarrow> file_at (cl_tree w) p = Some c \<Longrightarrow> and (cf_mode c) OWNER_WRITE \<noteq> 0 \<Longrightarrow>
     set_attr p g w = (Inr (), w\<lparr>cl_tree := with_file p g (cl_tree w)\<rparr>)"
  by (simp add: set_attr_def user_call_def)

lemma set_attr_read_only:
  "cl_plan w = [] \<Longrightarrow> file_at (cl_tree w) p = Some c \<Longrightarrow> and (cf_mode c) OWNER_WRITE = 0 \<Longrightarrow>
     set_attr p g w = (Inl (Os EACCES), w)"
  by (simp add: set_attr_def user_call_def)

lemma or_and_same: "and (or m OWNER_WRITE) OWNER_WRITE \<noteq> 0"
proof -
  have "and (or m OWNER_WRITE) OWNER_WRITE = OWNER_WRITE" by (simp add: bit_eq_iff bit_simps)
  then show ?thesis by (simp add: OWNER_WRITE_def)
qed

lemma attr_done:
  assumes "cl_plan w = []" "file_at (cl_tree w) p = Some c"
    and "\<And>f m. g (f\<lparr>cf_mode := m\<rparr>) = (g f)\<lparr>cf_mode := m\<rparr>"
  shows "\<exists>w'. with_temporarily_writable p (set_attr p g) w = (Inr (), w') \<and> cl_plan w' = [] \<and>
           file_at (cl_tree w') p = Some (g c)"
proof (cases "and (cf_mode c) OWNER_WRITE = 0")
  case False
  then show ?thesis using assms
    by (simp add: with_temporarily_writable_def set_attr_ok file_at_with_file)
next
  case True
  let ?m = "cf_mode c"
  let ?w1 = "w\<lparr>cl_tree := with_file p (\<lambda>f. f\<lparr>cf_mode := or ?m OWNER_WRITE\<rparr>) (cl_tree w)\<rparr>"
  have f1: "file_at (cl_tree ?w1) p = Some (c\<lparr>cf_mode := or ?m OWNER_WRITE\<rparr>)"
    using assms(2) by (simp add: file_at_with_file)
  have a1: "set_attr p g ?w1 = (Inr (), ?w1\<lparr>cl_tree := with_file p g (cl_tree ?w1)\<rparr>)"
    using assms(1) or_and_same by (intro set_attr_ok [OF _ f1]) simp_all
  have gm: "cf_mode (g c) = cf_mode c"
    using assms(3) [where f = c and m = "cf_mode c"] by (cases c; cases "g c") simp
  let ?w2 = "?w1\<lparr>cl_tree := with_file p g (cl_tree ?w1)\<rparr>"
  have f2: "file_at (cl_tree ?w2) p = Some (g (c\<lparr>cf_mode := or ?m OWNER_WRITE\<rparr>))"
    using assms(2) by (simp add: file_at_with_file)
  have "with_temporarily_writable p (set_attr p g) w =
      (Inr (), ?w2\<lparr>cl_tree := with_file p (\<lambda>f. f\<lparr>cf_mode := ?m\<rparr>) (cl_tree ?w2)\<rparr>)"
    using set_attr_read_only [OF assms(1,2) True] stat_mode_ok [OF assms(1,2)] set_mode_ok [OF assms(1,2)] a1
      set_mode_ok [of ?w2, OF _ f2] assms(1)
    by (simp add: with_temporarily_writable_def)
  moreover have "file_at (with_file p (\<lambda>f. f\<lparr>cf_mode := ?m\<rparr>) (cl_tree ?w2)) p =
      Some ((g (c\<lparr>cf_mode := or ?m OWNER_WRITE\<rparr>))\<lparr>cf_mode := ?m\<rparr>)"
    unfolding file_at_with_file f2 by simp
  moreover have "(g (c\<lparr>cf_mode := or ?m OWNER_WRITE\<rparr>))\<lparr>cf_mode := ?m\<rparr> = g c"
    unfolding assms(3) using gm by (cases "g c") simp
  ultimately show ?thesis using assms(1) by (intro exI conjI) (assumption, simp_all)
qed

definition with_identity :: "uploaded \<Rightarrow> cfile \<Rightarrow> cfile" where
  "with_identity u c =
     c\<lparr>cf_cloud := Some (ul_id u), cf_tag := (case ul_etag u of Some t \<Rightarrow> Some t | None \<Rightarrow> cf_tag c)\<rparr>"

lemma adopt_ok:
  assumes "cl_plan w = []" "file_at (cl_tree w) p = Some c"
  shows "\<exists>w'. adopt_cloud_id p (ul_id u) (ul_etag u) w = (Inr (), w') \<and> cl_plan w' = [] \<and>
           file_at (cl_tree w') p = Some (with_identity u c)"
proof -
  obtain w1 where w1: "set_cloud p (ul_id u) w = (Inr (), w1)" "cl_plan w1 = []"
    "file_at (cl_tree w1) p = Some (c\<lparr>cf_cloud := Some (ul_id u)\<rparr>)"
    using attr_done [OF assms, of "\<lambda>f. f\<lparr>cf_cloud := Some (ul_id u)\<rparr>"] by (auto simp: set_cloud_def)
  show ?thesis
  proof (cases "ul_etag u")
    case None
    then show ?thesis using w1 by (simp add: adopt_cloud_id_def with_identity_def)
  next
    case (Some t)
    then show ?thesis
      using w1 attr_done [OF w1(2,3), of "\<lambda>f. f\<lparr>cf_tag := Some t\<rparr>"]
      by (auto simp: adopt_cloud_id_def set_tag_def with_identity_def)
  qed
qed

lemma settle_sent_ok:
  assumes "cl_plan w = []" "file_at (cl_tree w) p = Some c1" "and (cf_mode c1) OWNER_WRITE \<noteq> 0"
  shows "\<exists>w'. settle_sent p u (Some c) w = (Sent (ul_id u), w') \<and>
    file_at (cl_tree w') p = Some ((with_identity u c1)\<lparr>cf_inode := (cf_inode c1)\<lparr>f_stamp := Some (stamp_of (cf_inode c))\<rparr>\<rparr>)"
proof -
  obtain w' where a: "adopt_cloud_id p (ul_id u) (ul_etag u) w = (Inr (), w')" "cl_plan w' = []"
    "file_at (cl_tree w') p = Some (with_identity u c1)"
    using adopt_ok [OF assms(1,2)] by blast
  have "and (cf_mode (with_identity u c1)) OWNER_WRITE \<noteq> 0" using assms(3) by (simp add: with_identity_def)
  then show ?thesis
    using a(1) set_attr_ok [OF a(2,3)] a(3)
    by (simp add: settle_sent_def set_stamp_as_def file_at_with_file with_identity_def)
qed

text \<open>An upload during which the file keeps its name.\<close>

lemma run_upload_in_place:
  assumes "lookup st w f = Some e" "\<not> path_is_ignored st (en_path e)"
    and "sk_upload s (length (sk_calls s)) = (act, Inr u)"
    and "file_at (act (cl_tree w)) (en_path e) = Some c1" "f_id (cf_inode c1) = f"
  shows "\<exists>s'. run_upload hash f (st, w, s) =
    (case settle_sent (en_path e) u (file_at (cl_tree w) (en_path e)) (w\<lparr>cl_tree := act (cl_tree w)\<rparr>) of
       (r, w') \<Rightarrow> (r, st, w', s'))"
proof -
  let ?w1 = "w\<lparr>cl_tree := act (cl_tree w)\<rparr>"
  obtain e1 where l: "lookup st ?w1 f = Some e1"
    using lookup_sound [OF assms(1)] assms(4,5)
    by (cases "attr_string (cf_cloud c1)"; cases "recorded_for st (en_path e)") (simp_all add: lookup_def Let_def)
  have "run_upload hash f (st, w, s) =
      conclude f (en_path e) u (file_at (cl_tree w) (en_path e))
        (st, ?w1, s\<lparr>sk_calls := sk_calls s @ [SentTo (en_path e) (map_option (\<lambda>i. \<lparr>kn_id = i, kn_tag = en_etag e\<rparr>) (en_cloud e))]\<rparr>)"
    using assms(1-3) l by (simp add: run_upload_def sink_upload_def look_again_def Let_def)
  then show ?thesis using l by (auto simp: conclude_def split: prod.split)
qed

text \<open>C13: After an upload during which the file kept its name, the file carries the identity the provider
  gave and the stamp of the state seen before the first byte was read, on top of whatever was written
  meanwhile.  So it reads as clean exactly when size and modification time did not move: an edit that
  landed during the upload is not taken for sent.\<close>

theorem edit_during_upload_stays_dirty:
  assumes "lookup st w f = Some e" "\<not> path_is_ignored st (en_path e)"
    and "sk_upload s (length (sk_calls s)) = (act, Inr u)"
    and "file_at (cl_tree w) (en_path e) = Some c"
    and "file_at (act (cl_tree w)) (en_path e) = Some c1" "f_id (cf_inode c1) = f"
    and "and (cf_mode c1) OWNER_WRITE \<noteq> 0" "cl_plan w = []"
  shows "\<exists>w' s' c'. run_upload hash f (st, w, s) = (Sent (ul_id u), st, w', s') \<and>
    file_at (cl_tree w') (en_path e) = Some c' \<and> cf_cloud c' = Some (ul_id u) \<and>
    f_data (cf_inode c') = f_data (cf_inode c1) \<and>
    (f_stamp (cf_inode c') = Some (stamp_of (cf_inode c')) \<longleftrightarrow>
       f_mtime (cf_inode c1) = f_mtime (cf_inode c) \<and> f_mtime_nsec (cf_inode c1) = f_mtime_nsec (cf_inode c) \<and>
       f_size (cf_inode c1) = f_size (cf_inode c))"
proof -
  let ?w1 = "w\<lparr>cl_tree := act (cl_tree w)\<rparr>"
  obtain w' where s: "settle_sent (en_path e) u (Some c) ?w1 = (Sent (ul_id u), w')"
    "file_at (cl_tree w') (en_path e) =
       Some ((with_identity u c1)\<lparr>cf_inode := (cf_inode c1)\<lparr>f_stamp := Some (stamp_of (cf_inode c))\<rparr>\<rparr>)"
    using settle_sent_ok [of ?w1 "en_path e" c1 u c] assms(5,7,8) by auto
  have "stamp_of ((cf_inode c1)\<lparr>f_stamp := v\<rparr>) = stamp_of (cf_inode c1)" for v by (simp add: stamp_of_def)
  then show ?thesis
    using run_upload_in_place [OF assms(1-3,5,6), of hash] assms(4) s
    by (auto simp: with_identity_def stamp_of_inj)
qed

definition edit_node :: "path \<Rightarrow> tree \<Rightarrow> tree" where
  "edit_node p = with_file p (\<lambda>c. c\<lparr>cf_inode := (cf_inode c)\<lparr>f_mtime := 777\<rparr>\<rparr>)"

lemma edit_during_upload_stays_dirty_witness:
  "\<exists>w' s' c'. run_upload (\<lambda>_. 0) (FileId 1 5) (sample_store, sample_client, answering (edit_node [''s'', ''a.txt''])) =
       (Sent ''A'', sample_store, w', s') \<and>
     file_at (cl_tree w') [''s'', ''a.txt''] = Some c' \<and> f_stamp (cf_inode c') \<noteq> Some (stamp_of (cf_inode c'))"
proof -
  let ?s = "answering (edit_node [''s'', ''a.txt''])"
  have u: "sk_upload ?s (length (sk_calls ?s)) = (edit_node [''s'', ''a.txt''], Inr \<lparr>ul_id = ''A'', ul_etag = Some ''t1''\<rparr>)"
    by (simp add: answering_def)
  have c: "file_at (cl_tree sample_client) (en_path sample_entry) = Some (plain_file (FileId 1 5))"
    by (simp add: sample_client_def sample_entry_def file_at_def)
  have c1: "file_at (edit_node [''s'', ''a.txt''] (cl_tree sample_client)) (en_path sample_entry) =
      Some ((plain_file (FileId 1 5))\<lparr>cf_inode := (cf_inode (plain_file (FileId 1 5)))\<lparr>f_mtime := 777\<rparr>\<rparr>)"
    using c by (simp add: edit_node_def file_at_with_file sample_entry_def)
  show ?thesis
    using edit_during_upload_stays_dirty [OF sample_lookup sample_not_ignored u c c1, of "\<lambda>_. 0"]
    by (simp add: plain_file_def OWNER_WRITE_def sample_client_def sample_entry_def) blast
qed

text \<open>A file its owner made read-only is given its identity, through a temporary change of mode, but
  never its stamp: that write is refused by the same mode and its error dropped.  The upload counts as
  sent and the stamp is what it was.\<close>

theorem read_only_file_is_not_stamped:
  assumes "lookup st w f = Some e" "\<not> path_is_ignored st (en_path e)"
    and "sk_upload s (length (sk_calls s)) = (act, Inr u)"
    and "file_at (act (cl_tree w)) (en_path e) = Some c1" "f_id (cf_inode c1) = f"
    and "and (cf_mode c1) OWNER_WRITE = 0" "cl_plan w = []"
  shows "\<exists>w' s' c'. run_upload hash f (st, w, s) = (Sent (ul_id u), st, w', s') \<and>
    file_at (cl_tree w') (en_path e) = Some c' \<and> cf_cloud c' = Some (ul_id u) \<and>
    f_stamp (cf_inode c') = f_stamp (cf_inode c1)"
proof -
  let ?w1 = "w\<lparr>cl_tree := act (cl_tree w)\<rparr>"
  obtain c where c: "file_at (cl_tree w) (en_path e) = Some c" using lookup_sound [OF assms(1)] by blast
  obtain w' where a: "adopt_cloud_id (en_path e) (ul_id u) (ul_etag u) ?w1 = (Inr (), w')" "cl_plan w' = []"
    "file_at (cl_tree w') (en_path e) = Some (with_identity u c1)"
    using adopt_ok [of ?w1 "en_path e" c1 u] assms(4,7) by auto
  have "and (cf_mode (with_identity u c1)) OWNER_WRITE = 0" using assms(6) by (simp add: with_identity_def)
  then have "settle_sent (en_path e) u (Some c) ?w1 = (Sent (ul_id u), w')"
    using a(1) set_attr_read_only [OF a(2,3)] by (simp add: settle_sent_def set_stamp_as_def)
  then show ?thesis
    using run_upload_in_place [OF assms(1-5), of hash] c a(3) by (auto simp: with_identity_def)
qed

lemma read_only_file_is_not_stamped_witness:
  "\<exists>w' s' c'. run_upload (\<lambda>_. 0) (FileId 1 6) (sample_store, sample_client, answering id) = (Sent ''A'', sample_store, w', s') \<and>
     file_at (cl_tree w') [''s'', ''pack''] = Some c' \<and> cf_cloud c' = Some ''A'' \<and> f_stamp (cf_inode c') = None"
proof -
  let ?e = "\<lparr>en_path = [''s'', ''pack''], en_cloud = None, en_etag = None, en_size = 3\<rparr>"
  let ?c = "(plain_file (FileId 1 6))\<lparr>cf_mode := 0x124\<rparr>"
  have l: "lookup sample_store sample_client (FileId 1 6) = Some ?e" by (simp add: upload_eval)
  have i: "\<not> path_is_ignored sample_store (en_path ?e)" by (simp add: upload_eval)
  have u: "sk_upload (answering id) (length (sk_calls (answering id))) = (id, Inr \<lparr>ul_id = ''A'', ul_etag = Some ''t1''\<rparr>)"
    by (simp add: answering_def)
  have c: "file_at (id (cl_tree sample_client)) (en_path ?e) = Some ?c" by (simp add: sample_client_def file_at_def)
  show ?thesis
    using read_only_file_is_not_stamped [OF l i u c, of "\<lambda>_. 0"]
    by (simp add: plain_file_def OWNER_WRITE_def sample_client_def)
qed

section \<open>A renaming during the upload\<close>

text \<open>The object removed after a resend under the new name is the one the first call answered with.
  For a file the cloud already knew that is not an object made a moment ago: where the provider updates
  by identity, it is the file's object of old that is deleted, in favour of a new one.\<close>

theorem rename_during_update_removes_the_object:
  assumes "run_upload hash f (st, w, s) = (r, st', w', s')"
    and "lookup st w f = Some e" "\<not> path_is_ignored st (en_path e)" "en_cloud e = Some i"
    and "sk_upload s (length (sk_calls s)) = (act, Inr u)" "ul_id u = i"
    and "look_again hash f (st, w\<lparr>cl_tree := act (cl_tree w)\<rparr>) = (st2, w2)"
    and "lookup st (w\<lparr>cl_tree := act (cl_tree w)\<rparr>) f = None" "lookup st2 w2 f = Some m" "en_path m \<noteq> en_path e"
    and "snd (sk_upload s (Suc (length (sk_calls s)))) = Inr again" "ul_id again \<noteq> i"
  shows "\<exists>kn. sk_calls s' = sk_calls s @ [SentTo (en_path e) kn, SentTo (en_path m) None, Removed i]"
  using assms(1)
proof (cases rule: run_upload_cases)
  case (moved e1 kn u1 w1 s1 sta wa m1)
  note a = sink_upload_calls [OF moved(4)]
  have eq: "e1 = e" "u1 = u" "w1 = w\<lparr>cl_tree := act (cl_tree w)\<rparr>" using a moved(1) assms(2,5) by auto
  then have "m1 = m" "wa = w2" using moved(5,7) assms(7,9) by auto
  then show ?thesis
    using moved(9) a eq assms(6,11,12)
    by (auto simp: resend_def Let_def sink_upload_def sink_remove_def split: prod.splits sum.splits)
next
  case (stayed e1 kn u1 w1 s1 sta wa)
  note a = sink_upload_calls [OF stayed(4)]
  have eq: "e1 = e" "w1 = w\<lparr>cl_tree := act (cl_tree w)\<rparr>" using a stayed(1) assms(2,5) by auto
  then have "wa = w2" "sta = st2" using stayed(5) assms(7) by auto
  then show ?thesis using stayed(6) [of m] assms(8-10) eq by simp
next
  case (refused e1 kn err w1 s1)
  then show ?thesis using sink_upload_calls [OF refused(4)] assms(5) by simp
qed (use assms in auto)

definition known_client :: client where
  "known_client = sample_client\<lparr>cl_tree :=
     [([''s'', ''a.txt''], Regular ((plain_file (FileId 1 5))\<lparr>cf_cloud := Some ''A'', cf_tag := Some ''t0''\<rparr>))]\<rparr>"

definition renaming :: sink where
  "renaming = answering (move_node [''s'', ''a.txt''] [''s'', ''b.txt''])"

lemma walk_renamed:
  "walk_loop hash False ignore_default [''s'']
     (known_client\<lparr>cl_tree := move_node [''s'', ''a.txt''] [''s'', ''b.txt''] (cl_tree known_client)\<rparr>) [[''s'']] walk_new =
   (Inr (), \<lparr>wk_index = [(FileId 1 5, [''s'', ''b.txt''])],
             wk_print = hash ([''s'', ''b.txt''], 3, Some ''A'', Some ''t0''),
             wk_seen = [], wk_live = [], wk_found = 1\<rparr>)"
  by (simp add: known_client_def upload_eval)

lemma rename_during_update_removes_the_object_witness:
  "\<exists>kn. sk_calls (snd (snd (snd (run_upload (\<lambda>_. 0) (FileId 1 5) (sample_store, known_client, renaming))))) =
     [SentTo [''s'', ''a.txt''] kn, SentTo [''s'', ''b.txt''] None, Removed ''A'']"
proof -
  let ?e = "\<lparr>en_path = [''s'', ''a.txt''], en_cloud = Some ''A'', en_etag = Some ''t0'', en_size = 3\<rparr>"
  let ?m = "\<lparr>en_path = [''s'', ''b.txt''], en_cloud = Some ''A'', en_etag = Some ''t0'', en_size = 3\<rparr>"
  let ?act = "move_node [''s'', ''a.txt''] [''s'', ''b.txt'']"
  let ?w1 = "known_client\<lparr>cl_tree := ?act (cl_tree known_client)\<rparr>"
  obtain r st' w' s' where h:
    "run_upload (\<lambda>_. 0) (FileId 1 5) (sample_store, known_client, renaming) = (r, st', w', s')"
    by (metis prod.exhaust)
  have l: "lookup sample_store known_client (FileId 1 5) = Some ?e"
    by (simp add: known_client_def upload_eval)
  have i: "\<not> path_is_ignored sample_store (en_path ?e)" by (simp add: upload_eval)
  have u: "sk_upload renaming (length (sk_calls renaming)) = (?act, Inr \<lparr>ul_id = ''A'', ul_etag = Some ''t1''\<rparr>)"
    by (simp add: renaming_def answering_def)
  obtain st2 w2 where la: "look_again (\<lambda>_. 0) (FileId 1 5) (sample_store, ?w1) = (st2, w2)" by fastforce
  have l1: "lookup sample_store ?w1 (FileId 1 5) = None" by (simp add: known_client_def upload_eval)
  have ld: "load_ignore ?w1 = ignore_default"
    by (simp add: load_ignore_def ignore_default_def known_client_def sample_client_def)
  have "(st2, w2) = (sample_store\<lparr>st_ignore := ignore_default, st_index := [(FileId 1 5, [''s'', ''b.txt''])], st_fingerprint := 0\<rparr>, ?w1)"
    using la l1 ld walk_renamed [of "\<lambda>_. 0"]
    by (auto simp: look_again_def scan_def Let_def sample_store_def store_new_def)
  then have l2: "lookup st2 w2 (FileId 1 5) = Some ?m"
    by (simp add: known_client_def upload_eval)
  show ?thesis
    using rename_during_update_removes_the_object [OF h l i _ u _ la l1 l2, where i = "''A''" and again = "\<lparr>ul_id = ''B'', ul_etag = None\<rparr>"]
      h by (simp add: renaming_def answering_def)
qed

section \<open>The queue around an upload\<close>

text \<open>After the driver's turn for a file the file is no longer in flight, and it waits again exactly
  when the upload failed; the other files and their deadlines are untouched.\<close>

theorem drive_one_settles:
  assumes "drive_one hash now f (q, x) = (q', x')" "f \<notin> sending_set q"
  shows "sending_set q' = sending_set q \<and>
    waiting_set q' = (if fst (run_upload hash f x) = UploadFailed then insert f (waiting_set q) else waiting_set q - {f}) \<and>
    (\<forall>g. g \<noteq> f \<longrightarrow> map_of (q_waiting q') g = map_of (q_waiting q) g)"
proof -
  obtain r x1 where r: "run_upload hash f x = (r, x1)" by (cases "run_upload hash f x")
  then have q': "q' = (if r = UploadFailed then failed now f (finish_send f (begin_send f q))
      else sent f (finish_send f (begin_send f q)))"
    using assms(1) by (simp add: drive_one_def Let_def split: if_splits)
  have "map_of (q_waiting q') g = map_of (q_waiting q) g" if "g \<noteq> f" for g
    using that unfolding q' by (simp add: queue_rules update_conv delete_conv)
  then show ?thesis using assms(2) r unfolding q' by auto
qed

lemma drive_one_settles_witness:
  "waiting_set (fst (drive_one (\<lambda>_. 0) 9 (FileId 1 5)
     (touch 0 (FileId 1 5) (queue_new QUIET_PERIOD), sample_store, sample_client, answering (\<lambda>_. [])))) = {}"
proof -
  let ?q = "touch 0 (FileId 1 5) (queue_new QUIET_PERIOD)"
  let ?x = "(sample_store, sample_client, answering (\<lambda>_. []))"
  obtain q' x' where h: "drive_one (\<lambda>_. 0) 9 (FileId 1 5) (?q, ?x) = (q', x')"
    by (cases "drive_one (\<lambda>_. 0) 9 (FileId 1 5) (?q, ?x)")
  have s: "FileId 1 5 \<notin> sending_set ?q" by (simp add: sending_set_def queue_new_def touch_def)
  have u: "fst (run_upload (\<lambda>_. 0) (FileId 1 5) ?x) = DeletedInstead"
    by (simp add: upload_eval)
  show ?thesis
    using drive_one_settles [OF h s] h u by (simp add: waiting_set_def queue_new_def touch_def)
qed

end
