(* ===== verification/Namespace.thy ===== *)
theory Namespace
  imports Names "HOL-Library.Finite_Map" "HOL-Library.Product_Lexorder"
begin

text \<open>
  \<open>crates/hydration-client/src/namespace.rs\<close>: the tree of the remote drive, kept from the items a
  delta feed reports, and the changes of paths each item implies.  Hash maps are finite maps and a
  \<open>BTreeSet\<close> of ids is a sorted list.  The stacks of the loops have their top at the head.
\<close>

section \<open>Items, nodes and changes\<close>

text \<open>\<open>Change\<close> of \<open>delta.rs\<close>.\<close>

datatype cloud_change =
  Upserted (ch_id: string) (ch_path: string) (ch_size: u64) (ch_etag: "string option")
  | FolderUpserted (ch_id: string) (ch_path: string) (ch_etag: "string option")
  | Removed (ch_id: string)
  | FolderRemoved (ch_id: string) (ch_path: string)

datatype kind = KFile u64 "string option" | KFolder "string option" | KOpaque

datatype remote_item =
  Root (it_id: string)
  | Upsert (it_id: string) (it_parent: string) (it_name: string) (it_kind: kind)
  | Delete (it_id: string)

datatype problem = BadName string | ParentCannotContain | Cycle | ForeignRoot

record remote_node =
  nd_parent :: "string option"
  nd_name :: string
  nd_kind :: kind

record namespace =
  ns_nodes :: "(string, remote_node) fmap"
  ns_children :: "(string, string list) fmap"
  ns_root :: "string option"
  ns_waiting :: "(string, remote_item list) fmap"
  ns_problems :: "(string, problem) fmap"

definition ns_new :: namespace where
  "ns_new = \<lparr>ns_nodes = fmempty, ns_children = fmempty, ns_root = None, ns_waiting = fmempty, ns_problems = fmempty\<rparr>"

definition MAX_DEPTH :: nat where "MAX_DEPTH = 512"

section \<open>Walking up\<close>

text \<open>The loops over \<open>0..MAX_DEPTH\<close>: of \<open>would_cycle\<close> and of \<open>path_of\<close>.\<close>

primrec climbs_to :: "nat \<Rightarrow> (string, remote_node) fmap \<Rightarrow> string \<Rightarrow> string \<Rightarrow> bool" where
  "climbs_to 0 nodes i cur = True"
| "climbs_to (Suc n) nodes i cur =
     (if cur = i then True
      else case Option.bind (fmlookup nodes cur) nd_parent of
             Some next \<Rightarrow> climbs_to n nodes i next
           | None \<Rightarrow> False)"

definition would_cycle :: "namespace \<Rightarrow> string \<Rightarrow> string \<Rightarrow> bool" where
  "would_cycle ns i parent = climbs_to MAX_DEPTH (ns_nodes ns) i parent"

primrec path_up :: "nat \<Rightarrow> (string, remote_node) fmap \<Rightarrow> string \<Rightarrow> string list \<Rightarrow> string option" where
  "path_up 0 nodes cur parts = None"
| "path_up (Suc n) nodes cur parts =
     (case fmlookup nodes cur of
        None \<Rightarrow> None
      | Some nd \<Rightarrow>
          (case nd_parent nd of
             None \<Rightarrow> Some (join_with slash (rev parts))
           | Some p \<Rightarrow> path_up n nodes p (parts @ [nd_name nd])))"

definition path_of :: "namespace \<Rightarrow> string \<Rightarrow> string option" where
  "path_of ns i = path_up MAX_DEPTH (ns_nodes ns) i []"

lemma loop_numeral [simp]:
  "climbs_to (numeral k) nodes i cur = climbs_to (Suc (pred_numeral k)) nodes i cur"
  "path_up (numeral k) nodes cur parts = path_up (Suc (pred_numeral k)) nodes cur parts"
  by (simp_all only: numeral_eq_Suc)

section \<open>Walking down\<close>

definition kids :: "namespace \<Rightarrow> string \<Rightarrow> string list" where
  "kids ns i = (case fmlookup (ns_children ns) i of None \<Rightarrow> [] | Some s \<Rightarrow> s)"

definition all_kids :: "namespace \<Rightarrow> string set" where
  "all_kids ns = (\<Union>s\<in>fmran' (ns_children ns). set s)"

lemma finite_all_kids [simp]: "finite (all_kids ns)"
  by (simp add: all_kids_def fmran'_alt_def)

lemma set_kids: "set (kids ns i) \<subseteq> all_kids ns"
  by (force simp: kids_def all_kids_def split: option.splits intro: fmran'I)

text \<open>What the loops over a stack with a \<open>seen\<close> set have left: the ids not seen yet, then the stack.\<close>

definition to_see :: "namespace \<Rightarrow> string list \<Rightarrow> string set \<Rightarrow> nat" where
  "to_see ns stack seen = card ((all_kids ns \<union> set stack) - seen)"

lemma to_see_push:
  assumes "cur \<notin> seen" "set ks \<subseteq> all_kids ns"
  shows "to_see ns (ks @ stack) (insert cur seen) < to_see ns (cur # stack) seen"
  unfolding to_see_def by (rule psubset_card_mono) (use assms in auto)

lemma to_see_pop: "to_see ns stack (insert cur seen) \<le> to_see ns (cur # stack) seen"
  unfolding to_see_def by (rule card_mono) auto

lemma to_see_seen: "cur \<in> seen \<Longrightarrow> to_see ns (cur # stack) seen = to_see ns stack seen"
  unfolding to_see_def by (rule arg_cong [where f = card]) auto

function collect_ids_loop :: "namespace \<Rightarrow> string list \<Rightarrow> string set \<Rightarrow> string list \<Rightarrow> string list" where
  "collect_ids_loop ns [] seen out = out"
| "collect_ids_loop ns (cur # stack) seen out =
     (if cur \<in> seen then collect_ids_loop ns stack seen out
      else collect_ids_loop ns (rev (kids ns cur) @ stack) (insert cur seen) (out @ [cur]))"
  by pat_completeness auto

termination
  by (relation "measures [\<lambda>(ns, st, seen, _). to_see ns st seen, \<lambda>(_, st, _). length st]")
     (auto simp: to_see_seen intro!: to_see_push subset_trans [OF _ set_kids])

definition collect_ids :: "namespace \<Rightarrow> string \<Rightarrow> string list" where
  "collect_ids ns i = collect_ids_loop ns (rev (kids ns i)) {} []"

text \<open>The change that says where an item is now; nothing for a package or a broken chain.\<close>

definition say_place :: "namespace \<Rightarrow> string \<Rightarrow> remote_node \<Rightarrow> cloud_change list" where
  "say_place ns i nd =
     (case path_of ns i of
        None \<Rightarrow> []
      | Some p \<Rightarrow> (case nd_kind nd of
                     KFile sz tag \<Rightarrow> [Upserted i p sz tag]
                   | KFolder tag \<Rightarrow> [FolderUpserted i p tag]
                   | KOpaque \<Rightarrow> []))"

function collect_tree_loop :: "namespace \<Rightarrow> string list \<Rightarrow> string set \<Rightarrow> cloud_change list \<Rightarrow> cloud_change list" where
  "collect_tree_loop ns [] seen out = out"
| "collect_tree_loop ns (cur # stack) seen out =
     (if cur \<in> seen then collect_tree_loop ns stack seen out
      else case fmlookup (ns_nodes ns) cur of
             None \<Rightarrow> collect_tree_loop ns stack (insert cur seen) out
           | Some nd \<Rightarrow>
               if nd_kind nd = KOpaque then collect_tree_loop ns stack (insert cur seen) out
               else collect_tree_loop ns (rev (kids ns cur) @ stack) (insert cur seen) (out @ say_place ns cur nd))"
  by pat_completeness auto

termination
  by (relation "measures [\<lambda>(ns, st, seen, _). to_see ns st seen, \<lambda>(_, st, _). length st]")
     (auto simp: to_see_seen le_less [symmetric] intro!: to_see_push to_see_pop subset_trans [OF _ set_kids])

definition collect_tree :: "namespace \<Rightarrow> string \<Rightarrow> cloud_change list \<Rightarrow> cloud_change list" where
  "collect_tree ns i out = collect_tree_loop ns [i] {} out"

definition collect_descendants :: "namespace \<Rightarrow> string \<Rightarrow> cloud_change list \<Rightarrow> cloud_change list" where
  "collect_descendants ns i out = fold (collect_tree ns) (kids ns i) out"

section \<open>Items that wait for a parent\<close>

definition held_count :: "(string, remote_item list) fmap \<Rightarrow> nat" where
  "held_count w = (\<Sum>k\<in>fset (fmdom w). length (the (fmlookup w k)))"

definition retain_nonempty :: "(string, remote_item list) fmap \<Rightarrow> (string, remote_item list) fmap" where
  "retain_nonempty w = fmfilter (\<lambda>k. fmlookup w k \<noteq> Some []) w"

definition drop_held :: "string \<Rightarrow> (string, remote_item list) fmap \<Rightarrow> (string, remote_item list) fmap" where
  "drop_held i w = fmmap (filter (\<lambda>it. it_id it \<noteq> i)) w"

text \<open>\<open>waiting.entry(parent).or_default().push(item)\<close>.\<close>

definition hold :: "string \<Rightarrow> remote_item \<Rightarrow> (string, remote_item list) fmap \<Rightarrow> (string, remote_item list) fmap" where
  "hold p it w = fmupd p ((case fmlookup w p of None \<Rightarrow> [] | Some b \<Rightarrow> b) @ [it]) w"

lemma held_count_drop: "fmlookup w k = Some b \<Longrightarrow> held_count w = length b + held_count (fmdrop k w)"
proof -
  assume k: "fmlookup w k = Some b"
  then have "k \<in> fset (fmdom w)" by (rule fmdomI)
  then have "held_count w = length b + (\<Sum>x\<in>fset (fmdom w) - {k}. length (the (fmlookup w x)))"
    using k by (simp add: held_count_def sum.remove)
  also have "(\<Sum>x\<in>fset (fmdom w) - {k}. length (the (fmlookup w x))) = held_count (fmdrop k w)"
    unfolding held_count_def by (rule sum.cong) auto
  finally show ?thesis .
qed

lemma held_count_filter: "held_count (fmfilter P w) \<le> held_count w"
proof -
  have "held_count (fmfilter P w) = (\<Sum>k\<in>fset (fmdom (fmfilter P w)). length (the (fmlookup w k)))"
    unfolding held_count_def by (rule sum.cong) (auto simp: fmlookup_dom_iff)
  also have "\<dots> \<le> held_count w"
    unfolding held_count_def by (rule sum_mono2) auto
  finally show ?thesis .
qed

lemma held_count_retain: "held_count (retain_nonempty w) \<le> held_count w"
  unfolding retain_nonempty_def by (rule held_count_filter)

lemma held_count_drop_held: "held_count (drop_held i w) \<le> held_count w"
  unfolding held_count_def drop_held_def
  by (auto simp: fmlookup_dom_iff intro!: sum_mono)

lemma held_count_hold: "held_count (hold p it w) = Suc (held_count w)"
proof (cases "fmlookup w p")
  case None
  then have "held_count (hold p it w) = Suc (held_count (fmdrop p (hold p it w)))"
    using held_count_drop [of "hold p it w" p "[it]"] by (simp add: hold_def)
  moreover have "fmdrop p (hold p it w) = w"
    using None by (auto simp: hold_def fmlookup_drop fmlookup_inject [symmetric] intro!: ext)
  ultimately show ?thesis by simp
next
  case (Some b)
  then have "held_count (hold p it w) = Suc (length b + held_count (fmdrop p (hold p it w)))"
    using held_count_drop [of "hold p it w" p "b @ [it]"] by (simp add: hold_def)
  moreover have "fmdrop p (hold p it w) = fmdrop p w"
    by (auto simp: hold_def fmlookup_inject [symmetric] intro!: ext)
  ultimately show ?thesis using held_count_drop [OF Some] by simp
qed

text \<open>The ids of a bucket that the loops push: of every held \<open>Upsert\<close>.\<close>

definition upserted_ids :: "remote_item list \<Rightarrow> string list" where
  "upserted_ids its = map it_id (filter (\<lambda>it. case it of Upsert _ _ _ _ \<Rightarrow> True | _ \<Rightarrow> False) its)"

lemma length_upserted_ids [simp]: "length (upserted_ids its) \<le> length its"
  by (simp add: upserted_ids_def)

lemma held_count_settle: "held_count (retain_nonempty (drop_held i w)) \<le> held_count w"
  using held_count_retain held_count_drop_held by (rule order_trans)

lemma forget_less:
  assumes "fmlookup w cur = Some held"
  shows "2 * held_count (retain_nonempty (drop_held cur (fmdrop cur w))) + length (upserted_ids held)
    < Suc (2 * held_count w)"
  using held_count_drop [OF assms] held_count_settle [of cur "fmdrop cur w"] length_upserted_ids [of held]
  by linarith

function forget_loop :: "string list \<Rightarrow> (string, remote_item list) fmap \<Rightarrow> (string, remote_item list) fmap" where
  "forget_loop [] w = w"
| "forget_loop (cur # stack) w =
     (case fmlookup w cur of
        None \<Rightarrow> forget_loop stack (retain_nonempty (drop_held cur w))
      | Some held \<Rightarrow>
          forget_loop (rev (upserted_ids held) @ stack) (retain_nonempty (drop_held cur (fmdrop cur w))))"
  by pat_completeness auto

termination
  by (relation "measure (\<lambda>(st, w). 2 * held_count w + length st)")
     (auto simp: less_Suc_eq_le held_count_settle dest: forget_less)

definition forget_waiters :: "string \<Rightarrow> namespace \<Rightarrow> namespace" where
  "forget_waiters i ns = ns\<lparr>ns_waiting := forget_loop [i] (ns_waiting ns)\<rparr>"

lemma refuse_less:
  "fmlookup w cur = Some held \<Longrightarrow> 2 * held_count (fmdrop cur w) + length (upserted_ids held) < Suc (2 * held_count w)"
  using held_count_drop [of w cur held] length_upserted_ids [of held] by linarith

function refuse_loop :: "string list \<Rightarrow> problem \<Rightarrow> (string, remote_item list) fmap \<Rightarrow> (string, problem) fmap
    \<Rightarrow> (string, remote_item list) fmap \<times> (string, problem) fmap" where
  "refuse_loop [] why w ps = (w, ps)"
| "refuse_loop (cur # stack) why w ps =
     (case fmlookup w cur of
        None \<Rightarrow> refuse_loop stack why w (fmupd cur why ps)
      | Some held \<Rightarrow> refuse_loop (rev (upserted_ids held) @ stack) why (fmdrop cur w) (fmupd cur why ps))"
  by pat_completeness auto

termination
  by (relation "measure (\<lambda>(st, _, w, _). 2 * held_count w + length st)") (auto dest: refuse_less)

text \<open>All that a refusal reaches carries the one reason.\<close>

definition refuse :: "string \<Rightarrow> problem \<Rightarrow> namespace \<Rightarrow> namespace" where
  "refuse i why ns =
     (case refuse_loop [i] why (ns_waiting ns) (ns_problems ns) of
        (w, ps) \<Rightarrow> ns\<lparr>ns_waiting := retain_nonempty w, ns_problems := ps\<rparr>)"

section \<open>One item\<close>

text \<open>The changes that say an item and what it was are gone.\<close>

definition removal :: "namespace \<Rightarrow> string \<Rightarrow> cloud_change list" where
  "removal ns i =
     (case fmlookup (ns_nodes ns) i of
        None \<Rightarrow> []
      | Some nd \<Rightarrow>
          (case nd_kind nd of
             KFile _ _ \<Rightarrow> [Removed i]
           | KFolder _ \<Rightarrow> (case path_of ns i of Some p \<Rightarrow> [FolderRemoved i p] | None \<Rightarrow> [])
           | KOpaque \<Rightarrow> []))"

definition drop_node :: "string \<Rightarrow> namespace \<Rightarrow> namespace" where
  "drop_node g ns =
     (forget_waiters g
        (ns\<lparr>ns_nodes := fmdrop g (ns_nodes ns), ns_children := fmdrop g (ns_children ns)\<rparr>))
       \<lparr>ns_problems := fmdrop g (ns_problems ns)\<rparr>"

text \<open>\<open>children.get_mut(p)\<close> and \<open>remove\<close>; \<open>children.entry(p).or_default().insert(i)\<close>.\<close>

definition unlink :: "string option \<Rightarrow> string \<Rightarrow> namespace \<Rightarrow> namespace" where
  "unlink parent i ns =
     (case parent of
        None \<Rightarrow> ns
      | Some p \<Rightarrow>
          (case fmlookup (ns_children ns) p of
             None \<Rightarrow> ns
           | Some s \<Rightarrow> ns\<lparr>ns_children := fmupd p (remove1 i s) (ns_children ns)\<rparr>))"

definition link :: "string \<Rightarrow> string \<Rightarrow> namespace \<Rightarrow> namespace" where
  "link p i ns = ns\<lparr>ns_children := fmupd p (insort_insert i (kids ns p)) (ns_children ns)\<rparr>"

definition delete_item :: "string \<Rightarrow> namespace \<Rightarrow> cloud_change list \<times> namespace" where
  "delete_item i ns =
     (case fmlookup (ns_nodes ns) i of
        None \<Rightarrow> ([], (forget_waiters i ns)\<lparr>ns_problems := fmdrop i (ns_problems ns)\<rparr>)
      | Some nd \<Rightarrow>
          let doomed = collect_ids ns i;
              out = concat (map (removal ns) doomed) @ removal ns i;
              ns1 = drop_node i (fold drop_node doomed ns);
              ns2 = unlink (nd_parent nd) i ns1
          in (out, if ns_root ns2 = Some i then ns2\<lparr>ns_root := None\<rparr> else ns2))"

text \<open>Why a name cannot be a path component.\<close>

definition bad_name :: "string \<Rightarrow> string option" where
  "bad_name name =
     (if name = [] then Some ''empty''
      else if slash \<in> set name then Some ''contains a path separator''
      else if CHR 0x00 \<in> set name then Some ''contains NUL''
      else if name = ''.'' \<or> name = ''..'' then Some ''is a directory reference''
      else if is_internal name then Some ''is one of the framework's own names''
      else None)"

fun same_shape :: "kind \<Rightarrow> kind \<Rightarrow> bool" where
  "same_shape (KFile _ _) (KFile _ _) = True"
| "same_shape (KFolder _) (KFolder _) = True"
| "same_shape KOpaque KOpaque = True"
| "same_shape _ _ = False"

definition is_file :: "kind \<Rightarrow> bool" where
  "is_file k = (case k of KFile _ _ \<Rightarrow> True | _ \<Rightarrow> False)"

text \<open>The part of \<open>upsert\<close> from the look at the previous node to the insertion of the new one.\<close>

definition attach :: "string \<Rightarrow> string \<Rightarrow> string \<Rightarrow> kind \<Rightarrow> namespace \<Rightarrow> cloud_change list \<times> namespace" where
  "attach i parent name k ns =
     (let previous = fmlookup (ns_nodes ns) i;
          reshaped = (case previous of Some prev \<Rightarrow> \<not> same_shape (nd_kind prev) k | None \<Rightarrow> False);
          (out, ns1) = (if reshaped then delete_item i ns else ([], ns));
          ns2 = (case previous of Some prev \<Rightarrow> unlink (nd_parent prev) i ns1 | None \<Rightarrow> ns1);
          ns3 = link parent i ns2
      in (out, ns3\<lparr>ns_nodes := fmupd i \<lparr>nd_parent = Some parent, nd_name = name, nd_kind = k\<rparr> (ns_nodes ns3),
                   ns_problems := fmdrop i (ns_problems ns3)\<rparr>))"

text \<open>What is said of it: \<open>ns\<close> is the tree before and \<open>ns'\<close> the tree after.\<close>

definition upsert_news :: "string \<Rightarrow> string \<Rightarrow> string \<Rightarrow> kind \<Rightarrow> namespace \<Rightarrow> namespace \<Rightarrow> cloud_change list" where
  "upsert_news i parent name k ns ns' =
     (let nd = \<lparr>nd_parent = Some parent, nd_name = name, nd_kind = k\<rparr>
      in case k of
           KFile _ _ \<Rightarrow> say_place ns' i nd
         | KFolder _ \<Rightarrow>
             (case fmlookup (ns_nodes ns) i of
                None \<Rightarrow> say_place ns' i nd
              | Some prev \<Rightarrow>
                  let moved = (nd_parent prev \<noteq> Some parent \<or> nd_name prev \<noteq> name);
                      reshaped = \<not> same_shape (nd_kind prev) k
                  in if moved \<or> reshaped then collect_descendants ns' i (say_place ns' i nd)
                     else if nd_kind prev \<noteq> k then say_place ns' i nd else [])
         | KOpaque \<Rightarrow> [])"

definition upsert :: "string \<Rightarrow> string \<Rightarrow> string \<Rightarrow> kind \<Rightarrow> namespace \<Rightarrow> string option \<times> cloud_change list \<times> namespace" where
  "upsert i parent name k ns =
     (case bad_name name of
        Some why \<Rightarrow> (None, [], refuse i (BadName why) ns)
      | None \<Rightarrow>
          (case fmlookup (ns_nodes ns) parent of
             None \<Rightarrow> (None, [], ns\<lparr>ns_waiting := hold parent (Upsert i parent name k) (ns_waiting ns)\<rparr>)
           | Some pn \<Rightarrow>
               if is_file (nd_kind pn) then (None, [], refuse i ParentCannotContain ns)
               else if would_cycle ns i parent then (None, [], refuse i Cycle ns)
               else (case attach i parent name k ns of
                       (out, ns') \<Rightarrow> (Some i, out @ upsert_news i parent name k ns ns', ns'))))"

definition root_node :: remote_node where
  "root_node = \<lparr>nd_parent = None, nd_name = [], nd_kind = KFolder None\<rparr>"

fun apply_one :: "remote_item \<Rightarrow> namespace \<Rightarrow> string option \<times> cloud_change list \<times> namespace" where
  "apply_one (Root i) ns =
     (if ns_root ns \<noteq> None \<and> ns_root ns \<noteq> Some i
      then (None, [], ns\<lparr>ns_problems := fmupd i ForeignRoot (ns_problems ns)\<rparr>)
      else (Some i, [FolderUpserted i [] None],
            ns\<lparr>ns_root := Some i, ns_nodes := fmupd i root_node (ns_nodes ns)\<rparr>))"
| "apply_one (Upsert i parent name k) ns = upsert i parent name k ns"
| "apply_one (Delete i) ns = (case delete_item i ns of (out, ns') \<Rightarrow> (None, out, ns'))"

section \<open>A whole item, with what it unblocks\<close>

lemma held_count_forget: "held_count (forget_loop st w) \<le> held_count w"
proof (induction st w rule: forget_loop.induct)
  case (2 cur st w)
  show ?case
  proof (cases "fmlookup w cur")
    case None
    then show ?thesis using 2(1) held_count_settle [of cur w] by (simp add: order_trans)
  next
    case (Some held)
    then show ?thesis
      using 2(2) [OF Some] held_count_settle [of cur "fmdrop cur w"] held_count_drop [OF Some] by simp
  qed
qed simp

lemma held_count_forget_waiters [simp]: "held_count (ns_waiting (forget_waiters i ns)) \<le> held_count (ns_waiting ns)"
  using held_count_forget [of "[i]" "ns_waiting ns"] by (simp add: forget_waiters_def)

lemma held_count_drop_node: "held_count (ns_waiting (drop_node g ns)) \<le> held_count (ns_waiting ns)"
  using held_count_forget [of "[g]" "ns_waiting ns"] by (simp add: drop_node_def forget_waiters_def)

lemma held_count_drop_nodes: "held_count (ns_waiting (fold drop_node gs ns)) \<le> held_count (ns_waiting ns)"
proof (induction gs arbitrary: ns)
  case (Cons g gs)
  then show ?case using order_trans [OF Cons.IH held_count_drop_node] by simp
qed simp

lemma waiting_links [simp]:
  "ns_waiting (unlink p i ns) = ns_waiting ns" "ns_waiting (link q i ns) = ns_waiting ns"
  by (simp_all add: unlink_def link_def split: option.splits)

lemma held_count_delete: "held_count (ns_waiting (snd (delete_item i ns))) \<le> held_count (ns_waiting ns)"
  using order_trans [OF held_count_drop_node held_count_drop_nodes]
  by (auto simp: delete_item_def Let_def split: option.splits)

lemma waiting_attach:
  "ns_waiting (snd (attach i parent name k ns)) = ns_waiting ns \<or>
   ns_waiting (snd (attach i parent name k ns)) = ns_waiting (snd (delete_item i ns))"
  by (auto simp: attach_def Let_def split: option.splits prod.splits)

lemma held_count_attach: "held_count (ns_waiting (snd (attach i parent name k ns))) \<le> held_count (ns_waiting ns)"
  using waiting_attach [of i parent name k ns] held_count_delete [of i ns] by auto

lemma held_count_refuse_loop: "held_count (fst (refuse_loop st why w ps)) \<le> held_count w"
proof (induction st why w ps rule: refuse_loop.induct)
  case (2 cur st why w ps)
  show ?case
  proof (cases "fmlookup w cur")
    case None
    then show ?thesis using 2(1) by simp
  next
    case (Some held)
    then show ?thesis using 2(2) [OF Some] held_count_drop [OF Some] by simp
  qed
qed simp

lemma held_count_refuse: "held_count (ns_waiting (refuse i why ns)) \<le> held_count (ns_waiting ns)"
proof -
  obtain w ps where r: "refuse_loop [i] why (ns_waiting ns) (ns_problems ns) = (w, ps)" by (rule prod.exhaust)
  then have "held_count w \<le> held_count (ns_waiting ns)"
    using held_count_refuse_loop [of "[i]" why "ns_waiting ns" "ns_problems ns"] by simp
  then show ?thesis
    unfolding refuse_def r using order_trans [OF held_count_retain] by simp
qed

lemma apply_one_held:
  assumes "apply_one it ns = (r, out, ns')"
  shows "held_count (ns_waiting ns') \<le> (if r = None then Suc else id) (held_count (ns_waiting ns))"
proof (cases it)
  case (Root i)
  then show ?thesis using assms by (auto split: if_split_asm)
next
  case (Upsert i parent name k)
  have u: "upsert i parent name k ns = (r, out, ns')" using assms Upsert by simp
  consider why where "r = None" "ns' = refuse i why ns" | "r = None" "ns' = ns\<lparr>ns_waiting := hold parent it (ns_waiting ns)\<rparr>"
    | "r \<noteq> None" "ns' = snd (attach i parent name k ns)"
    using u Upsert unfolding upsert_def by (auto split: option.splits if_split_asm prod.splits)
  then show ?thesis
  proof cases
    case 1
    then show ?thesis using held_count_refuse [of i why ns] by simp
  next
    case 2
    then show ?thesis by (simp add: held_count_hold)
  next
    case 3
    then show ?thesis using held_count_attach [of i parent name k ns] by auto
  qed
next
  case (Delete i)
  then show ?thesis using assms held_count_delete [of i ns] by (auto split: prod.splits)
qed

lemma unblocked_less:
  assumes "apply_one it ns = (Some i, out, ns')" "fmlookup (ns_waiting ns') i = Some b"
  shows "held_count (fmdrop i (ns_waiting ns')) + length b \<le> held_count (ns_waiting ns)"
  using apply_one_held [OF assms(1)] held_count_drop [OF assms(2)] by simp

function apply_loop :: "remote_item list \<Rightarrow> namespace \<Rightarrow> cloud_change list \<Rightarrow> cloud_change list \<times> namespace" where
  "apply_loop [] ns out = (out, ns)"
| "apply_loop (next # work) ns out =
     (case apply_one next ns of
        (None, news, ns') \<Rightarrow> apply_loop work ns' (out @ news)
      | (Some i, news, ns') \<Rightarrow>
          (case fmlookup (ns_waiting ns') i of
             None \<Rightarrow> apply_loop work ns' (out @ news)
           | Some unblocked \<Rightarrow>
               apply_loop (rev unblocked @ work) (ns'\<lparr>ns_waiting := fmdrop i (ns_waiting ns')\<rparr>) (out @ news)))"
  by pat_completeness auto

termination
proof (relation "measures [\<lambda>(work, ns, _). held_count (ns_waiting ns) + length work, \<lambda>(work, _, _). length work]",
    goal_cases)
  case 1
  show ?case by simp
next
  case (2 it work ns out x y news ns')
  then have "apply_one it ns = (None, news, ns')" by simp
  from apply_one_held [OF this] show ?case by auto
next
  case (3 it work ns out x y i news ns')
  then have "apply_one it ns = (Some i, news, ns')" by simp
  from apply_one_held [OF this] show ?case by simp
next
  case (4 it work ns out x y i news ns' unblocked)
  then have "apply_one it ns = (Some i, news, ns')" by simp
  from unblocked_less [OF this] 4 show ?case by simp
qed

text \<open>\<open>finalise\<close>: the last change of each object and class, removals first, parents before children.\<close>

definition class_of :: "cloud_change \<Rightarrow> nat" where
  "class_of c =
     (case c of Removed _ \<Rightarrow> 0 | FolderRemoved _ _ \<Rightarrow> 1 | Upserted _ _ _ _ \<Rightarrow> 2 | FolderUpserted _ _ _ \<Rightarrow> 3)"

definition path_key :: "cloud_change \<Rightarrow> string" where
  "path_key c =
     (case c of Upserted _ p _ _ \<Rightarrow> p | FolderUpserted _ p _ \<Rightarrow> p | FolderRemoved _ p \<Rightarrow> p | Removed i \<Rightarrow> i)"

definition slashes :: "string \<Rightarrow> nat" where
  "slashes p = length (filter (\<lambda>c. c = slash) p)"

definition order_of :: "cloud_change \<Rightarrow> nat \<times> nat" where
  "order_of c =
     (case c of
        Removed _ \<Rightarrow> (0, 0)
      | FolderRemoved _ p \<Rightarrow> (1, 2 ^ 64 - 1 - slashes p)
      | Upserted _ p _ _ \<Rightarrow> (2, slashes p + (if p = [] then 0 else 1))
      | FolderUpserted _ p _ \<Rightarrow> (2, slashes p + (if p = [] then 0 else 1)))"

abbreviation change_key :: "cloud_change \<Rightarrow> string \<times> nat" where
  "change_key c \<equiv> (ch_id c, class_of c)"

text \<open>A change is kept when no later one has its key.\<close>

fun keep_last :: "cloud_change list \<Rightarrow> cloud_change list" where
  "keep_last [] = []"
| "keep_last (c # cs) = (if change_key c \<in> change_key ` set cs then keep_last cs else c # keep_last cs)"

definition finalise :: "cloud_change list \<Rightarrow> cloud_change list" where
  "finalise cs = sort_key (\<lambda>c. (order_of c, path_key c)) (keep_last cs)"

definition apply_item :: "remote_item \<Rightarrow> namespace \<Rightarrow> cloud_change list \<times> namespace" where
  "apply_item it ns = (case apply_loop [it] ns [] of (out, ns') \<Rightarrow> (finalise out, ns'))"

section \<open>Listings and snapshots\<close>

definition listing :: "namespace \<Rightarrow> cloud_change list" where
  "listing ns = (case ns_root ns of None \<Rightarrow> [] | Some r \<Rightarrow> finalise (collect_tree ns r []))"

function snapshot_loop :: "namespace \<Rightarrow> string list \<Rightarrow> string set \<Rightarrow> remote_item list \<Rightarrow> remote_item list" where
  "snapshot_loop ns [] seen out = out"
| "snapshot_loop ns (cur # queue) seen out =
     (if cur \<in> seen then snapshot_loop ns queue seen out
      else let ks = filter (\<lambda>k. fmlookup (ns_nodes ns) k \<noteq> None) (kids ns cur)
           in snapshot_loop ns (queue @ ks) (insert cur seen)
                (out @ map (\<lambda>k. case the (fmlookup (ns_nodes ns) k) of nd \<Rightarrow> Upsert k cur (nd_name nd) (nd_kind nd)) ks))"
  by pat_completeness auto

termination
proof (relation "measures [\<lambda>(ns, q, seen, _). to_see ns q seen, \<lambda>(_, q, _). length q]", goal_cases)
  case (3 ns cur queue seen out ks)
  have "to_see ns (queue @ ks) (insert cur seen) = to_see ns (ks @ queue) (insert cur seen)"
    by (simp add: to_see_def Un_commute)
  also have "\<dots> < to_see ns (cur # queue) seen"
    using 3 set_kids [of ns cur] by (intro to_see_push) auto
  finally show ?case by simp
qed (simp_all add: to_see_seen)

definition snapshot :: "namespace \<Rightarrow> remote_item list" where
  "snapshot ns = (case ns_root ns of None \<Rightarrow> [] | Some r \<Rightarrow> snapshot_loop ns [r] {} [Root r])"

definition restore :: "remote_item list \<Rightarrow> namespace" where
  "restore items = (fold (\<lambda>it ns. snd (apply_item it ns)) items ns_new)\<lparr>ns_problems := fmempty\<rparr>"

definition pending_ids :: "namespace \<Rightarrow> string list" where
  "pending_ids ns =
     sort (concat (map (\<lambda>k. map it_id (the (fmlookup (ns_waiting ns) k)))
                       (sorted_list_of_set (fset (fmdom (ns_waiting ns))))))"

definition pending_count :: "namespace \<Rightarrow> nat" where
  "pending_count ns = held_count (ns_waiting ns)"

end
