(* ===== verification/Worklist.thy ===== *)
theory Worklist
  imports Main
begin

text \<open>
  The loops of the client that walk a tree with a stack and a set of what was seen: what they visit is
  what the edges reach from the stack without going through the set.
\<close>

inductive reaches :: "('a \<Rightarrow> 'a list) \<Rightarrow> 'a set \<Rightarrow> 'a \<Rightarrow> 'a \<Rightarrow> bool" for succ seen where
  reaches_refl: "x \<notin> seen \<Longrightarrow> reaches succ seen x x"
| reaches_step: "x \<notin> seen \<Longrightarrow> y \<in> set (succ x) \<Longrightarrow> reaches succ seen y z \<Longrightarrow> reaches succ seen x z"

lemma reaches_mono: "reaches succ S x z \<Longrightarrow> T \<subseteq> S \<Longrightarrow> reaches succ T x z"
  by (induction rule: reaches.induct) (auto intro: reaches.intros)

lemma reaches_start: "reaches succ S x z \<Longrightarrow> x \<notin> S"
  by (cases rule: reaches.cases) auto

lemma reaches_end: "reaches succ S x z \<Longrightarrow> z \<notin> S"
  by (induction rule: reaches.induct) auto

lemma reaches_append:
  "reaches succ S x y \<Longrightarrow> z \<in> set (succ y) \<Longrightarrow> z \<notin> S \<Longrightarrow> reaches succ S x z"
  by (induction rule: reaches.induct) (auto intro: reaches.intros)

text \<open>A walk that meets \<open>x\<close> can be cut at its last visit.\<close>

lemma reaches_cut:
  "reaches succ S a z \<Longrightarrow>
     reaches succ (insert x S) a z \<or> z = x \<or> (\<exists>y\<in>set (succ x). reaches succ (insert x S) y z)"
  by (induction rule: reaches.induct) (auto intro: reaches.intros)

definition from_stack :: "('a \<Rightarrow> 'a list) \<Rightarrow> 'a set \<Rightarrow> 'a list \<Rightarrow> 'a set" where
  "from_stack succ S xs = {z. \<exists>x\<in>set xs. reaches succ S x z}"

lemma from_stack_Nil [simp]: "from_stack succ S [] = {}"
  by (simp add: from_stack_def)

lemma from_stack_seen: "x \<in> S \<Longrightarrow> from_stack succ S (x # xs) = from_stack succ S xs"
  by (auto simp: from_stack_def dest: reaches_start)

lemma from_stack_new:
  assumes "x \<notin> S" "set ys = set (succ x)"
  shows "from_stack succ S (x # xs) = insert x (from_stack succ (insert x S) (ys @ xs))"
proof
  show "from_stack succ S (x # xs) \<subseteq> insert x (from_stack succ (insert x S) (ys @ xs))"
  proof
    fix z
    assume "z \<in> from_stack succ S (x # xs)"
    then obtain a where a: "a \<in> set (x # xs)" "reaches succ S a z" by (auto simp: from_stack_def)
    from reaches_cut [OF a(2), of x] a(1) assms(2) show "z \<in> insert x (from_stack succ (insert x S) (ys @ xs))"
      by (auto simp: from_stack_def dest: reaches_start)
  qed
next
  show "insert x (from_stack succ (insert x S) (ys @ xs)) \<subseteq> from_stack succ S (x # xs)"
    using assms by (auto simp: from_stack_def intro: reaches.intros reaches_mono)
qed

lemma from_stack_disjoint: "z \<in> from_stack succ S xs \<Longrightarrow> z \<notin> S"
  by (auto simp: from_stack_def dest: reaches_end)

lemma from_stack_append [simp]: "from_stack succ S (xs @ ys) = from_stack succ S xs \<union> from_stack succ S ys"
  by (auto simp: from_stack_def)

end
