(* ===== verification/Namespace_Tree.thy ===== *)
theory Namespace_Tree
  imports Namespace Worklist
begin

text \<open>
  What makes the tracker of the remote tree correct: the tree stays a tree, every change it emits is
  true of the tree after the item, and the changes of an item turn a listing from before it into one
  from after it.
\<close>

section \<open>The loops that walk down\<close>

definition say :: "namespace \<Rightarrow> string \<Rightarrow> cloud_change list" where
  "say ns x = (case fmlookup (ns_nodes ns) x of None \<Rightarrow> [] | Some nd \<Rightarrow> say_place ns x nd)"

lemma collect_ids_out: "collect_ids_loop ns st seen (pre @ out) = pre @ collect_ids_loop ns st seen out"
  by (induction ns st seen out rule: collect_ids_loop.induct) simp_all

lemma collect_ids_loop_visits:
  "set (collect_ids_loop ns st seen out) = set out \<union> from_stack (kids ns) seen st \<and>
   (distinct out \<and> set out \<subseteq> seen \<longrightarrow> distinct (collect_ids_loop ns st seen out))"
proof (induction ns st seen out rule: collect_ids_loop.induct)
  case (2 ns cur st seen out)
  show ?case
  proof (cases "cur \<in> seen")
    case False
    then show ?thesis
      using 2(2) [OF False] from_stack_new [OF False, of "rev (kids ns cur)" "kids ns" st] by auto
  qed (use 2(1) in \<open>simp add: from_stack_seen\<close>)
qed simp

text \<open>In a tree without packages whose links lead to nodes the walk that emits is the walk that collects.\<close>

definition plain :: "namespace \<Rightarrow> bool" where
  "plain ns \<longleftrightarrow>
     (\<forall>i nd. fmlookup (ns_nodes ns) i = Some nd \<longrightarrow> nd_kind nd \<noteq> KOpaque) \<and>
     (\<forall>p b it. fmlookup (ns_waiting ns) p = Some b \<longrightarrow> it \<in> set b \<longrightarrow>
        (\<forall>i q n. it \<noteq> Upsert i q n KOpaque))"

definition linked :: "namespace \<Rightarrow> bool" where
  "linked ns \<longleftrightarrow> (\<forall>p. set (kids ns p) \<subseteq> fset (fmdom (ns_nodes ns)))"

lemma collect_tree_is_collect_ids:
  assumes "plain ns" "linked ns"
  shows "set st \<subseteq> fset (fmdom (ns_nodes ns)) \<Longrightarrow>
    collect_tree_loop ns st seen (pre @ concat (map (say ns) out)) =
      pre @ concat (map (say ns) (collect_ids_loop ns st seen out))"
  using assms
proof (induction ns st seen out rule: collect_ids_loop.induct)
  case (2 ns cur st seen out)
  then obtain nd where nd: "fmlookup (ns_nodes ns) cur = Some nd" by (auto simp: fmlookup_dom_iff)
  then have "nd_kind nd \<noteq> KOpaque" using 2(4) unfolding plain_def by blast
  moreover have "set (kids ns cur) \<subseteq> fset (fmdom (ns_nodes ns))" using 2(5) unfolding linked_def by blast
  ultimately show ?case
    using 2(1,2) 2(3) [unfolded list.set] 2(4,5) nd by (auto simp: say_def)
qed simp

lemma collect_descendants_is:
  assumes "plain ns" "linked ns"
  shows "\<exists>ids. collect_descendants ns i out = out @ concat (map (say ns) ids) \<and>
    set ids = from_stack (kids ns) {} (kids ns i)"
proof -
  have "\<exists>ids. fold (collect_tree ns) xs out = out @ concat (map (say ns) ids) \<and>
      set ids = from_stack (kids ns) {} xs" if "set xs \<subseteq> fset (fmdom (ns_nodes ns))" for xs
    using that
  proof (induction xs arbitrary: out)
    case (Cons x xs)
    define first where "first = collect_ids_loop ns [x] {} []"
    have "collect_tree ns x out = out @ concat (map (say ns) first)"
      using collect_tree_is_collect_ids [OF assms, of "[x]" "{}" out "[]"] Cons.prems
      by (simp add: collect_tree_def first_def)
    moreover have "set first = from_stack (kids ns) {} [x]"
      using collect_ids_loop_visits [of ns "[x]" "{}" "[]"] by (simp add: first_def)
    moreover obtain ids where "fold (collect_tree ns) xs (out @ concat (map (say ns) first)) =
        (out @ concat (map (say ns) first)) @ concat (map (say ns) ids)"
      "set ids = from_stack (kids ns) {} xs"
      using Cons by (meson set_subset_Cons subset_trans)
    ultimately have "fold (collect_tree ns) (x # xs) out = out @ concat (map (say ns) (first @ ids)) \<and>
        set (first @ ids) = from_stack (kids ns) {} ([x] @ xs)"
      by (simp del: append_Cons)
    then show ?case by (metis append_Cons append_Nil)
  qed simp
  then show ?thesis using assms(2) by (simp add: collect_descendants_def linked_def)
qed

section \<open>Places\<close>

text \<open>The names from the root to a node, and descent.\<close>

inductive located :: "(string, remote_node) fmap \<Rightarrow> string \<Rightarrow> string list \<Rightarrow> bool" for nodes where
  located_root: "fmlookup nodes i = Some nd \<Longrightarrow> nd_parent nd = None \<Longrightarrow> located nodes i []"
| located_child: "fmlookup nodes i = Some nd \<Longrightarrow> nd_parent nd = Some p \<Longrightarrow> located nodes p ns \<Longrightarrow>
    located nodes i (ns @ [nd_name nd])"

inductive_cases locatedE: "located nodes i names"

inductive below :: "(string, remote_node) fmap \<Rightarrow> string \<Rightarrow> string \<Rightarrow> bool" for nodes a where
  below_refl: "below nodes a a"
| below_child: "fmlookup nodes i = Some nd \<Longrightarrow> nd_parent nd = Some p \<Longrightarrow> below nodes a p \<Longrightarrow> below nodes a i"

inductive_cases belowE: "below nodes a i"

lemma located_functional: "located nodes i a \<Longrightarrow> located nodes i b \<Longrightarrow> a = b"
proof (induction arbitrary: b rule: located.induct)
  case (located_root i nd)
  from located_root(3) show ?case by (rule locatedE) (use located_root in simp_all)
next
  case (located_child i nd p ns)
  from located_child(5) show ?case
  proof (rule locatedE)
    fix nd' p' ns'
    assume "b = ns' @ [nd_name nd']" "fmlookup nodes i = Some nd'" "nd_parent nd' = Some p'" "located nodes p' ns'"
    moreover from this have "nd' = nd" "p' = p" using located_child(1,2) by simp_all
    ultimately show ?thesis using located_child(4) by blast
  qed (use located_child(1,2) in simp)
qed

lemma located_node: "located nodes i names \<Longrightarrow> \<exists>nd. fmlookup nodes i = Some nd"
  by (auto elim: locatedE)

lemma below_trans: "below nodes b c \<Longrightarrow> below nodes a b \<Longrightarrow> below nodes a c"
  by (induction rule: below.induct) (auto intro: below.intros)

lemma path_up_located:
  "located nodes i names \<Longrightarrow> path_up n nodes i parts =
     (if length names < n then Some (join_with slash (names @ rev parts)) else None)"
proof (induction arbitrary: n parts rule: located.induct)
  case (located_root i nd)
  then show ?case by (cases n) simp_all
next
  case (located_child i nd p ns)
  then show ?case by (cases n) simp_all
qed

lemma path_of_located:
  "located (ns_nodes ns) i names \<Longrightarrow>
     path_of ns i = (if length names < MAX_DEPTH then Some (join_with slash names) else None)"
  by (simp add: path_of_def path_up_located)

lemma climbs_to_below: "\<not> climbs_to n nodes i cur \<Longrightarrow> \<not> below nodes i cur"
proof (induction n arbitrary: cur)
  case (Suc n)
  show ?case
  proof
    assume "below nodes i cur"
    then show False
    proof (rule belowE)
      fix nd p
      assume "fmlookup nodes cur = Some nd" "nd_parent nd = Some p" "below nodes i p"
      then show False using Suc by (simp split: if_split_asm)
    qed (use Suc.prems in simp)
  qed
qed simp

lemma below_located: "below nodes a z \<Longrightarrow> located nodes a names \<Longrightarrow> \<exists>rest. located nodes z (names @ rest)"
proof (induction rule: below.induct)
  case (below_child i nd p)
  then show ?case by (metis append.assoc located_child)
qed (use append_Nil2 in metis)

lemma below_no_loop: "below nodes i p \<Longrightarrow> fmlookup nodes i = Some nd \<Longrightarrow> nd_parent nd = Some p \<Longrightarrow> located nodes i names \<Longrightarrow> False"
proof -
  assume b: "below nodes i p" and i: "fmlookup nodes i = Some nd" "nd_parent nd = Some p" "located nodes i names"
  from i(3) obtain ps where ps: "located nodes p ps" "names = ps @ [nd_name nd]"
    by (rule locatedE) (use i(1,2) in auto)
  obtain rest where "located nodes p (names @ rest)" using below_located [OF b i(3)] by blast
  then have "names @ rest = ps" using located_functional ps(1) by blast
  then show False using ps(2) by simp
qed

lemma located_below_root: "located nodes i names \<Longrightarrow> \<exists>r nd. fmlookup nodes r = Some nd \<and> nd_parent nd = None \<and> below nodes r i"
  by (induction rule: located.induct) (blast intro: below.intros)+

section \<open>The invariant of the tree\<close>

text \<open>
  Every node is located under the one root, the lists of children are the inverse of the parent links,
  a file has no children and every name can be a component.
\<close>

definition is_tree :: "(string, remote_node) fmap \<Rightarrow> (string \<Rightarrow> string list) \<Rightarrow> string option \<Rightarrow> bool" where
  "is_tree nodes ks root \<longleftrightarrow>
     (\<forall>i nd. fmlookup nodes i = Some nd \<longrightarrow> (\<exists>names. located nodes i names)) \<and>
     (\<forall>p i. i \<in> set (ks p) \<longleftrightarrow> (\<exists>nd. fmlookup nodes i = Some nd \<and> nd_parent nd = Some p)) \<and>
     (\<forall>p. distinct (ks p)) \<and>
     (\<forall>i. root = Some i \<longleftrightarrow> (\<exists>nd. fmlookup nodes i = Some nd \<and> nd_parent nd = None)) \<and>
     (\<forall>i nd. fmlookup nodes i = Some nd \<longrightarrow> nd_parent nd = None \<longrightarrow> nd = root_node) \<and>
     (\<forall>i nd p. fmlookup nodes i = Some nd \<longrightarrow> nd_parent nd = Some p \<longrightarrow>
        bad_name (nd_name nd) = None \<and> (\<forall>pn. fmlookup nodes p = Some pn \<longrightarrow> \<not> is_file (nd_kind pn)))"

definition tree_ok :: "namespace \<Rightarrow> bool" where
  "tree_ok ns \<longleftrightarrow> is_tree (ns_nodes ns) (kids ns) (ns_root ns)"

lemma is_tree_located: "is_tree nodes ks root \<Longrightarrow> fmlookup nodes i = Some nd \<Longrightarrow> \<exists>names. located nodes i names"
  unfolding is_tree_def by blast

lemma is_tree_kids: "is_tree nodes ks root \<Longrightarrow> i \<in> set (ks p) \<longleftrightarrow> (\<exists>nd. fmlookup nodes i = Some nd \<and> nd_parent nd = Some p)"
  unfolding is_tree_def by blast

lemma is_tree_distinct: "is_tree nodes ks root \<Longrightarrow> distinct (ks p)"
  unfolding is_tree_def by blast

lemma is_tree_root: "is_tree nodes ks root \<Longrightarrow> root = Some i \<longleftrightarrow> (\<exists>nd. fmlookup nodes i = Some nd \<and> nd_parent nd = None)"
  unfolding is_tree_def by blast

lemma is_tree_root_node: "is_tree nodes ks root \<Longrightarrow> fmlookup nodes i = Some nd \<Longrightarrow> nd_parent nd = None \<Longrightarrow> nd = root_node"
  unfolding is_tree_def by blast

lemma is_tree_child:
  "is_tree nodes ks root \<Longrightarrow> fmlookup nodes i = Some nd \<Longrightarrow> nd_parent nd = Some p \<Longrightarrow>
     bad_name (nd_name nd) = None \<and> (\<exists>pn. fmlookup nodes p = Some pn \<and> \<not> is_file (nd_kind pn))"
proof -
  assume t: "is_tree nodes ks root" and i: "fmlookup nodes i = Some nd" "nd_parent nd = Some p"
  obtain names where "located nodes i names" using is_tree_located [OF t i(1)] by blast
  then obtain ps where "located nodes p ps" by (rule locatedE) (use i in auto)
  then obtain pn where "fmlookup nodes p = Some pn" using located_node by blast
  then show ?thesis using t i unfolding is_tree_def by blast
qed

lemma is_treeI:
  assumes "\<And>i nd. fmlookup nodes i = Some nd \<Longrightarrow> \<exists>names. located nodes i names"
    and "\<And>p i. i \<in> set (ks p) \<longleftrightarrow> (\<exists>nd. fmlookup nodes i = Some nd \<and> nd_parent nd = Some p)"
    and "\<And>p. distinct (ks p)"
    and "\<And>i. root = Some i \<longleftrightarrow> (\<exists>nd. fmlookup nodes i = Some nd \<and> nd_parent nd = None)"
    and "\<And>i nd. fmlookup nodes i = Some nd \<Longrightarrow> nd_parent nd = None \<Longrightarrow> nd = root_node"
    and "\<And>i nd p. fmlookup nodes i = Some nd \<Longrightarrow> nd_parent nd = Some p \<Longrightarrow>
        bad_name (nd_name nd) = None \<and> (\<forall>pn. fmlookup nodes p = Some pn \<longrightarrow> \<not> is_file (nd_kind pn))"
  shows "is_tree nodes ks root"
  unfolding is_tree_def using assms by blast

subsection \<open>Descent along the lists of children\<close>

lemma reaches_below:
  assumes "is_tree nodes ks root"
  shows "reaches ks {} x z \<longleftrightarrow> below nodes x z"
proof
  show "reaches ks {} x z \<Longrightarrow> below nodes x z"
  proof (induction rule: reaches.induct)
    case (reaches_step x y z)
    then obtain nd where "fmlookup nodes y = Some nd" "nd_parent nd = Some x" using is_tree_kids [OF assms] by blast
    then have "below nodes x y" by (rule below_child) (rule below_refl)
    with reaches_step show ?case using below_trans by blast
  qed (rule below_refl)
next
  show "below nodes x z \<Longrightarrow> reaches ks {} x z"
  proof (induction rule: below.induct)
    case (below_child i nd p)
    then have "i \<in> set (ks p)" using is_tree_kids [OF assms] by blast
    then show ?case using reaches_append [OF below_child(4), of i] by simp
  qed (simp add: reaches_refl)
qed

lemma below_cases:
  assumes "is_tree nodes ks root"
  shows "below nodes i z \<longleftrightarrow> z = i \<or> z \<in> from_stack ks {} (ks i)"
proof -
  have "reaches ks {} i z \<longleftrightarrow> z = i \<or> z \<in> from_stack ks {} (ks i)"
    by (auto simp: from_stack_def intro: reaches.intros elim: reaches.cases)
  then show ?thesis using reaches_below [OF assms] by simp
qed

lemma strictly_below:
  assumes "is_tree nodes ks root" "fmlookup nodes i = Some nd"
  shows "z \<in> from_stack ks {} (ks i) \<longleftrightarrow> below nodes i z \<and> z \<noteq> i"
proof -
  have "i \<notin> from_stack ks {} (ks i)"
  proof
    assume "i \<in> from_stack ks {} (ks i)"
    then obtain k where k: "k \<in> set (ks i)" "below nodes k i"
      using reaches_below [OF assms(1)] by (auto simp: from_stack_def)
    obtain kn where kn: "fmlookup nodes k = Some kn" "nd_parent kn = Some i"
      using is_tree_kids [OF assms(1)] k(1) by blast
    obtain names where "located nodes k names" using is_tree_located [OF assms(1) kn(1)] by blast
    then show False using below_no_loop k(2) kn by blast
  qed
  then show ?thesis using below_cases [OF assms(1)] by blast
qed

lemma below_in_tree:
  "is_tree nodes ks root \<Longrightarrow> fmlookup nodes i = Some nd \<Longrightarrow> below nodes i z \<Longrightarrow> \<exists>zn. fmlookup nodes z = Some zn"
  by (auto elim: belowE)

subsection \<open>A subtree goes\<close>

lemma located_drop:
  "located nodes x names \<Longrightarrow> \<forall>z. z \<in> D \<longrightarrow> below nodes i z \<Longrightarrow> \<forall>z. below nodes i z \<longrightarrow> z \<in> D \<Longrightarrow> x \<notin> D \<Longrightarrow>
     located (fmdrop_set D nodes) x names"
proof (induction rule: located.induct)
  case (located_root x nd)
  then show ?case by (intro located.located_root) simp_all
next
  case (located_child x nd p ns)
  have "p \<notin> D" using located_child below_child by blast
  with located_child show ?case by (intro located.located_child) simp_all
qed

lemma is_tree_drop:
  assumes t: "is_tree nodes ks root" and i: "fmlookup nodes i = Some nd"
    and D: "D = {z. below nodes i z}"
  shows "is_tree (fmdrop_set D nodes)
    (\<lambda>p. if p \<in> D then [] else if nd_parent nd = Some p then remove1 i (ks p) else ks p)
    (if root = Some i then None else root)"
proof (rule is_treeI)
  fix x xn
  assume "fmlookup (fmdrop_set D nodes) x = Some xn"
  then have x: "x \<notin> D" "fmlookup nodes x = Some xn" by (simp_all split: if_split_asm)
  then show "\<exists>names. located (fmdrop_set D nodes) x names"
    using is_tree_located [OF t x(2)] located_drop [of nodes x _ D i] D by blast
next
  fix p x
  have in_D: "x \<in> D \<Longrightarrow> x = i \<or> (\<exists>xn q. fmlookup nodes x = Some xn \<and> nd_parent xn = Some q \<and> q \<in> D)"
    using D by (auto elim: belowE)
  have down: "fmlookup nodes x = Some xn \<Longrightarrow> nd_parent xn = Some q \<Longrightarrow> q \<in> D \<Longrightarrow> x \<in> D" for xn q
    using D below_child by blast
  have iD: "i \<in> D" using D below_refl by blast
  show "x \<in> set (if p \<in> D then [] else if nd_parent nd = Some p then remove1 i (ks p) else ks p) \<longleftrightarrow>
      (\<exists>nd. fmlookup (fmdrop_set D nodes) x = Some nd \<and> nd_parent nd = Some p)"
  proof (cases "p \<in> D")
    case True
    then show ?thesis using down by auto
  next
    case False
    then have "x \<in> D \<Longrightarrow> x \<in> set (ks p) \<Longrightarrow> x = i"
      using in_D is_tree_kids [OF t] by fastforce
    moreover have "i \<in> set (ks p) \<longleftrightarrow> nd_parent nd = Some p" using is_tree_kids [OF t] i by auto
    ultimately show ?thesis
      using False iD is_tree_kids [OF t, of x p] is_tree_distinct [OF t, of p] by (auto simp: set_remove1_eq)
  qed
next
  fix p
  show "distinct (if p \<in> D then [] else if nd_parent nd = Some p then remove1 i (ks p) else ks p)"
    using is_tree_distinct [OF t, of p] by simp
next
  fix x
  have "x \<in> D \<Longrightarrow> fmlookup nodes x = Some xn \<Longrightarrow> nd_parent xn = None \<Longrightarrow> x = i" for xn
    using D by (auto elim: belowE)
  moreover have "i \<in> D" using D below_refl by blast
  moreover have "root = Some x \<longleftrightarrow> (\<exists>xn. fmlookup nodes x = Some xn \<and> nd_parent xn = None)"
    using is_tree_root [OF t] .
  ultimately show "(if root = Some i then None else root) = Some x \<longleftrightarrow>
      (\<exists>xn. fmlookup (fmdrop_set D nodes) x = Some xn \<and> nd_parent xn = None)"
    by (cases "x \<in> D") (auto simp del: not_None_eq)
next
  fix x xn
  assume "fmlookup (fmdrop_set D nodes) x = Some xn" "nd_parent xn = None"
  then show "xn = root_node" using is_tree_root_node [OF t] by (simp split: if_split_asm)
next
  fix x xn p
  assume "fmlookup (fmdrop_set D nodes) x = Some xn" "nd_parent xn = Some p"
  then show "bad_name (nd_name xn) = None \<and> (\<forall>pn. fmlookup (fmdrop_set D nodes) p = Some pn \<longrightarrow> \<not> is_file (nd_kind pn))"
    using is_tree_child [OF t, of x xn p] by (auto split: if_split_asm)
qed

subsection \<open>A node comes, or comes elsewhere\<close>

lemma located_elsewhere:
  "located nodes x names \<Longrightarrow> \<not> below nodes i x \<Longrightarrow> located (fmupd i nd nodes) x names"
proof (induction rule: located.induct)
  case (located_root x xn)
  then have "x \<noteq> i" using below_refl by blast
  with located_root show ?case by (intro located.located_root) simp_all
next
  case (located_child x xn p ns)
  then have "x \<noteq> i" "\<not> below nodes i p" using below_refl below_child by blast+
  with located_child show ?case by (intro located.located_child) simp_all
qed

lemma located_under:
  "below nodes i x \<Longrightarrow> located (fmupd i nd nodes) i names \<Longrightarrow> \<exists>names'. located (fmupd i nd nodes) x names'"
proof (induction rule: below.induct)
  case (below_child x xn p)
  show ?case
  proof (cases "x = i")
    case False
    then have "fmlookup (fmupd i nd nodes) x = Some xn" using below_child(1) by simp
    then show ?thesis using below_child located_child by blast
  qed (use below_child in blast)
qed blast

lemma is_tree_attach:
  assumes t: "is_tree nodes ks root" and p: "fmlookup nodes p = Some pn" "\<not> is_file (nd_kind pn)"
    and nd: "nd_parent nd = Some p" "bad_name (nd_name nd) = None"
    and free: "\<not> below nodes i p" and leaf: "is_file (nd_kind nd) \<Longrightarrow> ks i = []"
    and ks': "\<And>q. set (ks' q) = (if q = p then insert i (set (ks q)) else set (ks q) - {i})" "\<And>q. distinct (ks' q)"
  shows "is_tree (fmupd i nd nodes) ks' root"
proof (rule is_treeI)
  obtain ps where ps: "located nodes p ps" using is_tree_located [OF t p(1)] by blast
  have i: "located (fmupd i nd nodes) i (ps @ [nd_name nd])"
    by (rule located_child [OF _ nd(1) located_elsewhere [OF ps free]]) simp
  fix x xn
  assume "fmlookup (fmupd i nd nodes) x = Some xn"
  then show "\<exists>names. located (fmupd i nd nodes) x names"
    using i is_tree_located [OF t, of x xn] located_elsewhere [of nodes x _ i nd] located_under [of nodes i x nd]
    by (cases "x = i") auto
next
  fix q x
  show "x \<in> set (ks' q) \<longleftrightarrow> (\<exists>xn. fmlookup (fmupd i nd nodes) x = Some xn \<and> nd_parent xn = Some q)"
    using is_tree_kids [OF t, of x q] nd(1) by (auto simp: ks'(1))
next
  fix q
  show "distinct (ks' q)" by (rule ks'(2))
next
  fix x
  have "root \<noteq> Some i"
  proof
    assume "root = Some i"
    then obtain r rn where "fmlookup nodes r = Some rn" "nd_parent rn = None" "below nodes r p"
      using is_tree_located [OF t p(1)] located_below_root by blast
    then show False using is_tree_root [OF t, of r] \<open>root = Some i\<close> free by auto
  qed
  then show "root = Some x \<longleftrightarrow> (\<exists>xn. fmlookup (fmupd i nd nodes) x = Some xn \<and> nd_parent xn = None)"
    using is_tree_root [OF t, of x] nd(1) by auto
next
  fix x xn
  assume "fmlookup (fmupd i nd nodes) x = Some xn" "nd_parent xn = None"
  then show "xn = root_node" using is_tree_root_node [OF t, of x xn] nd(1) by (auto split: if_split_asm)
next
  fix x xn q
  assume x: "fmlookup (fmupd i nd nodes) x = Some xn" "nd_parent xn = Some q"
  have "p \<noteq> i" using free below_refl by blast
  have "\<not> is_file (nd_kind nd)" if "x \<noteq> i" "q = i"
    using that x is_tree_kids [OF t, of x i] leaf by auto
  then show "bad_name (nd_name xn) = None \<and> (\<forall>qn. fmlookup (fmupd i nd nodes) q = Some qn \<longrightarrow> \<not> is_file (nd_kind qn))"
    using x nd p is_tree_child [OF t, of x xn q] \<open>p \<noteq> i\<close> by (auto split: if_split_asm)
qed

section \<open>The operations keep the tree\<close>

lemma tree_fields [simp]:
  "ns_nodes (forget_waiters i ns) = ns_nodes ns" "ns_children (forget_waiters i ns) = ns_children ns"
  "ns_root (forget_waiters i ns) = ns_root ns"
  "ns_nodes (refuse j why ns) = ns_nodes ns" "ns_children (refuse j why ns) = ns_children ns"
  "ns_root (refuse j why ns) = ns_root ns"
  "ns_nodes (unlink q i ns) = ns_nodes ns" "ns_root (unlink q i ns) = ns_root ns"
  "ns_nodes (link p i ns) = ns_nodes ns" "ns_root (link p i ns) = ns_root ns"
  by (simp_all add: forget_waiters_def refuse_def unlink_def link_def split: option.splits prod.splits)

lemma kids_unlink [simp]:
  "kids (unlink q i ns) p = (if q = Some p then remove1 i (kids ns p) else kids ns p)"
  by (auto simp: unlink_def kids_def split: option.splits)

lemma kids_link [simp]: "kids (link p i ns) q = (if q = p then insort_insert i (kids ns p) else kids ns q)"
  by (simp add: link_def kids_def)

lemma kids_cong: "ns_children ns' = ns_children ns \<Longrightarrow> kids ns' = kids ns"
  by (auto simp: kids_def)

lemma kids_ignore [simp]:
  "kids (ns\<lparr>ns_nodes := n\<rparr>) = kids ns" "kids (ns\<lparr>ns_root := r\<rparr>) = kids ns" "kids (ns\<lparr>ns_waiting := w\<rparr>) = kids ns"
  "kids (ns\<lparr>ns_problems := ps\<rparr>) = kids ns" "kids (refuse i why ns) = kids ns" "kids (forget_waiters i ns) = kids ns"
  by (rule kids_cong, simp)+

lemma drop_node_fields [simp]:
  "ns_nodes (drop_node g ns) = fmdrop g (ns_nodes ns)" "ns_root (drop_node g ns) = ns_root ns"
  "kids (drop_node g ns) p = (if p = g then [] else kids ns p)"
  by (simp_all add: drop_node_def kids_def)

lemma drop_nodes_lookup:
  "fmlookup (ns_nodes (fold drop_node gs ns)) x = (if x \<in> set gs then None else fmlookup (ns_nodes ns) x)"
  by (induction gs arbitrary: ns) simp_all

lemma drop_nodes_fields [simp]:
  "ns_nodes (fold drop_node gs ns) = fmdrop_set (set gs) (ns_nodes ns)"
  by (rule fmap_ext) (simp add: drop_nodes_lookup)

lemma drop_nodes_root [simp]: "ns_root (fold drop_node gs ns) = ns_root ns"
  by (induction gs arbitrary: ns) simp_all

lemma drop_nodes_kids [simp]: "kids (fold drop_node gs ns) p = (if p \<in> set gs then [] else kids ns p)"
  by (induction gs arbitrary: ns) simp_all

lemma collect_ids_below:
  assumes "tree_ok ns" "fmlookup (ns_nodes ns) i = Some nd"
  shows "set (collect_ids ns i) = {z. below (ns_nodes ns) i z \<and> z \<noteq> i}" "distinct (collect_ids ns i)"
  using strictly_below [OF assms [unfolded tree_ok_def]] collect_ids_loop_visits [of ns "rev (kids ns i)" "{}" "[]"]
  by (auto simp: collect_ids_def from_stack_def)

lemma delete_item_fields:
  assumes "tree_ok ns" "fmlookup (ns_nodes ns) i = Some nd"
  defines "D \<equiv> {z. below (ns_nodes ns) i z}"
  shows "ns_nodes (snd (delete_item i ns)) = fmdrop_set D (ns_nodes ns)"
    and "kids (snd (delete_item i ns)) =
      (\<lambda>p. if p \<in> D then [] else if nd_parent nd = Some p then remove1 i (kids ns p) else kids ns p)"
    and "ns_root (snd (delete_item i ns)) = (if ns_root ns = Some i then None else ns_root ns)"
proof -
  have D: "D = insert i (set (collect_ids ns i))"
    using collect_ids_below(1) [OF assms(1,2)] below_refl by (auto simp: D_def)
  show "ns_nodes (snd (delete_item i ns)) = fmdrop_set D (ns_nodes ns)"
    unfolding D delete_item_def by (rule fmap_ext) (simp add: Let_def assms(2))
  show "kids (snd (delete_item i ns)) =
      (\<lambda>p. if p \<in> D then [] else if nd_parent nd = Some p then remove1 i (kids ns p) else kids ns p)"
    unfolding D delete_item_def by (auto simp: Let_def assms(2) intro!: ext)
  show "ns_root (snd (delete_item i ns)) = (if ns_root ns = Some i then None else ns_root ns)"
    unfolding delete_item_def by (simp add: Let_def assms(2))
qed

lemma tree_ok_delete: "tree_ok ns \<Longrightarrow> tree_ok (snd (delete_item i ns))"
proof (cases "fmlookup (ns_nodes ns) i")
  case None
  assume "tree_ok ns"
  then show ?thesis by (simp add: delete_item_def None tree_ok_def)
next
  case (Some nd)
  assume t: "tree_ok ns"
  show ?thesis
    unfolding tree_ok_def delete_item_fields [OF t Some]
    by (rule is_tree_drop [OF t [unfolded tree_ok_def] Some]) (rule refl)
qed

lemma below_drop: "below (fmdrop_set D nodes) a z \<Longrightarrow> below nodes a z"
  by (induction rule: below.induct) (auto intro: below.intros split: if_split_asm)

text \<open>The tree to which \<open>attach\<close> adds the node: without the old shape of a reshaped one.\<close>

definition cleared :: "string \<Rightarrow> kind \<Rightarrow> namespace \<Rightarrow> cloud_change list \<times> namespace" where
  "cleared i k ns =
     (case fmlookup (ns_nodes ns) i of
        Some prev \<Rightarrow> if same_shape (nd_kind prev) k then ([], ns) else delete_item i ns
      | None \<Rightarrow> ([], ns))"

lemma attach_fields:
  "fst (attach i p name k ns) = fst (cleared i k ns)"
  "ns_nodes (snd (attach i p name k ns)) =
     fmupd i \<lparr>nd_parent = Some p, nd_name = name, nd_kind = k\<rparr> (ns_nodes (snd (cleared i k ns)))"
  "kids (snd (attach i p name k ns)) =
     kids (link p i (case fmlookup (ns_nodes ns) i of Some prev \<Rightarrow> unlink (nd_parent prev) i (snd (cleared i k ns))
                     | None \<Rightarrow> snd (cleared i k ns)))"
  "ns_root (snd (attach i p name k ns)) = ns_root (snd (cleared i k ns))"
  by (auto simp: attach_def cleared_def Let_def split: option.splits prod.splits)

lemma tree_ok_cleared: "tree_ok ns \<Longrightarrow> tree_ok (snd (cleared i k ns))"
  by (simp add: cleared_def tree_ok_delete split: option.splits)

lemma same_shape_file: "same_shape j k \<Longrightarrow> is_file j = is_file k"
  by (cases j; cases k) (simp_all add: is_file_def)

lemma no_kids_outside:
  assumes "tree_ok ns" "fmlookup (ns_nodes ns) i = None"
  shows "kids ns i = []" "i \<notin> set (kids ns q)"
proof -
  have "x \<notin> set (kids ns i)" for x
    using is_tree_kids [OF assms(1) [unfolded tree_ok_def]] is_tree_child [OF assms(1) [unfolded tree_ok_def]] assms(2)
    by fastforce
  then show "kids ns i = []" by (cases "kids ns i") auto
  show "i \<notin> set (kids ns q)" using is_tree_kids [OF assms(1) [unfolded tree_ok_def]] assms(2) by simp
qed

lemma no_kids_file:
  assumes "tree_ok ns" "fmlookup (ns_nodes ns) i = Some nd" "is_file (nd_kind nd)"
  shows "kids ns i = []"
proof -
  have "x \<notin> set (kids ns i)" for x
    using is_tree_kids [OF assms(1) [unfolded tree_ok_def]] is_tree_child [OF assms(1) [unfolded tree_ok_def]] assms(2,3)
    by fastforce
  then show ?thesis by (cases "kids ns i") auto
qed

text \<open>What is known of the cleared tree: its nodes, and where the node to come is still linked.\<close>

lemma cleared_facts:
  assumes t: "tree_ok ns" and free: "\<not> below (ns_nodes ns) i p" and p: "fmlookup (ns_nodes ns) p = Some pn"
  shows "fmlookup (ns_nodes (snd (cleared i k ns))) p = Some pn"
    and "\<not> below (ns_nodes (snd (cleared i k ns))) i p"
    and "is_file k \<Longrightarrow> kids (snd (cleared i k ns)) i = []"
    and "i \<in> set (kids (snd (cleared i k ns)) q) \<Longrightarrow>
      \<exists>prev. fmlookup (ns_nodes ns) i = Some prev \<and> nd_parent prev = Some q"
proof -
  let ?N = "ns_nodes ns" and ?ns1 = "snd (cleared i k ns)"
  have *: "ns_nodes ?ns1 = ?N \<and> kids ?ns1 = kids ns \<or>
      (\<exists>nd. fmlookup ?N i = Some nd \<and> ns_nodes ?ns1 = fmdrop_set {z. below ?N i z} ?N \<and>
         kids ?ns1 i = [] \<and> (\<forall>q. set (kids ?ns1 q) \<subseteq> set (kids ns q)))"
  proof (cases "fmlookup ?N i")
    case (Some nd)
    then show ?thesis
      using delete_item_fields [OF t Some] below_refl [of ?N i] set_remove1_subset
      by (auto simp: cleared_def)
  qed (simp add: cleared_def)
  then show "fmlookup (ns_nodes ?ns1) p = Some pn" using free p by auto
  show "\<not> below (ns_nodes ?ns1) i p" using * free below_drop by auto
  show "i \<in> set (kids ?ns1 q) \<Longrightarrow> \<exists>prev. fmlookup ?N i = Some prev \<and> nd_parent prev = Some q"
  proof -
    assume "i \<in> set (kids ?ns1 q)"
    moreover have "set (kids ?ns1 q) \<subseteq> set (kids ns q)" using * by (elim disjE) (simp, blast)
    ultimately have "i \<in> set (kids ns q)" by (rule rev_subsetD)
    then show "\<exists>prev. fmlookup ?N i = Some prev \<and> nd_parent prev = Some q"
      by (simp add: is_tree_kids [OF t [unfolded tree_ok_def]])
  qed
  assume leaf: "is_file k"
  show "kids ?ns1 i = []"
  proof (cases "fmlookup ?N i")
    case None
    then show ?thesis using no_kids_outside(1) [OF t] by (simp add: cleared_def)
  next
    case (Some prev)
    then show ?thesis
      using no_kids_file [OF t Some] same_shape_file [of "nd_kind prev" k] leaf delete_item_fields(2) [OF t Some]
        below_refl [of ?N i]
      by (simp add: cleared_def)
  qed
qed

lemma tree_ok_attach:
  assumes t: "tree_ok ns" and p: "fmlookup (ns_nodes ns) p = Some pn" "\<not> is_file (nd_kind pn)"
    and name: "bad_name name = None" and free: "\<not> below (ns_nodes ns) i p"
  shows "tree_ok (snd (attach i p name k ns))"
proof -
  let ?ns1 = "snd (cleared i k ns)"
  let ?ks = "kids (snd (attach i p name k ns))"
  note f = cleared_facts [OF t free p(1), of k]
  have t1: "is_tree (ns_nodes ?ns1) (kids ?ns1) (ns_root ?ns1)"
    using tree_ok_cleared [OF t] by (simp add: tree_ok_def)
  have ks: "?ks q = (let old = (case fmlookup (ns_nodes ns) i of Some prev \<Rightarrow>
        if nd_parent prev = Some q then remove1 i (kids ?ns1 q) else kids ?ns1 q | None \<Rightarrow> kids ?ns1 q)
      in if q = p then insort_insert i old else old)" for q
    by (simp add: attach_fields split: option.splits)
  have "set (?ks q) = (if q = p then insert i (set (kids ?ns1 q)) else set (kids ?ns1 q) - {i})" for q
    using f(4) [of q] is_tree_distinct [OF t1, of q]
    by (auto simp: ks Let_def set_insort_insert set_remove1_eq split: option.splits)
  moreover have "distinct (?ks q)" for q
    using is_tree_distinct [OF t1, of q] by (auto simp: ks Let_def intro: distinct_insort_insert split: option.splits)
  ultimately show ?thesis
    unfolding tree_ok_def attach_fields(2,4) using f(3) by (intro is_tree_attach [OF t1 f(1) p(2) _ _ f(2)]) (simp_all add: name)
qed

lemma no_root_no_nodes:
  assumes "tree_ok ns" "ns_root ns = None"
  shows "ns_nodes ns = fmempty" "kids ns p = []"
proof -
  note t = assms(1) [unfolded tree_ok_def]
  have none: "fmlookup (ns_nodes ns) i = None" for i
  proof (rule ccontr)
    assume "fmlookup (ns_nodes ns) i \<noteq> None"
    then obtain r rn where "fmlookup (ns_nodes ns) r = Some rn" "nd_parent rn = None"
      using is_tree_located [OF t] located_below_root by blast
    then have "ns_root ns = Some r" using is_tree_root [OF t] by blast
    then show False using assms(2) by simp
  qed
  then show "ns_nodes ns = fmempty" by (intro fmap_ext) simp
  have "x \<notin> set (kids ns p)" for x using none is_tree_kids [OF t] by auto
  then show "kids ns p = []" by (cases "kids ns p") auto
qed

lemma tree_ok_root:
  assumes "tree_ok ns" "ns_root ns = None \<or> ns_root ns = Some i"
  shows "tree_ok (ns\<lparr>ns_root := Some i, ns_nodes := fmupd i root_node (ns_nodes ns)\<rparr>)"
  using assms(2)
proof
  assume r: "ns_root ns = None"
  have "located (fmupd i root_node fmempty) i []" by (rule located_root [of _ _ root_node]) (simp_all add: root_node_def)
  then show ?thesis
    using no_root_no_nodes [OF assms(1) r]
    by (auto simp: tree_ok_def root_node_def intro!: is_treeI split: if_split_asm)
next
  assume r: "ns_root ns = Some i"
  then obtain nd where nd: "fmlookup (ns_nodes ns) i = Some nd" "nd_parent nd = None"
    using is_tree_root [OF assms(1) [unfolded tree_ok_def]] by blast
  then have "nd = root_node" by (rule is_tree_root_node [OF assms(1) [unfolded tree_ok_def]])
  then have "fmupd i root_node (ns_nodes ns) = ns_nodes ns" using nd(1) by (intro fmap_ext) auto
  then show ?thesis using assms(1) r by (simp add: tree_ok_def)
qed

text \<open>The branches of \<open>upsert\<close>.\<close>

lemma upsert_cases:
  assumes "upsert i p name k ns = (r, out, ns')"
  obtains (refused) why where "r = None" "out = []" "ns' = refuse i why ns"
  | (held) "r = None" "out = []" "ns' = ns\<lparr>ns_waiting := hold p (Upsert i p name k) (ns_waiting ns)\<rparr>"
      "fmlookup (ns_nodes ns) p = None"
  | (attached) pn where "r = Some i" "out = fst (attach i p name k ns) @ upsert_news i p name k ns ns'"
      "ns' = snd (attach i p name k ns)" "fmlookup (ns_nodes ns) p = Some pn" "\<not> is_file (nd_kind pn)"
      "bad_name name = None" "\<not> below (ns_nodes ns) i p"
proof (cases "bad_name name")
  case (Some why)
  then show ?thesis using assms refused [of "BadName why"] by (simp add: upsert_def)
next
  case name: None
  show ?thesis
  proof (cases "fmlookup (ns_nodes ns) p")
    case None
    then show ?thesis using assms name held by (simp add: upsert_def)
  next
    case (Some pn)
    consider "is_file (nd_kind pn)" | "\<not> is_file (nd_kind pn)" "would_cycle ns i p"
      | "\<not> is_file (nd_kind pn)" "\<not> would_cycle ns i p" by blast
    then show ?thesis
    proof cases
      case 3
      obtain first ns1 where a: "attach i p name k ns = (first, ns1)" by (rule prod.exhaust)
      have free: "\<not> below (ns_nodes ns) i p" using 3(2) climbs_to_below unfolding would_cycle_def by blast
      have "r = Some i" "out = first @ upsert_news i p name k ns ns1" "ns' = ns1"
        using assms name Some 3 a by (auto simp: upsert_def)
      with a free name Some 3(1) show ?thesis by (intro attached) simp_all
    next
      case 1
      then show ?thesis using assms name Some refused [of ParentCannotContain] by (simp add: upsert_def)
    next
      case 2
      then show ?thesis using assms name Some refused [of Cycle] by (simp add: upsert_def)
    qed
  qed
qed

lemma tree_ok_refuse [simp]: "tree_ok (refuse i why ns) = tree_ok ns"
  by (simp add: tree_ok_def)

lemma tree_ok_waiting [simp]: "tree_ok (ns\<lparr>ns_waiting := w\<rparr>) = tree_ok ns"
  by (simp add: tree_ok_def)

lemma tree_ok_problems [simp]: "tree_ok (ns\<lparr>ns_problems := w\<rparr>) = tree_ok ns"
  by (simp add: tree_ok_def)

lemma tree_ok_apply_one:
  assumes "tree_ok ns" "apply_one it ns = (r, out, ns')"
  shows "tree_ok ns'"
proof (cases it)
  case (Root i)
  then show ?thesis using assms tree_ok_root [of ns i] by (auto split: if_split_asm)
next
  case (Upsert i p name k)
  then have "upsert i p name k ns = (r, out, ns')" using assms(2) by simp
  then show ?thesis by (cases rule: upsert_cases) (use assms(1) tree_ok_attach in simp_all)
next
  case (Delete i)
  then show ?thesis using assms tree_ok_delete [of ns i] by (auto split: prod.splits)
qed

lemma tree_ok_apply_loop: "tree_ok ns \<Longrightarrow> tree_ok (snd (apply_loop work ns out))"
proof (induction work ns out rule: apply_loop.induct)
  case (2 it work ns out)
  obtain r news ns' where a: "apply_one it ns = (r, news, ns')" by (metis prod.exhaust)
  have ok: "tree_ok ns'" by (rule tree_ok_apply_one [OF 2(4) a])
  show ?case
  proof (cases r)
    case None
    then show ?thesis using 2(1) [OF a [symmetric]] ok a by simp
  next
    case (Some i)
    show ?thesis
    proof (cases "fmlookup (ns_waiting ns') i")
      case None
      then show ?thesis using 2(2) [OF a [symmetric] Some] Some ok a by simp
    next
      case w: (Some b)
      then show ?thesis using 2(3) [OF a [symmetric] Some] Some ok a by simp
    qed
  qed
qed simp

lemma tree_ok_new: "tree_ok ns_new"
  by (auto simp: tree_ok_def ns_new_def kids_def intro!: is_treeI)

lemma snd_apply_item: "snd (apply_item it ns) = snd (apply_loop [it] ns [])"
  unfolding apply_item_def by (simp add: case_prod_beta del: apply_loop.simps)

lemma tree_ok_apply_item: "tree_ok ns \<Longrightarrow> tree_ok (snd (apply_item it ns))"
  unfolding snd_apply_item by (rule tree_ok_apply_loop)

end
