(* ===== verification/Namespace_Mirror.thy ===== *)
theory Namespace_Mirror
  imports Namespace_Tree
begin

text \<open>
  The changes the tracker emits, read by someone who only keeps a map of what was told: for each object
  and shape its path, size and tag.
\<close>

section \<open>The map of what was told\<close>

type_synonym shown = "string \<times> bool \<Rightarrow> (string \<times> u64 \<times> string option) option"

text \<open>The tree as such a map; the flag is true of folders.\<close>

definition view :: "namespace \<Rightarrow> shown" where
  "view ns = (\<lambda>(i, folder).
     case (fmlookup (ns_nodes ns) i, path_of ns i) of
       (Some nd, Some p) \<Rightarrow>
         (case nd_kind nd of
            KFile sz tag \<Rightarrow> if folder then None else Some (p, sz, tag)
          | KFolder tag \<Rightarrow> if folder then Some (p, 0, tag) else None
          | KOpaque \<Rightarrow> None)
     | _ \<Rightarrow> None)"

fun slot :: "cloud_change \<Rightarrow> string \<times> bool" where
  "slot (Upserted i p sz tag) = (i, False)"
| "slot (FolderUpserted i p tag) = (i, True)"
| "slot (Removed i) = (i, False)"
| "slot (FolderRemoved i p) = (i, True)"

fun told :: "cloud_change \<Rightarrow> (string \<times> u64 \<times> string option) option" where
  "told (Upserted i p sz tag) = Some (p, sz, tag)"
| "told (FolderUpserted i p tag) = Some (p, 0, tag)"
| "told (Removed i) = None"
| "told (FolderRemoved i p) = None"

definition mirror :: "cloud_change \<Rightarrow> shown \<Rightarrow> shown" where
  "mirror c m = m(slot c := told c)"

definition tells :: "shown \<Rightarrow> cloud_change \<Rightarrow> bool" where
  "tells v c \<longleftrightarrow> v (slot c) = told c"

lemma mirror_true_changes:
  "\<forall>c\<in>set cs. tells v c \<Longrightarrow> fold mirror cs m k = (if k \<in> slot ` set cs then v k else m k)"
  by (induction cs arbitrary: m) (auto simp: mirror_def tells_def)

text \<open>What \<open>finalise\<close> drops is told again later.\<close>

lemma slot_of_key: "slot c = (\<lambda>(i, n). (i, odd n)) (change_key c)"
  by (cases c) (simp_all add: class_of_def)

lemma keep_last_keys: "change_key ` set (keep_last cs) = change_key ` set cs"
  by (induction cs) auto

lemma keep_last_sub: "set (keep_last cs) \<subseteq> set cs"
  by (induction cs) auto

lemma finalise_slots: "slot ` set (finalise cs) = slot ` set cs"
proof -
  have "slot ` set xs = (\<lambda>(i, n). (i, odd n)) ` change_key ` set xs" for xs
    unfolding image_image by (rule image_cong) (simp_all only: slot_of_key)
  then show ?thesis by (simp only: finalise_def set_sort keep_last_keys)
qed

text \<open>A step from one tree to the next is faithful when all it says is true after it, and all it does not mention is as it was.\<close>

definition faithful :: "shown \<Rightarrow> shown \<Rightarrow> cloud_change list \<Rightarrow> bool" where
  "faithful m v cs \<longleftrightarrow> (\<forall>c\<in>set cs. tells v c) \<and> (\<forall>k. k \<notin> slot ` set cs \<longrightarrow> m k = v k)"

lemma faithful_mirrors: "faithful m v cs \<Longrightarrow> fold mirror (finalise cs) m = v"
proof
  fix k
  assume f: "faithful m v cs"
  have "\<forall>c\<in>set (finalise cs). tells v c"
    using f keep_last_sub [of cs] by (auto simp: faithful_def finalise_def)
  then show "fold mirror (finalise cs) m k = v k"
    using f mirror_true_changes [of "finalise cs" v m k] unfolding faithful_def finalise_slots by metis
qed

lemma faithful_append:
  assumes "faithful m v cs" "faithful v v' ds" "\<forall>c\<in>set cs. tells v' c"
  shows "faithful m v' (cs @ ds)"
  using assms unfolding faithful_def by (auto simp: image_Un)

lemma faithful_refl: "faithful v v []"
  by (simp add: faithful_def)

section \<open>What is said of one node\<close>

lemma view_node:
  "view ns (i, b) = (case fmlookup (ns_nodes ns) i of None \<Rightarrow> None | Some nd \<Rightarrow>
     (case path_of ns i of None \<Rightarrow> None | Some p \<Rightarrow>
       (case nd_kind nd of KFile sz tag \<Rightarrow> if b then None else Some (p, sz, tag)
        | KFolder tag \<Rightarrow> if b then Some (p, 0, tag) else None | KOpaque \<Rightarrow> None)))"
  by (simp add: view_def split: option.splits)

lemma say_place_tells: "fmlookup (ns_nodes ns) i = Some nd \<Longrightarrow> c \<in> set (say_place ns i nd) \<Longrightarrow> tells (view ns) c"
  by (cases "path_of ns i"; cases "nd_kind nd") (simp_all add: say_place_def tells_def view_node)

lemma say_place_id: "c \<in> set (say_place ns i nd) \<Longrightarrow> ch_id c = i"
  by (cases "path_of ns i"; cases "nd_kind nd") (simp_all add: say_place_def)

lemma say_tells: "c \<in> set (say ns i) \<Longrightarrow> tells (view ns) c"
  by (cases "fmlookup (ns_nodes ns) i") (simp_all add: say_def say_place_tells)

lemma say_id: "c \<in> set (say ns i) \<Longrightarrow> ch_id c = i"
  by (cases "fmlookup (ns_nodes ns) i") (simp_all add: say_def say_place_id)

lemma fst_slot: "fst (slot c) = ch_id c"
  by (cases c) simp_all

lemma view_say: "view ns (i, b) \<noteq> None \<Longrightarrow> (i, b) \<in> slot ` set (say ns i)"
  by (auto simp: view_node say_def say_place_def image_iff split: option.splits kind.splits if_splits)

text \<open>A node that is said, and had the same shape before or was not there.\<close>

lemma said_or_same:
  assumes "fmlookup (ns_nodes ns') i = Some nd" "path_of ns' i \<noteq> None"
    and "fmlookup (ns_nodes ns) i = None \<or> (\<exists>old. fmlookup (ns_nodes ns) i = Some old \<and> same_shape (nd_kind old) (nd_kind nd))"
    and "(i, b) \<notin> slot ` set (say ns' i)"
  shows "view ns (i, b) = view ns' (i, b)"
proof -
  obtain p where p: "path_of ns' i = Some p" using assms(2) by blast
  show ?thesis
  proof (cases "fmlookup (ns_nodes ns) i")
    case None
    then have "view ns (i, b) = None" by (simp add: view_node)
    then show ?thesis using view_say [of ns' i b] assms(4) by metis
  next
    case (Some old)
    then have "same_shape (nd_kind old) (nd_kind nd)" using assms(3) by auto
    then show ?thesis
      using assms(1,4) p Some
      by (cases "nd_kind old"; cases "nd_kind nd") (auto simp: view_node say_def say_place_def split: option.splits)
  qed
qed

lemma view_cong:
  "fmlookup (ns_nodes ns') i = fmlookup (ns_nodes ns) i \<Longrightarrow> path_of ns' i = path_of ns i \<Longrightarrow> view ns' (i, b) = view ns (i, b)"
  unfolding view_node by (simp only:)

lemma view_nodes: "ns_nodes ns' = ns_nodes ns \<Longrightarrow> view ns' = view ns"
  unfolding view_def path_of_def by (simp only:)

section \<open>Listings\<close>

lemma plain_linked: "tree_ok ns \<Longrightarrow> linked ns"
  unfolding linked_def tree_ok_def using is_tree_kids by (fastforce simp: fmlookup_dom_iff)

lemma all_below_root:
  assumes "tree_ok ns" "fmlookup (ns_nodes ns) i = Some nd"
  shows "\<exists>r. ns_root ns = Some r \<and> below (ns_nodes ns) r i"
  using is_tree_located [OF assms(1) [unfolded tree_ok_def] assms(2)] located_below_root
    is_tree_root [OF assms(1) [unfolded tree_ok_def]] by blast

lemma listing_faithful:
  assumes "tree_ok ns" "plain ns"
  shows "fold mirror (listing ns) (\<lambda>_. None) = view ns"
proof (cases "ns_root ns")
  case None
  then have "view ns k = None" for k using no_root_no_nodes(1) [OF assms(1)] by (cases k) (simp add: view_node)
  then show ?thesis using None by (auto simp: listing_def)
next
  case (Some r)
  note t = assms(1) [unfolded tree_ok_def]
  obtain rn where rn: "fmlookup (ns_nodes ns) r = Some rn" using is_tree_root [OF t] Some by blast
  define ids where "ids = collect_ids_loop ns [r] {} []"
  have ids: "set ids = {z. below (ns_nodes ns) r z}"
    using collect_ids_loop_visits [of ns "[r]" "{}" "[]"] reaches_below [OF t]
    by (simp add: ids_def from_stack_def)
  have out: "collect_tree ns r [] = concat (map (say ns) ids)"
    using collect_tree_is_collect_ids [OF assms(2) plain_linked [OF assms(1)], of "[r]" "{}" "[]" "[]"] rn
    by (simp add: collect_tree_def ids_def fmdomI)
  have "faithful (\<lambda>_. None) (view ns) (collect_tree ns r [])"
    unfolding faithful_def out
  proof (intro conjI ballI allI impI)
    fix c
    assume "c \<in> set (concat (map (say ns) ids))"
    then show "tells (view ns) c" by (auto intro: say_tells)
  next
    fix k :: "string \<times> bool"
    assume k: "k \<notin> slot ` set (concat (map (say ns) ids))"
    obtain i b where [simp]: "k = (i, b)" by (rule prod.exhaust)
    show "None = view ns k"
    proof (rule ccontr)
      assume v: "None \<noteq> view ns k"
      then obtain nd where "fmlookup (ns_nodes ns) i = Some nd" by (auto simp: view_node split: option.split_asm)
      then have "i \<in> set ids" using all_below_root [OF assms(1)] Some ids by auto
      moreover have "k \<in> slot ` set (say ns i)" using view_say [of ns i b] v by (metis \<open>k = (i, b)\<close>)
      ultimately show False using k by auto
    qed
  qed
  then show ?thesis using Some faithful_mirrors by (simp add: listing_def)
qed

section \<open>Deletions\<close>

lemma path_of_same:
  "located (ns_nodes ns) x names \<Longrightarrow> located (ns_nodes ns') x names \<Longrightarrow> path_of ns' x = path_of ns x"
  by (simp add: path_of_located)

lemma removal_slots:
  "c \<in> set (removal ns x) \<Longrightarrow> ch_id c = x \<and> told c = None \<and>
     (\<exists>nd. fmlookup (ns_nodes ns) x = Some nd \<and> (slot c = (x, True) \<longleftrightarrow> (\<exists>tag. nd_kind nd = KFolder tag)))"
  by (cases "fmlookup (ns_nodes ns) x"; cases "nd_kind (the (fmlookup (ns_nodes ns) x))"; cases "path_of ns x")
     (simp_all add: removal_def)

lemma view_removal: "view ns (x, b) \<noteq> None \<Longrightarrow> (x, b) \<in> slot ` set (removal ns x)"
  by (cases "fmlookup (ns_nodes ns) x"; cases "nd_kind (the (fmlookup (ns_nodes ns) x))"; cases "path_of ns x"; cases b)
     (simp_all add: removal_def view_node)

lemma delete_item_out:
  assumes "fmlookup (ns_nodes ns) i = Some nd"
  shows "fst (delete_item i ns) = concat (map (removal ns) (collect_ids ns i @ [i]))"
  by (simp add: delete_item_def assms Let_def)

lemma delete_unknown:
  "fmlookup (ns_nodes ns) i = None \<Longrightarrow>
     fst (delete_item i ns) = [] \<and> ns_nodes (snd (delete_item i ns)) = ns_nodes ns"
  by (simp add: delete_item_def)

lemma delete_faithful:
  assumes t: "tree_ok ns"
  shows "faithful (view ns) (view (snd (delete_item i ns))) (fst (delete_item i ns))"
    and "\<forall>c\<in>set (fst (delete_item i ns)). told c = None \<and> (\<exists>nd. fmlookup (ns_nodes ns) (ch_id c) = Some nd \<and>
          (slot c = (ch_id c, True) \<longleftrightarrow> (\<exists>tag. nd_kind nd = KFolder tag)))"
    and "\<forall>c\<in>set (fst (delete_item i ns)). fmlookup (ns_nodes (snd (delete_item i ns))) (ch_id c) = None"
proof -
  let ?ns' = "snd (delete_item i ns)"
  have all: "faithful (view ns) (view ?ns') (fst (delete_item i ns)) \<and>
    (\<forall>c\<in>set (fst (delete_item i ns)). told c = None \<and> (\<exists>nd. fmlookup (ns_nodes ns) (ch_id c) = Some nd \<and>
          (slot c = (ch_id c, True) \<longleftrightarrow> (\<exists>tag. nd_kind nd = KFolder tag)))) \<and>
    (\<forall>c\<in>set (fst (delete_item i ns)). fmlookup (ns_nodes ?ns') (ch_id c) = None)"
  proof (cases "fmlookup (ns_nodes ns) i")
    case None
    then have "view ?ns' = view ns" by (intro view_nodes) (simp add: delete_unknown)
    then show ?thesis using None by (simp add: delete_unknown faithful_refl)
  next
    case (Some nd)
    define D where "D = {z. below (ns_nodes ns) i z}"
    have ids: "set (collect_ids ns i @ [i]) = D"
      using collect_ids_below(1) [OF t Some] below_refl [of "ns_nodes ns" i] by (auto simp: D_def)
    have nodes: "ns_nodes ?ns' = fmdrop_set D (ns_nodes ns)"
      using delete_item_fields(1) [OF t Some] by (simp add: D_def)
    have kept: "view ?ns' (x, b) = view ns (x, b)" if "x \<notin> D" for x b
    proof (cases "fmlookup (ns_nodes ns) x")
      case None
      then show ?thesis by (simp add: view_node nodes)
    next
      case (Some xn)
      then obtain names where p: "located (ns_nodes ns) x names"
        using is_tree_located [OF t [unfolded tree_ok_def]] by blast
      have "located (ns_nodes ?ns') x names"
        unfolding nodes by (rule located_drop [OF p _ _ that, of i]) (simp_all add: D_def)
      then have "path_of ?ns' x = path_of ns x" using path_of_same [OF p] by blast
      moreover have "fmlookup (ns_nodes ?ns') x = fmlookup (ns_nodes ns) x" using that by (simp add: nodes)
      ultimately show ?thesis using view_cong by blast
    qed
    have gone: "view ?ns' (x, b) = None" if "x \<in> D" for x b using that by (simp add: view_node nodes)
    have out: "c \<in> set (fst (delete_item i ns)) \<longleftrightarrow> (\<exists>x\<in>D. c \<in> set (removal ns x))" for c
      using ids by (auto simp: delete_item_out [OF Some])
    have "faithful (view ns) (view ?ns') (fst (delete_item i ns))"
      unfolding faithful_def
    proof (intro conjI ballI allI impI)
      fix c
      assume "c \<in> set (fst (delete_item i ns))"
      then obtain x where x: "x \<in> D" "c \<in> set (removal ns x)" using out by blast
      then have "slot c = (x, snd (slot c))" "told c = None"
        using removal_slots [OF x(2)] fst_slot [of c] by (auto simp: prod_eq_iff)
      then show "tells (view ?ns') c" using gone [OF x(1)] by (metis tells_def)
    next
      fix k :: "string \<times> bool"
      assume k: "k \<notin> slot ` set (fst (delete_item i ns))"
      obtain x b where [simp]: "k = (x, b)" by (rule prod.exhaust)
      show "view ns k = view ?ns' k"
      proof (cases "x \<in> D")
        case True
        then have "k \<notin> slot ` set (removal ns x)" using k out by (auto simp: image_iff)
        then have "view ns k = None" using view_removal by (metis \<open>k = (x, b)\<close>)
        then show ?thesis using gone [OF True] by simp
      qed (simp add: kept)
    qed
    moreover have "told c = None \<and> (\<exists>nd. fmlookup (ns_nodes ns) (ch_id c) = Some nd \<and>
          (slot c = (ch_id c, True) \<longleftrightarrow> (\<exists>tag. nd_kind nd = KFolder tag))) \<and> ch_id c \<in> D"
      if "c \<in> set (fst (delete_item i ns))" for c
      using that out removal_slots by metis
    ultimately show ?thesis by (auto simp: nodes)
  qed
  then show "faithful (view ns) (view ?ns') (fst (delete_item i ns))"
    and "\<forall>c\<in>set (fst (delete_item i ns)). told c = None \<and> (\<exists>nd. fmlookup (ns_nodes ns) (ch_id c) = Some nd \<and>
          (slot c = (ch_id c, True) \<longleftrightarrow> (\<exists>tag. nd_kind nd = KFolder tag)))"
    and "\<forall>c\<in>set (fst (delete_item i ns)). fmlookup (ns_nodes ?ns') (ch_id c) = None"
    by blast+
qed

section \<open>Attachments\<close>

lemma cleared_nodes:
  assumes "tree_ok ns"
  shows "fmlookup (ns_nodes (snd (cleared i k ns))) x = fmlookup (ns_nodes ns) x \<or>
    fmlookup (ns_nodes (snd (cleared i k ns))) x = None"
proof (cases "fmlookup (ns_nodes ns) i")
  case (Some nd)
  then show ?thesis using delete_item_fields(1) [OF assms Some] by (simp add: cleared_def)
qed (simp add: cleared_def)

lemma cleared_self:
  assumes "tree_ok ns"
  shows "fmlookup (ns_nodes (snd (cleared i k ns))) i =
    (case fmlookup (ns_nodes ns) i of None \<Rightarrow> None | Some prev \<Rightarrow> if same_shape (nd_kind prev) k then Some prev else None)"
proof (cases "fmlookup (ns_nodes ns) i")
  case (Some nd)
  then show ?thesis using delete_item_fields(1) [OF assms Some] below_refl [of "ns_nodes ns" i] by (simp add: cleared_def)
qed (simp add: cleared_def)

lemma cleared_faithful:
  assumes "tree_ok ns"
  shows "faithful (view ns) (view (snd (cleared i k ns))) (fst (cleared i k ns))"
    and "\<forall>c\<in>set (fst (cleared i k ns)). told c = None \<and> (\<exists>nd. fmlookup (ns_nodes ns) (ch_id c) = Some nd \<and>
          (slot c = (ch_id c, True) \<longleftrightarrow> (\<exists>tag. nd_kind nd = KFolder tag)))"
    and "\<forall>c\<in>set (fst (cleared i k ns)). fmlookup (ns_nodes (snd (cleared i k ns))) (ch_id c) = None"
  using delete_faithful [OF assms, of i] by (simp_all add: cleared_def faithful_refl split: option.split)

lemma join_names_kept:
  assumes t: "tree_ok ns" and x: "fmlookup (ns_nodes ns) x = Some xn" "\<not> below (ns_nodes ns) i x"
  shows "path_of (ns\<lparr>ns_nodes := fmupd i nd (ns_nodes ns)\<rparr>) x = path_of ns x"
proof -
  obtain names where p: "located (ns_nodes ns) x names" using is_tree_located [OF t [unfolded tree_ok_def] x(1)] by blast
  show ?thesis using path_of_same [OF p] located_elsewhere [OF p x(2)] by simp
qed

text \<open>A node that keeps its parent and its name moves nothing.\<close>

lemma located_in_place:
  "located nodes x names \<Longrightarrow> fmlookup nodes i = Some old \<Longrightarrow> nd_parent nd = nd_parent old \<Longrightarrow> nd_name nd = nd_name old \<Longrightarrow>
     located (fmupd i nd nodes) x names"
proof (induction rule: located.induct)
  case (located_root x xn)
  then show ?case by (cases "x = i") (auto intro: located.located_root)
next
  case (located_child x xn p ns)
  show ?case
  proof (cases "x = i")
    case True
    then have "xn = old" using located_child by simp
    then have "located (fmupd i nd nodes) x (ns @ [nd_name nd])"
      using located_child True by (intro located.located_child) simp_all
    then show ?thesis using \<open>xn = old\<close> located_child by simp
  next
    case False
    then show ?thesis using located_child by (intro located.located_child) simp_all
  qed
qed

lemma below_upd: "below nodes i x \<Longrightarrow> below (fmupd i nd nodes) i x"
proof (induction rule: below.induct)
  case (below_child x xn p)
  then show ?case by (cases "x = i") (auto intro: below.intros)
qed (rule below_refl)

text \<open>What \<open>upsert_news\<close> says, whatever its branch.\<close>

lemma upsert_news_is:
  assumes "tree_ok ns'" "plain ns'" "fmlookup (ns_nodes ns') i = Some \<lparr>nd_parent = Some p, nd_name = name, nd_kind = k\<rparr>"
  obtains (quiet) old where "upsert_news i p name k ns ns' = []" "fmlookup (ns_nodes ns) i = Some old"
      "old = \<lparr>nd_parent = Some p, nd_name = name, nd_kind = k\<rparr>"
  | (self) "upsert_news i p name k ns ns' = say ns' i"
      "is_file k \<or> fmlookup (ns_nodes ns) i = None \<or>
       (\<exists>old. fmlookup (ns_nodes ns) i = Some old \<and> nd_parent old = Some p \<and> nd_name old = name \<and> same_shape (nd_kind old) k)"
  | (all) ids where "upsert_news i p name k ns ns' = say ns' i @ concat (map (say ns') ids)"
      "set ids = {x. below (ns_nodes ns') i x \<and> x \<noteq> i}"
proof -
  let ?nd = "\<lparr>nd_parent = Some p, nd_name = name, nd_kind = k\<rparr>"
  have me: "say_place ns' i ?nd = say ns' i" using assms(3) by (simp add: say_def)
  obtain ids where ids: "collect_descendants ns' i (say ns' i) = say ns' i @ concat (map (say ns') ids)"
    "set ids = {x. below (ns_nodes ns') i x \<and> x \<noteq> i}"
    using collect_descendants_is [OF assms(2) plain_linked [OF assms(1)], of i "say ns' i"]
      strictly_below [OF assms(1) [unfolded tree_ok_def] assms(3)] by (auto simp: set_eq_iff)
  have "k \<noteq> KOpaque" using assms(2,3) unfolding plain_def by force
  then consider sz tag where "k = KFile sz tag" | tag where "k = KFolder tag" by (cases k) auto
  then show ?thesis
  proof cases
    case 1
    then show ?thesis using self me by (simp add: upsert_news_def is_file_def)
  next
    case 2
    show ?thesis
    proof (cases "fmlookup (ns_nodes ns) i")
      case None
      then show ?thesis using self me 2 by (simp add: upsert_news_def)
    next
      case (Some old)
      consider "nd_parent old \<noteq> Some p \<or> nd_name old \<noteq> name \<or> \<not> same_shape (nd_kind old) k"
        | "nd_parent old = Some p" "nd_name old = name" "same_shape (nd_kind old) k" "nd_kind old \<noteq> k"
        | "nd_parent old = Some p" "nd_name old = name" "nd_kind old = k" by blast
      then show ?thesis
      proof cases
        case 1
        then have "upsert_news i p name k ns ns' = collect_descendants ns' i (say_place ns' i ?nd)"
          using 2 Some by (auto simp: upsert_news_def Let_def)
        then show ?thesis using all [of ids] ids me by simp
      next
        case moved: 2
        then show ?thesis using self me 2 Some by (auto simp: upsert_news_def Let_def)
      next
        case 3
        then show ?thesis using quiet [of old] 2 Some by (auto simp: upsert_news_def Let_def)
      qed
    qed
  qed
qed

lemma below_start:
  assumes "is_tree nodes ks root" "below nodes i x" "x \<noteq> i"
  shows "\<exists>nd. fmlookup nodes i = Some nd"
  using assms(2,3)
proof (induction rule: below.induct)
  case (below_child x xn p)
  then show ?case using is_tree_child [OF assms(1), of x xn p] by (cases "p = i") auto
qed simp

lemma same_shape_refl [simp]: "same_shape k k"
  by (cases k) simp_all

lemma same_shape_trans: "same_shape j k \<Longrightarrow> same_shape k l \<Longrightarrow> same_shape j l"
  by (cases j; cases k; cases l) simp_all

text \<open>The situation in which \<open>upsert\<close> attaches: \<open>ns1\<close> is the tree without the old shape, \<open>ns'\<close> the result.\<close>

definition attaching ::
  "namespace \<Rightarrow> namespace \<Rightarrow> namespace \<Rightarrow> string \<Rightarrow> string \<Rightarrow> string \<Rightarrow> kind \<Rightarrow> remote_node \<Rightarrow> bool" where
  "attaching ns ns1 ns' i p name k pn \<longleftrightarrow>
     tree_ok ns \<and> plain ns \<and> k \<noteq> KOpaque \<and> fmlookup (ns_nodes ns) p = Some pn \<and> \<not> is_file (nd_kind pn) \<and>
     bad_name name = None \<and> \<not> below (ns_nodes ns) i p \<and>
     ns' = snd (attach i p name k ns) \<and> ns1 = snd (cleared i k ns) \<and>
     (fmlookup (ns_nodes ns) i = None \<or> (\<forall>x. below (ns_nodes ns') i x \<longrightarrow> path_of ns' x \<noteq> None))"

lemma attachingD:
  assumes "attaching ns ns1 ns' i p name k pn"
  shows "tree_ok ns" "plain ns" "k \<noteq> KOpaque" "fmlookup (ns_nodes ns) p = Some pn" "\<not> is_file (nd_kind pn)"
    "bad_name name = None" "\<not> below (ns_nodes ns) i p" "ns' = snd (attach i p name k ns)" "ns1 = snd (cleared i k ns)"
    "fmlookup (ns_nodes ns) i = None \<or> (\<forall>x. below (ns_nodes ns') i x \<longrightarrow> path_of ns' x \<noteq> None)"
  using assms unfolding attaching_def by blast+

lemma at_nodes:
  assumes a: "attaching ns ns1 ns' i p name k pn"
  shows "ns_nodes ns' = fmupd i \<lparr>nd_parent = Some p, nd_name = name, nd_kind = k\<rparr> (ns_nodes ns1)"
  unfolding attachingD(8,9) [OF a] by (rule attach_fields)

lemma at_t1: "attaching ns ns1 ns' i p name k pn \<Longrightarrow> tree_ok ns1"
  using attachingD(9) tree_ok_cleared [OF attachingD(1)] by metis

lemma at_t':
  assumes a: "attaching ns ns1 ns' i p name k pn"
  shows "tree_ok ns'"
  unfolding attachingD(8) [OF a] by (rule tree_ok_attach [OF attachingD(1,4-7) [OF a]])

lemma at_kept:
  assumes a: "attaching ns ns1 ns' i p name k pn"
  shows "x \<noteq> i \<Longrightarrow> \<not> below (ns_nodes ns1) i x \<Longrightarrow> view ns' (x, b) = view ns1 (x, b)"
proof (cases "fmlookup (ns_nodes ns1) x")
  case None
  assume "x \<noteq> i"
  then show ?thesis using None by (simp add: view_node at_nodes [OF a])
next
  case (Some xn)
  assume x: "x \<noteq> i" "\<not> below (ns_nodes ns1) i x"
  have "path_of ns' x = path_of ns1 x"
    using join_names_kept [OF at_t1 [OF a] Some x(2)] by (simp add: path_of_def at_nodes [OF a])
  then show ?thesis using x(1) by (intro view_cong) (simp_all add: at_nodes [OF a])
qed

lemma at_self:
  assumes a: "attaching ns ns1 ns' i p name k pn"
  shows "(i, b) \<notin> slot ` set (say ns' i) \<Longrightarrow> view ns1 (i, b) = view ns' (i, b)"
proof (cases "path_of ns' i")
  case None
  then have "fmlookup (ns_nodes ns) i = None" using attachingD(10) [OF a] below_refl by blast
  then have "fmlookup (ns_nodes ns1) i = None" using cleared_nodes [OF attachingD(1) [OF a], of i k i] by (auto simp: attachingD(9) [OF a])
  then show ?thesis using None by (simp add: view_node split: option.split)
next
  case (Some path)
  assume "(i, b) \<notin> slot ` set (say ns' i)"
  then show ?thesis
    using Some cleared_self [OF attachingD(1) [OF a], of i k]
    by (intro said_or_same) (auto simp: at_nodes [OF a] attachingD(9) [OF a] split: option.splits if_splits)
qed

lemma at_below:
  assumes a: "attaching ns ns1 ns' i p name k pn" and x: "below (ns_nodes ns1) i x" "x \<noteq> i"
  shows "\<exists>old. fmlookup (ns_nodes ns) i = Some old \<and> same_shape (nd_kind old) k \<and> ns1 = ns \<and> path_of ns' x \<noteq> None"
proof -
  obtain old where old: "fmlookup (ns_nodes ns1) i = Some old"
    using below_start [OF at_t1 [OF a, unfolded tree_ok_def] x] by blast
  then have here: "fmlookup (ns_nodes ns) i = Some old \<and> same_shape (nd_kind old) k"
    using cleared_self [OF attachingD(1) [OF a], of i k] by (auto simp: attachingD(9) [OF a] split: option.splits if_splits)
  have "below (ns_nodes ns') i x" unfolding at_nodes [OF a] by (rule below_upd [OF x(1)])
  then have "path_of ns' x \<noteq> None" using attachingD(10) [OF a] here by auto
  then show ?thesis using here by (auto simp: attachingD(9) [OF a] cleared_def)
qed

lemma at_news_faithful:
  assumes a: "attaching ns ns1 ns' i p name k pn"
  shows "plain ns' \<Longrightarrow> faithful (view ns1) (view ns') (upsert_news i p name k ns ns')"
proof -
  assume pl': "plain ns'"
  let ?news = "upsert_news i p name k ns ns'"
  let ?nd = "\<lparr>nd_parent = Some p, nd_name = name, nd_kind = k\<rparr>"
  have me: "fmlookup (ns_nodes ns') i = Some ?nd" by (simp add: at_nodes [OF a])
  have go: "faithful (view ns1) (view ns') ?news"
    if said: "\<exists>ids. ?news = concat (map (say ns') ids)"
      and self: "\<And>b. (i, b) \<notin> slot ` set ?news \<Longrightarrow> view ns1 (i, b) = view ns' (i, b)"
      and rest: "\<And>x b. below (ns_nodes ns1) i x \<Longrightarrow> x \<noteq> i \<Longrightarrow> (x, b) \<notin> slot ` set ?news \<Longrightarrow> view ns1 (x, b) = view ns' (x, b)"
    unfolding faithful_def
  proof (intro conjI ballI allI impI)
    fix c
    assume "c \<in> set ?news"
    then show "tells (view ns') c" using said by (auto intro: say_tells)
  next
    fix s :: "string \<times> bool"
    assume s: "s \<notin> slot ` set ?news"
    obtain x b where s_is: "s = (x, b)" by (rule prod.exhaust)
    consider "x = i" | "below (ns_nodes ns1) i x" "x \<noteq> i" | "\<not> below (ns_nodes ns1) i x" "x \<noteq> i" by blast
    then have "view ns1 (x, b) = view ns' (x, b)"
    proof cases
      case 1
      then show ?thesis using s [unfolded s_is] self by blast
    next
      case 2
      then show ?thesis using s [unfolded s_is] rest by blast
    next
      case 3
      then show ?thesis by (rule at_kept [OF a, symmetric, rotated])
    qed
    then show "view ns1 s = view ns' s" by (simp only: s_is)
  qed
  from at_t' [OF a] pl' me show ?thesis
  proof (cases rule: upsert_news_is [where ns = ns])
    case (quiet old)
    then have "ns1 = ns" by (simp add: attachingD(9) [OF a] cleared_def)
    then have "ns_nodes ns' = ns_nodes ns1" using quiet by (intro fmap_ext) (auto simp: at_nodes [OF a])
    then have "view ns' = view ns1" by (rule view_nodes)
    then show ?thesis using quiet(1) by (simp add: faithful_refl)
  next
    case self
    show ?thesis
    proof (rule go)
      show "\<exists>ids. ?news = concat (map (say ns') ids)" using self(1) by (intro exI [of _ "[i]"]) simp
    next
      fix b assume "(i, b) \<notin> slot ` set ?news"
      then show "view ns1 (i, b) = view ns' (i, b)" using self(1) by (intro at_self [OF a]) simp
    next
      fix x b
      assume x: "below (ns_nodes ns1) i x" "x \<noteq> i"
      obtain old where old: "fmlookup (ns_nodes ns) i = Some old" "same_shape (nd_kind old) k" "ns1 = ns"
        using at_below [OF a x] by blast
      obtain xn where xn: "fmlookup (ns_nodes ns1) x = Some xn"
        using below_in_tree [OF at_t1 [OF a, unfolded tree_ok_def] _ x(1)] old by auto
      have "\<not> is_file k"
      proof
        assume "is_file k"
        then have "kids ns1 i = []" using cleared_facts(3) [OF attachingD(1,7,4) [OF a]] by (simp add: attachingD(9) [OF a])
        then show False using below_cases [OF at_t1 [OF a, unfolded tree_ok_def], of i x] x by simp
      qed
      then have in_place: "nd_parent old = Some p" "nd_name old = name" using self(2) old(1) by auto
      obtain names where pl: "located (ns_nodes ns1) x names"
        using is_tree_located [OF at_t1 [OF a, unfolded tree_ok_def] xn] by blast
      have "located (ns_nodes ns') x names"
        unfolding at_nodes [OF a] by (rule located_in_place [OF pl]) (use old in_place in auto)
      then have "path_of ns' x = path_of ns1 x" by (rule path_of_same [OF pl])
      then show "view ns1 (x, b) = view ns' (x, b)"
        using x(2) by (intro view_cong [symmetric]) (simp_all add: at_nodes [OF a])
    qed
  next
    case (all ids)
    show ?thesis
    proof (rule go)
      show "\<exists>ids. ?news = concat (map (say ns') ids)" using all(1) by (intro exI [of _ "i # ids"]) simp
    next
      fix b assume "(i, b) \<notin> slot ` set ?news"
      then show "view ns1 (i, b) = view ns' (i, b)" using all(1) by (intro at_self [OF a]) auto
    next
      fix x b
      assume x: "below (ns_nodes ns1) i x" "x \<noteq> i" and s: "(x, b) \<notin> slot ` set ?news"
      have "below (ns_nodes ns') i x" unfolding at_nodes [OF a] by (rule below_upd [OF x(1)])
      then have "x \<in> set ids" using all(2) x(2) by auto
      then have "(x, b) \<notin> slot ` set (say ns' x)" using s all(1) by auto
      moreover obtain xn where "fmlookup (ns_nodes ns1) x = Some xn"
        using at_below [OF a x] below_in_tree [OF at_t1 [OF a, unfolded tree_ok_def] _ x(1)] by auto
      ultimately show "view ns1 (x, b) = view ns' (x, b)"
        using at_below [OF a x] x(2) by (intro said_or_same [of ns' x xn]) (auto simp: at_nodes [OF a])
    qed
  qed
qed

lemma plain_attach:
  assumes "plain ns" "tree_ok ns" "k \<noteq> KOpaque" "ns' = snd (attach i p name k ns)"
    and "\<forall>q b it. fmlookup (ns_waiting ns') q = Some b \<longrightarrow> it \<in> set b \<longrightarrow> (\<forall>j r n. it \<noteq> Upsert j r n KOpaque)"
  shows "plain ns'"
proof -
  have "nd_kind nd \<noteq> KOpaque" if "fmlookup (ns_nodes ns') x = Some nd" for x nd
    using that assms(1,3) cleared_nodes [OF assms(2), of i k x]
    by (auto simp: assms(4) attach_fields plain_def split: if_split_asm)
  then show ?thesis using assms(5) unfolding plain_def by blast
qed

lemma at_faithful:
  assumes a: "attaching ns ns1 ns' i p name k pn" and pl': "plain ns'"
  defines "out \<equiv> fst (attach i p name k ns) @ upsert_news i p name k ns ns'"
  shows "faithful (view ns) (view ns') out"
    and "\<forall>c\<in>set out. ch_id c = i \<or> fmlookup (ns_nodes ns') (ch_id c) \<noteq> None \<or> fmlookup (ns_nodes ns) (ch_id c) \<noteq> None"
proof -
  note at = attachingD [OF a]
  let ?old = "fst (cleared i k ns)"
  have out: "out = ?old @ upsert_news i p name k ns ns'" by (simp add: out_def attach_fields)
  have old: "tells (view ns') c" if c: "c \<in> set ?old" for c
  proof -
    obtain nd where nd: "told c = None" "fmlookup (ns_nodes ns) (ch_id c) = Some nd"
      "slot c = (ch_id c, True) \<longleftrightarrow> (\<exists>tag. nd_kind nd = KFolder tag)"
      using cleared_faithful(2) [OF at(1)] c by blast
    have gone: "fmlookup (ns_nodes ns1) (ch_id c) = None" 
      using cleared_faithful(3) [OF at(1)] c unfolding at(9) by blast
    have "view ns' (slot c) = None"
    proof (cases "ch_id c = i")
      case False
      then show ?thesis using gone fst_slot [of c] by (cases "slot c") (simp add: view_node at_nodes [OF a])
    next
      case True
      have "\<not> same_shape (nd_kind nd) k"
        using gone nd(2) cleared_self [OF at(1), of i k] True at(9) by (auto split: if_split_asm)
      moreover have "nd_kind nd \<noteq> KOpaque" using at(2) nd(2) unfolding plain_def by blast
      ultimately have "snd (slot c) \<longleftrightarrow> is_file k"
        using nd(3) at(3) True fst_slot [of c] by (cases "nd_kind nd"; cases k) (auto simp: is_file_def prod_eq_iff)
      then show ?thesis using True fst_slot [of c] at(3)
        by (cases "slot c"; cases k) (auto simp: view_node at_nodes [OF a] is_file_def split: option.splits)
    qed
    then show ?thesis using nd(1) by (simp add: tells_def)
  qed
  show "faithful (view ns) (view ns') out"
    unfolding out
    using faithful_append [OF cleared_faithful(1) [OF at(1), of i k, folded at(9)] at_news_faithful [OF a pl']] old by blast
  have me: "fmlookup (ns_nodes ns') i = Some \<lparr>nd_parent = Some p, nd_name = name, nd_kind = k\<rparr>"
    by (simp add: at_nodes [OF a])
  have "\<forall>c\<in>set (upsert_news i p name k ns ns'). fmlookup (ns_nodes ns') (ch_id c) \<noteq> None"
  proof -
    have say: "c \<in> set (say ns' x) \<Longrightarrow> fmlookup (ns_nodes ns') (ch_id c) \<noteq> None" for c x
      using say_id [of c ns' x] by (cases "fmlookup (ns_nodes ns') x") (auto simp: say_def)
    from at_t' [OF a] pl' me show ?thesis
      by (cases rule: upsert_news_is [where ns = ns]) (use say in auto)
  qed
  then show "\<forall>c\<in>set out. ch_id c = i \<or> fmlookup (ns_nodes ns') (ch_id c) \<noteq> None \<or> fmlookup (ns_nodes ns) (ch_id c) \<noteq> None"
    using cleared_faithful(2) [OF at(1)] unfolding out set_append by blast
qed

section \<open>Items that wait, each once\<close>

text \<open>An \<open>Upsert\<close> of an object that is not in the tree and not a package.\<close>

definition newcomer :: "namespace \<Rightarrow> remote_item \<Rightarrow> bool" where
  "newcomer ns it \<longleftrightarrow> (\<exists>i p name k. it = Upsert i p name k \<and> k \<noteq> KOpaque) \<and> fmlookup (ns_nodes ns) (it_id it) = None"

abbreviation ids :: "remote_item list \<Rightarrow> string set" where "ids its \<equiv> it_id ` set its"

definition waits_once :: "remote_item list \<Rightarrow> (string, remote_item list) fmap \<Rightarrow> bool" where
  "waits_once work w \<longleftrightarrow> distinct (map it_id work) \<and>
     (\<forall>q b. fmlookup w q = Some b \<longrightarrow> distinct (map it_id b) \<and> ids b \<inter> ids work = {}) \<and>
     (\<forall>q b r c. fmlookup w q = Some b \<longrightarrow> fmlookup w r = Some c \<longrightarrow> q \<noteq> r \<longrightarrow> ids b \<inter> ids c = {})"

lemma waits_onceD:
  assumes "waits_once work w"
  shows "distinct (map it_id work)"
    and "fmlookup w q = Some b \<Longrightarrow> distinct (map it_id b)"
    and "fmlookup w q = Some b \<Longrightarrow> ids b \<inter> ids work = {}"
    and "fmlookup w q = Some b \<Longrightarrow> fmlookup w r = Some c \<Longrightarrow> q \<noteq> r \<Longrightarrow> ids b \<inter> ids c = {}"
  using assms unfolding waits_once_def by simp_all

lemma waits_once_apart:
  assumes "waits_once [it] w" "fmlookup w q = Some b" "it' \<in> set b"
  shows "it_id it' \<noteq> it_id it"
proof
  assume "it_id it' = it_id it"
  then have "it_id it \<in> ids b" using assms(3) by (metis image_eqI)
  then show False using waits_onceD(3) [OF assms(1,2)] by auto
qed

definition held_new :: "namespace \<Rightarrow> bool" where
  "held_new ns \<longleftrightarrow> (\<forall>q b it. fmlookup (ns_waiting ns) q = Some b \<longrightarrow> it \<in> set b \<longrightarrow> newcomer ns it)"

definition thinned :: "(string, remote_item list) fmap \<Rightarrow> (string, remote_item list) fmap \<Rightarrow> bool" where
  "thinned w' w \<longleftrightarrow> (\<forall>q b'. fmlookup w' q = Some b' \<longrightarrow> (\<exists>b. fmlookup w q = Some b \<and> subseq b' b))"

lemma thinned_refl [simp]: "thinned w w"
  by (simp add: thinned_def)

lemma thinned_trans: "thinned a b \<Longrightarrow> thinned b c \<Longrightarrow> thinned a c"
  unfolding thinned_def by (meson subseq_order.trans)

lemma thinned_drop [simp]: "thinned (fmdrop k w) w"
  by (simp add: thinned_def)

lemma thinned_retain [simp]: "thinned (retain_nonempty w) w"
  by (simp add: thinned_def retain_nonempty_def)

lemma thinned_drop_held [simp]: "thinned (drop_held i w) w"
  by (auto simp: thinned_def drop_held_def)

lemma thinned_forget: "thinned (forget_loop st w) w"
proof (induction st w rule: forget_loop.induct)
  case (2 cur st w)
  have s: "thinned (retain_nonempty (drop_held cur v)) v" for v
    by (rule thinned_trans [OF thinned_retain thinned_drop_held])
  show ?case
  proof (cases "fmlookup w cur")
    case None
    then show ?thesis using thinned_trans [OF 2(1) s] by simp
  next
    case (Some held)
    then show ?thesis using thinned_trans [OF thinned_trans [OF 2(2) s] thinned_drop] by simp
  qed
qed simp

lemma thinned_refuse_loop: "thinned (fst (refuse_loop st why w ps)) w"
proof (induction st why w ps rule: refuse_loop.induct)
  case (2 cur st why w ps)
  then show ?case using thinned_trans [OF _ thinned_drop] by (cases "fmlookup w cur") simp_all
qed simp

lemma thinned_refuse: "thinned (ns_waiting (refuse i why ns)) (ns_waiting ns)"
proof -
  obtain w ps where r: "refuse_loop [i] why (ns_waiting ns) (ns_problems ns) = (w, ps)" by (rule prod.exhaust)
  then have "thinned w (ns_waiting ns)" using thinned_refuse_loop [of "[i]" why "ns_waiting ns" "ns_problems ns"] by simp
  then show ?thesis unfolding refuse_def r using thinned_trans [OF thinned_retain] by simp
qed

lemma thinned_drop_node: "thinned (ns_waiting (drop_node g ns)) (ns_waiting ns)"
  using thinned_forget [of "[g]" "ns_waiting ns"] by (simp add: drop_node_def forget_waiters_def)

lemma thinned_drop_nodes: "thinned (ns_waiting (fold drop_node gs ns)) (ns_waiting ns)"
proof (induction gs arbitrary: ns)
  case (Cons g gs)
  then show ?case using thinned_trans [OF Cons.IH thinned_drop_node] by simp
qed simp

lemma thinned_delete: "thinned (ns_waiting (snd (delete_item i ns))) (ns_waiting ns)"
proof (cases "fmlookup (ns_nodes ns) i")
  case None
  then show ?thesis using thinned_forget [of "[i]" "ns_waiting ns"] by (simp add: delete_item_def forget_waiters_def)
next
  case (Some nd)
  then show ?thesis
    using thinned_trans [OF thinned_drop_node [of i "fold drop_node (collect_ids ns i) ns"] thinned_drop_nodes]
    by (simp add: delete_item_def Let_def)
qed

lemma thinned_attach: "thinned (ns_waiting (snd (attach i p name k ns))) (ns_waiting ns)"
  using waiting_attach [of i p name k ns] thinned_delete [of i ns] by auto

section \<open>A whole item\<close>

lemma distinct_subseq: "subseq xs ys \<Longrightarrow> distinct ys \<Longrightarrow> distinct xs"
  by (induction rule: list_emb.induct) (auto dest: list_emb_set)

lemma waits_once_thinned:
  assumes "waits_once work w" "thinned w' w"
  shows "waits_once work w'"
proof -
  have sub: "\<exists>b. fmlookup w q = Some b \<and> ids b' \<subseteq> ids b \<and> (distinct (map it_id b) \<longrightarrow> distinct (map it_id b'))"
    if q: "fmlookup w' q = Some b'" for q b'
  proof -
    obtain b where b: "fmlookup w q = Some b" "subseq b' b" using assms(2) q unfolding thinned_def by blast
    have "ids b' \<subseteq> ids b" using b(2) by (auto dest: list_emb_set)
    moreover have "distinct (map it_id b) \<longrightarrow> distinct (map it_id b')"
      using distinct_subseq [OF subseq_map [OF b(2), of it_id]] by (rule impI)
    ultimately show ?thesis using b(1) by blast
  qed
  have "distinct (map it_id b') \<and> ids b' \<inter> ids work = {}" if q: "fmlookup w' q = Some b'" for q b'
  proof -
    obtain b where b: "fmlookup w q = Some b" "ids b' \<subseteq> ids b" "distinct (map it_id b) \<longrightarrow> distinct (map it_id b')"
      using sub [OF q] by blast
    from b(2,3) waits_onceD(2,3) [OF assms(1) b(1)] show ?thesis by auto
  qed
  moreover have "ids b' \<inter> ids c' = {}" if q: "fmlookup w' q = Some b'" "fmlookup w' r = Some c'" "q \<noteq> r" for q r b' c'
  proof -
    obtain b c where "fmlookup w q = Some b" "ids b' \<subseteq> ids b" "fmlookup w r = Some c" "ids c' \<subseteq> ids c"
      using sub [OF q(1)] sub [OF q(2)] by blast
    with waits_onceD(4) [OF assms(1) _ _ q(3)] show ?thesis by blast
  qed
  ultimately show ?thesis using waits_onceD(1) [OF assms(1)] unfolding waits_once_def by blast
qed

lemma waits_once_tail: "waits_once (it # work) w \<Longrightarrow> waits_once work w"
  unfolding waits_once_def by auto

lemma waits_once_hold: "waits_once (it # work) w \<Longrightarrow> waits_once work (hold p it w)"
  unfolding waits_once_def hold_def by (auto split: option.splits)

lemma waits_once_release:
  assumes "waits_once work w" "fmlookup w i = Some b"
  shows "waits_once (rev b @ work) (fmdrop i w)"
proof -
  have apart: "ids c \<inter> ids b = {}" if "fmlookup w q = Some c" "q \<noteq> i" for q c
    by (rule waits_onceD(4) [OF assms(1) that(1) assms(2) that(2)])
  have "distinct (map it_id (rev b @ work))"
  proof -
    have "distinct (map it_id b)" "ids b \<inter> ids work = {}" "distinct (map it_id work)"
      using waits_onceD(1-3) [OF assms(1)] assms(2) by simp_all
    then show ?thesis by (simp add: rev_map [symmetric])
  qed
  moreover have "distinct (map it_id c) \<and> ids c \<inter> ids (rev b @ work) = {}" if "fmlookup (fmdrop i w) q = Some c" for q c
  proof -
    have q: "fmlookup w q = Some c" "q \<noteq> i" using that by (simp_all split: if_split_asm)
    moreover have "ids c \<inter> ids (rev b @ work) = (ids c \<inter> ids b) \<union> (ids c \<inter> ids work)" by (simp add: image_Un Int_Un_distrib)
    ultimately show ?thesis using apart [OF q] waits_onceD(2,3) [OF assms(1)] by simp
  qed
  moreover have "ids c \<inter> ids d = {}"
    if "fmlookup (fmdrop i w) q = Some c" "fmlookup (fmdrop i w) r = Some d" "q \<noteq> r" for q r c d
    using that by (intro waits_onceD(4) [OF assms(1)]) (simp_all split: if_split_asm)
  ultimately show ?thesis unfolding waits_once_def by blast
qed

lemma thinned_item: "thinned w' w \<Longrightarrow> fmlookup w' q = Some b' \<Longrightarrow> it \<in> set b' \<Longrightarrow> \<exists>b. fmlookup w q = Some b \<and> it \<in> set b"
  unfolding thinned_def by (blast dest: list_emb_set)

lemma plain_thinned:
  assumes "plain ns" "\<And>x nd. fmlookup (ns_nodes ns') x = Some nd \<Longrightarrow> nd_kind nd \<noteq> KOpaque"
    and "thinned (ns_waiting ns') (ns_waiting ns)"
  shows "plain ns'"
  using assms(1,2) thinned_item [OF assms(3)] unfolding plain_def by blast

lemma held_new_thinned:
  assumes "held_new ns" "thinned (ns_waiting ns') (ns_waiting ns)"
    and "\<And>q b it. fmlookup (ns_waiting ns) q = Some b \<Longrightarrow> it \<in> set b \<Longrightarrow> newcomer ns it \<Longrightarrow> newcomer ns' it"
  shows "held_new ns'"
  using assms(1,3) thinned_item [OF assms(2)] unfolding held_new_def by blast

lemma newcomer_cong: "fmlookup (ns_nodes ns') (it_id it) = fmlookup (ns_nodes ns) (it_id it) \<Longrightarrow> newcomer ns' it = newcomer ns it"
  by (simp add: newcomer_def)

lemma attach_other:
  assumes "tree_ok ns" "x \<noteq> i"
  shows "fmlookup (ns_nodes (snd (attach i p name k ns))) x = fmlookup (ns_nodes ns) x \<or>
    fmlookup (ns_nodes (snd (attach i p name k ns))) x = None"
  using cleared_nodes [OF assms(1), of i k x] assms(2) by (simp add: attach_fields)

lemma attached_plain:
  assumes t: "tree_ok ns" and pl: "plain ns" and k: "k \<noteq> KOpaque" and ns': "ns' = snd (attach i p name k ns)"
  shows "plain ns'"
proof (rule plain_thinned [OF pl])
  have me: "fmlookup (ns_nodes ns') i = Some \<lparr>nd_parent = Some p, nd_name = name, nd_kind = k\<rparr>"
    by (simp add: ns' attach_fields)
  show "nd_kind nd \<noteq> KOpaque" if "fmlookup (ns_nodes ns') x = Some nd" for x nd
    using that pl k attach_other [OF t, of x i p name k] me unfolding plain_def ns' by (cases "x = i") fastforce+
  show "thinned (ns_waiting ns') (ns_waiting ns)" by (simp add: ns' thinned_attach)
qed

text \<open>What an attachment does, when no descent below it is too deep.\<close>

lemma attached_turn:
  assumes t: "tree_ok ns" and pl: "plain ns" and k: "k \<noteq> KOpaque"
    and p: "fmlookup (ns_nodes ns) p = Some pn" "\<not> is_file (nd_kind pn)" and name: "bad_name name = None"
    and free: "\<not> below (ns_nodes ns) i p" and ns': "ns' = snd (attach i p name k ns)"
    and deep: "fmlookup (ns_nodes ns) i = None \<or> (\<forall>x nd. fmlookup (ns_nodes ns') x = Some nd \<longrightarrow> path_of ns' x \<noteq> None)"
  defines "out \<equiv> fst (attach i p name k ns) @ upsert_news i p name k ns ns'"
  shows "faithful (view ns) (view ns') out \<and> plain ns' \<and>
    (\<forall>c\<in>set out. ch_id c = i \<or> fmlookup (ns_nodes ns) (ch_id c) \<noteq> None)"
proof -
  have t': "tree_ok ns'" unfolding ns' by (rule tree_ok_attach [OF t p name free])
  have me: "fmlookup (ns_nodes ns') i = Some \<lparr>nd_parent = Some p, nd_name = name, nd_kind = k\<rparr>"
    by (simp add: ns' attach_fields)
  have "\<forall>x. below (ns_nodes ns') i x \<longrightarrow> path_of ns' x \<noteq> None" if "fmlookup (ns_nodes ns) i \<noteq> None"
    using that deep below_in_tree [OF t' [unfolded tree_ok_def] me] by metis
  then have a: "attaching ns (snd (cleared i k ns)) ns' i p name k pn"
    unfolding attaching_def using t pl k p name free ns' by blast
  have pl': "plain ns'" by (rule attached_plain [OF t pl k ns'])
  have "\<forall>c\<in>set out. ch_id c = i \<or> fmlookup (ns_nodes ns) (ch_id c) \<noteq> None"
    using at_faithful(2) [OF a pl'] attach_other [OF t, of _ i p name k] unfolding out_def ns' by metis
  then show ?thesis using at_faithful(1) [OF a pl'] pl' unfolding out_def by blast
qed

text \<open>What a held newcomer's turn does to the tree.\<close>

lemma newcomer_turn:
  assumes t: "tree_ok ns" and pl: "plain ns" and new: "newcomer ns it" and held: "held_new ns"
    and once: "waits_once (it # work) (ns_waiting ns)" and turn: "apply_one it ns = (r, out, ns')"
  shows "faithful (view ns) (view ns') out" "plain ns'"
    "\<forall>c\<in>set out. fmlookup (ns_nodes ns') (ch_id c) \<noteq> None"
    "\<forall>x. x \<noteq> it_id it \<longrightarrow> fmlookup (ns_nodes ns') x = fmlookup (ns_nodes ns) x"
    "\<forall>x nd. fmlookup (ns_nodes ns) x = Some nd \<longrightarrow> path_of ns' x = path_of ns x"
    "waits_once work (ns_waiting ns')" "held_new ns'"
    "\<And>q b it'. fmlookup (ns_waiting ns') q = Some b \<Longrightarrow> it' \<in> set b \<Longrightarrow>
      it' = it \<or> (\<exists>c. fmlookup (ns_waiting ns) q = Some c \<and> it' \<in> set c)"
proof -
  obtain i p name k where it: "it = Upsert i p name k" "k \<noteq> KOpaque" and out_i: "fmlookup (ns_nodes ns) i = None"
    using new unfolding newcomer_def by auto
  have tail: "waits_once work (ns_waiting ns)" by (rule waits_once_tail [OF once])
  have "upsert i p name k ns = (r, out, ns')" using turn it(1) by simp
  then have "faithful (view ns) (view ns') out \<and> plain ns' \<and>
    (\<forall>c\<in>set out. fmlookup (ns_nodes ns') (ch_id c) \<noteq> None) \<and>
    (\<forall>x. x \<noteq> it_id it \<longrightarrow> fmlookup (ns_nodes ns') x = fmlookup (ns_nodes ns) x) \<and>
    (\<forall>x nd. fmlookup (ns_nodes ns) x = Some nd \<longrightarrow> path_of ns' x = path_of ns x) \<and>
    waits_once work (ns_waiting ns') \<and> held_new ns' \<and>
    (\<forall>q b it'. fmlookup (ns_waiting ns') q = Some b \<longrightarrow> it' \<in> set b \<longrightarrow>
      it' = it \<or> (\<exists>c. fmlookup (ns_waiting ns) q = Some c \<and> it' \<in> set c))"
  proof (cases rule: upsert_cases)
    case (refused why)
    have nodes: "ns_nodes ns' = ns_nodes ns" and s: "thinned (ns_waiting ns') (ns_waiting ns)"
      by (simp_all add: refused thinned_refuse)
    have "plain ns'" by (rule plain_thinned [OF pl _ s]) (use pl nodes in \<open>auto simp: plain_def\<close>)
    moreover have "held_new ns'" by (rule held_new_thinned [OF held s]) (simp add: newcomer_def nodes)
    moreover have "view ns' = view ns" "path_of ns' = path_of ns" 
      by (rule view_nodes [OF nodes]) (simp add: path_of_def fun_eq_iff nodes)
    ultimately show ?thesis 
      using waits_once_thinned [OF tail s] nodes refused(2) thinned_item [OF s] by (simp add: faithful_refl)
  next
    case held: held
    have nodes: "ns_nodes ns' = ns_nodes ns" by (simp add: held)
    have w: "it' = it \<or> (\<exists>c. fmlookup (ns_waiting ns) q = Some c \<and> it' \<in> set c)"
      if "fmlookup (ns_waiting ns') q = Some b" "it' \<in> set b" for q b it'
      using that by (auto simp: held(3) hold_def it(1) split: if_split_asm option.split_asm)
    have "plain ns'" using pl w it unfolding plain_def nodes by blast
    moreover have "held_new ns'" using assms(4) w new unfolding held_new_def newcomer_def nodes by metis
    moreover have "view ns' = view ns" "path_of ns' = path_of ns" 
      by (rule view_nodes [OF nodes]) (simp add: path_of_def fun_eq_iff nodes)
    moreover have "waits_once work (ns_waiting ns')" using waits_once_hold [OF once] by (simp add: held(3) it(1))
    ultimately show ?thesis using nodes held(2) w by (simp add: faithful_refl)
  next
    case (attached pn)
    note turn' = attached_turn [OF t pl it(2) attached(4-7,3) disjI1 [OF out_i], folded attached(3)]
    have other: "x \<noteq> i \<Longrightarrow> fmlookup (ns_nodes ns') x = fmlookup (ns_nodes ns) x" for x
      using out_i by (simp add: attached(3) attach_fields cleared_def)
    have path: "path_of ns' x = path_of ns x" if x: "fmlookup (ns_nodes ns) x = Some nd" for x nd
    proof -
      have "x \<noteq> i" using x out_i by auto
      then have "\<not> below (ns_nodes ns) i x" using below_start [OF t [unfolded tree_ok_def]] out_i by fastforce
      from join_names_kept [OF t x this] show ?thesis
        using out_i by (simp add: path_of_def attached(3) attach_fields cleared_def)
    qed
    have s: "thinned (ns_waiting ns') (ns_waiting ns)" by (simp add: attached(3) thinned_attach)
    have "held_new ns'"
    proof (rule held_new_thinned [OF held s])
      fix q b it'
      assume q: "fmlookup (ns_waiting ns) q = Some b" "it' \<in> set b" "newcomer ns it'"
      then have "it_id it' \<noteq> i" using waits_onceD(3) [OF once q(1)] it(1) by auto
      then show "newcomer ns' it'" using q(3) other by (simp add: newcomer_def)
    qed
    moreover have "fmlookup (ns_nodes ns') (ch_id c) \<noteq> None" if "c \<in> set out" for c
    proof (cases "ch_id c = i")
      case True
      then show ?thesis by (simp add: attached(3) attach_fields)
    next
      case False
      then have "fmlookup (ns_nodes ns) (ch_id c) \<noteq> None" using turn' that unfolding attached(2) by blast
      then show ?thesis by (simp only: other [OF False] not_False_eq_True)
    qed
    ultimately show ?thesis
      using turn' other path waits_once_thinned [OF tail s] it(1) thinned_item [OF s] by (simp add: attached(2))
  qed
  then show "faithful (view ns) (view ns') out" "plain ns'"
    "\<forall>c\<in>set out. fmlookup (ns_nodes ns') (ch_id c) \<noteq> None"
    "\<forall>x. x \<noteq> it_id it \<longrightarrow> fmlookup (ns_nodes ns') x = fmlookup (ns_nodes ns) x"
    "\<forall>x nd. fmlookup (ns_nodes ns) x = Some nd \<longrightarrow> path_of ns' x = path_of ns x"
    "waits_once work (ns_waiting ns')" "held_new ns'"
    "\<And>q b it'. fmlookup (ns_waiting ns') q = Some b \<Longrightarrow> it' \<in> set b \<Longrightarrow>
      it' = it \<or> (\<exists>c. fmlookup (ns_waiting ns) q = Some c \<and> it' \<in> set c)"
    by blast+
qed

lemma newcomers_loop:
  assumes "tree_ok ns" "plain ns" "\<forall>it\<in>set work. newcomer ns it" "held_new ns" "waits_once work (ns_waiting ns)"
    and "faithful m (view ns) out"
    and "\<forall>c\<in>set out. ch_id c \<notin> ids work \<and> (\<forall>q b. fmlookup (ns_waiting ns) q = Some b \<longrightarrow> ch_id c \<notin> ids b)"
    and "apply_loop work ns out = (out', ns')"
  shows "faithful m (view ns') out' \<and>
    (\<forall>x nd. fmlookup (ns_nodes ns) x = Some nd \<longrightarrow> fmlookup (ns_nodes ns') x = Some nd \<and> path_of ns' x = path_of ns x)"
  using assms
proof (induction work ns out arbitrary: out' ns' rule: apply_loop.induct)
  case (1 ns out)
  then show ?case by simp
next
  case (2 it work ns out)
  obtain r news ns1 where a: "apply_one it ns = (r, news, ns1)" by (metis prod.exhaust)
  have new: "newcomer ns it" using 2(6) by simp
  note turn = newcomer_turn [OF 2(4,5) new 2(7,8) a]
  have t1: "tree_ok ns1" by (rule tree_ok_apply_one [OF 2(4) a])
  have out_i: "fmlookup (ns_nodes ns) (it_id it) = None" using new by (simp add: newcomer_def)
  have not_it: "it_id it \<notin> ids work" "\<And>q b. fmlookup (ns_waiting ns) q = Some b \<Longrightarrow> it_id it \<notin> ids b"
    using waits_onceD(1) [OF 2(8)] waits_onceD(3) [OF 2(8)] by auto
  have old: "tells (view ns1) c" if c: "c \<in> set out" for c
  proof -
    have "ch_id c \<noteq> it_id it" using 2(10) c by auto
    then have same: "fmlookup (ns_nodes ns1) (ch_id c) = fmlookup (ns_nodes ns) (ch_id c)" using turn(4) by blast
    have "view ns1 (ch_id c, b) = view ns (ch_id c, b)" for b
      using same turn(5) by (cases "fmlookup (ns_nodes ns) (ch_id c)") (simp_all add: view_node)
    then have "view ns1 (slot c) = view ns (slot c)" using fst_slot [of c] by (cases "slot c") simp
    then show ?thesis using 2(9) c by (simp add: faithful_def tells_def)
  qed
  then have f1: "faithful m (view ns1) (out @ news)" by (intro faithful_append [OF 2(9) turn(1)]) blast
  have work1: "newcomer ns1 it'" if "it' \<in> set work" for it'
  proof -
    have "it_id it' \<noteq> it_id it" using not_it(1) that by (metis image_eqI)
    then have "fmlookup (ns_nodes ns1) (it_id it') = fmlookup (ns_nodes ns) (it_id it')" using turn(4) by blast
    moreover have "newcomer ns it'" using that 2(6) by simp
    ultimately show ?thesis by (simp add: newcomer_def)
  qed
  have held1: "\<forall>it'\<in>set b. newcomer ns1 it'" if "fmlookup (ns_waiting ns1) q = Some b" for q b
    using turn(7) that unfolding held_new_def by blast
  have news_in: "newcomer ns1 it' \<Longrightarrow> c \<in> set news \<Longrightarrow> ch_id c \<noteq> it_id it'" for it' c
    using turn(3) unfolding newcomer_def by metis
  have p_work: "ch_id c \<notin> ids work" if "c \<in> set (out @ news)" for c
    using that 2(10) news_in work1 by fastforce
  have p_held: "ch_id c \<notin> ids b" if c: "c \<in> set (out @ news)" and b: "fmlookup (ns_waiting ns1) q = Some b" for c q b
  proof
    assume "ch_id c \<in> ids b"
    then obtain it' where it': "it' \<in> set b" "ch_id c = it_id it'" by blast
    then have "c \<in> set out" using c news_in held1 [OF b] by fastforce
    have "ch_id c \<noteq> it_id it" using 2(10) \<open>c \<in> set out\<close> by auto
    then obtain d where "fmlookup (ns_waiting ns) q = Some d" "it' \<in> set d" using turn(8) [OF b it'(1)] it'(2) by blast
    moreover from this have "ch_id c \<in> ids d" using it'(2) by (metis image_eqI)
    ultimately show False using 2(10) \<open>c \<in> set out\<close> by blast
  qed
  have keep: "fmlookup (ns_nodes ns') x = Some nd \<and> path_of ns' x = path_of ns x"
    if "fmlookup (ns_nodes ns) x = Some nd"
      and "\<forall>x nd. fmlookup (ns_nodes ns1) x = Some nd \<longrightarrow> fmlookup (ns_nodes ns') x = Some nd \<and> path_of ns' x = path_of ns1 x" for x nd ns'
    using that turn(4,5) out_i by (cases "x = it_id it") auto
  have work_newcomers: "\<forall>it\<in>set work. newcomer ns1 it" using work1 by blast
  have pending: "\<forall>c\<in>set (out @ news). ch_id c \<notin> ids work \<and>
      (\<forall>q b. fmlookup (ns_waiting ns1) q = Some b \<longrightarrow> ch_id c \<notin> ids b)"
    using p_work p_held by blast
  show ?case
  proof (cases r)
    case None
    have "apply_loop work ns1 (out @ news) = (out', ns')" using 2(11) a None by simp
    from 2(1) [OF a [symmetric] None refl t1 turn(2) work_newcomers turn(7,6) f1 pending this] keep
    show ?thesis by blast
  next
    case (Some i)
    show ?thesis
    proof (cases "fmlookup (ns_waiting ns1) i")
      case None
      have "apply_loop work ns1 (out @ news) = (out', ns')" using 2(11) a None Some by simp
      from 2(2) [OF a [symmetric] Some refl None t1 turn(2) work_newcomers turn(7,6) f1 pending this] keep
      show ?thesis by blast
    next
      case b: (Some b)
      let ?ns2 = "ns1\<lparr>ns_waiting := fmdrop i (ns_waiting ns1)\<rparr>"
      have go: "apply_loop (rev b @ work) ?ns2 (out @ news) = (out', ns')" using 2(11) a b Some by simp
      have s: "thinned (ns_waiting ?ns2) (ns_waiting ns1)" by simp
      have "plain ?ns2" by (rule plain_thinned [OF turn(2) _ s]) (use turn(2) in \<open>auto simp: plain_def\<close>)
      moreover have "held_new ?ns2" by (rule held_new_thinned [OF turn(7) s]) (simp add: newcomer_def)
      moreover have "\<forall>it\<in>set (rev b @ work). newcomer ?ns2 it"
        using work1 held1 [OF b] by (auto simp: newcomer_def)
      moreover have "waits_once (rev b @ work) (ns_waiting ?ns2)" using waits_once_release [OF turn(6) b] by simp
      moreover have "view ?ns2 = view ns1" by (rule view_nodes) simp
      moreover have "\<forall>c\<in>set (out @ news). ch_id c \<notin> ids (rev b @ work) \<and>
          (\<forall>q d. fmlookup (ns_waiting ?ns2) q = Some d \<longrightarrow> ch_id c \<notin> ids d)"
        using pending b by (auto simp: image_Un)
      moreover have "path_of ?ns2 x = path_of ns1 x" for x by (simp add: path_of_def)
      ultimately have "faithful m (view ns') out' \<and>
          (\<forall>x nd. fmlookup (ns_nodes ns1) x = Some nd \<longrightarrow> fmlookup (ns_nodes ns') x = Some nd \<and> path_of ns' x = path_of ns1 x)"
        using 2(3) [OF a [symmetric] Some refl b, of out' ns'] t1 f1 go by simp
      then show ?thesis using keep by blast
    qed
  qed
qed

text \<open>What the turn of the item itself leaves for the items it unblocks.\<close>

lemma first_turn_leaves:
  assumes t: "tree_ok ns" and pl: "plain ns" and held: "held_new ns" and once: "waits_once [it] (ns_waiting ns)"
    and no_package: "\<forall>i p n. it \<noteq> Upsert i p n KOpaque" and turn: "apply_one it ns = (Some i, out, ns1)"
  shows "plain ns1" "held_new ns1" "waits_once [] (ns_waiting ns1)" "thinned (ns_waiting ns1) (ns_waiting ns)"
    "x \<noteq> it_id it \<Longrightarrow> fmlookup (ns_nodes ns1) x = fmlookup (ns_nodes ns) x \<or> fmlookup (ns_nodes ns1) x = None"
proof -
  have all: "plain ns1 \<and> thinned (ns_waiting ns1) (ns_waiting ns) \<and>
    (\<forall>x. x \<noteq> it_id it \<longrightarrow> fmlookup (ns_nodes ns1) x = fmlookup (ns_nodes ns) x \<or> fmlookup (ns_nodes ns1) x = None)"
  proof (cases it)
    case (Delete j)
    then show ?thesis using turn by (auto split: prod.splits)
  next
    case (Root j)
    then have "ns1 = ns\<lparr>ns_root := Some j, ns_nodes := fmupd j root_node (ns_nodes ns)\<rparr>"
      using turn by (auto split: if_split_asm)
    then show ?thesis using pl Root by (auto simp: plain_def root_node_def split: if_split_asm)
  next
    case (Upsert j p name k)
    then have "upsert j p name k ns = (Some i, out, ns1)" using turn by simp
    then show ?thesis
    proof (cases rule: upsert_cases)
      case (attached pn)
      have "k \<noteq> KOpaque" using no_package Upsert by blast
      from attached_plain [OF t pl this attached(3)] show ?thesis
        using attach_other [OF t, of _ j p name k] Upsert by (simp add: attached(3) thinned_attach)
    qed simp_all
  qed
  note pl1 = conjunct1 [OF all] and s = conjunct1 [OF conjunct2 [OF all]]
  have other: "x \<noteq> it_id it \<Longrightarrow> fmlookup (ns_nodes ns1) x = fmlookup (ns_nodes ns) x \<or> fmlookup (ns_nodes ns1) x = None" for x
    by (rule mp [OF spec [OF conjunct2 [OF conjunct2 [OF all]]]])
  show "plain ns1" by (rule pl1)
  show "held_new ns1"
  proof (rule held_new_thinned [OF held s])
    fix q b it'
    assume q: "fmlookup (ns_waiting ns) q = Some b" "it' \<in> set b" "newcomer ns it'"
    have "fmlookup (ns_nodes ns) (it_id it') = None" using q(3) by (simp add: newcomer_def)
    then have "fmlookup (ns_nodes ns1) (it_id it') = None"
      using other [OF waits_once_apart [OF once q(1,2)]] by metis
    then show "newcomer ns1 it'" using q(3) by (simp add: newcomer_def)
  qed
  show "waits_once [] (ns_waiting ns1)" by (rule waits_once_thinned [OF waits_once_tail [OF once] s])
  show "thinned (ns_waiting ns1) (ns_waiting ns)" by (rule s)
  show "x \<noteq> it_id it \<Longrightarrow> fmlookup (ns_nodes ns1) x = fmlookup (ns_nodes ns) x \<or> fmlookup (ns_nodes ns1) x = None" by (rule other)
qed

lemma first_turn:
  assumes t: "tree_ok ns" and pl: "plain ns" and held: "held_new ns" and once: "waits_once [it] (ns_waiting ns)"
    and no_package: "\<forall>i p n. it \<noteq> Upsert i p n KOpaque" and turn: "apply_one it ns = (r, out, ns1)"
    and deep: "\<forall>x nd. fmlookup (ns_nodes ns1) x = Some nd \<longrightarrow> path_of ns1 x \<noteq> None"
  shows "faithful (view ns) (view ns1) out"
    and "\<forall>c\<in>set out. r \<noteq> None \<longrightarrow> ch_id c = it_id it \<or> fmlookup (ns_nodes ns) (ch_id c) \<noteq> None"
proof -
  have "faithful (view ns) (view ns1) out \<and>
    (\<forall>c\<in>set out. r \<noteq> None \<longrightarrow> ch_id c = it_id it \<or> fmlookup (ns_nodes ns) (ch_id c) \<noteq> None)"
  proof (cases it)
    case (Delete j)
    then have "r = None" "out = fst (delete_item j ns)" "ns1 = snd (delete_item j ns)"
      using turn by (auto split: prod.splits)
    then show ?thesis using delete_faithful(1) [OF t] by simp
  next
    case (Root j)
    show ?thesis
    proof (cases "ns_root ns = None \<or> ns_root ns = Some j")
      case False
      then have "r = None" "out = []" "view ns1 = view ns" using turn Root by (auto intro!: view_nodes)
      then show ?thesis by (simp add: faithful_refl)
    next
      case True
      then have ns1: "out = [FolderUpserted j [] None]" "ns1 = ns\<lparr>ns_root := Some j, ns_nodes := fmupd j root_node (ns_nodes ns)\<rparr>"
        using turn Root by auto
      have same: "fmlookup (ns_nodes ns1) x = fmlookup (ns_nodes ns) x" if "x \<noteq> j" for x using that by (simp add: ns1)
      have me: "fmlookup (ns_nodes ns1) j = Some root_node" by (simp add: ns1)
      have j: "located (ns_nodes ns1) j []" by (rule located_root [OF me]) (simp add: root_node_def)
      have before: "fmlookup (ns_nodes ns) j = None \<and> ns_nodes ns = fmempty \<or> ns_nodes ns1 = ns_nodes ns"
        using True
      proof
        assume "ns_root ns = None"
        then show ?thesis using no_root_no_nodes [OF t] by simp
      next
        assume "ns_root ns = Some j"
        then obtain nd where nd: "fmlookup (ns_nodes ns) j = Some nd" "nd_parent nd = None"
          using is_tree_root [OF t [unfolded tree_ok_def]] by blast
        then have "nd = root_node" by (rule is_tree_root_node [OF t [unfolded tree_ok_def]])
        then show ?thesis using nd(1) by (intro disjI2 fmap_ext) (auto simp: ns1)
      qed
      have "path_of ns1 j = Some []" using path_of_located [OF j] by (simp add: MAX_DEPTH_def)
      then have vj: "view ns1 (j, b) = (if b then Some ([], 0, None) else None)" for b
        by (simp add: view_node me root_node_def)
      have "view ns1 k = view ns k" if k: "k \<noteq> (j, True)" for k
      proof (cases "ns_nodes ns1 = ns_nodes ns")
        case True
        then show ?thesis by (rule fun_cong [OF view_nodes])
      next
        case False
        obtain x b where xb: "k = (x, b)" by (rule prod.exhaust)
        have "ns_nodes ns = fmempty" using before False by blast
        then have "view ns (x, b) = None" "x \<noteq> j \<Longrightarrow> view ns1 (x, b) = None" using same [of x] by (simp_all add: view_node)
        then show ?thesis using vj [of b] k xb by (cases "x = j") simp_all
      qed
      then have "faithful (view ns) (view ns1) out" by (simp add: faithful_def ns1(1) tells_def vj)
      then show ?thesis using Root by (simp add: ns1(1))
    qed
  next
    case (Upsert j p name k)
    then have "upsert j p name k ns = (r, out, ns1)" using turn by simp
    then show ?thesis
    proof (cases rule: upsert_cases)
      case (refused why)
      then have "view ns1 = view ns" by (intro view_nodes) simp
      then show ?thesis using refused by (simp add: faithful_refl)
    next
      case held
      then have "view ns1 = view ns" by (intro view_nodes) simp
      then show ?thesis using held by (simp add: faithful_refl)
    next
      case (attached pn)
      have "k \<noteq> KOpaque" using no_package Upsert by blast
      note turn' = attached_turn [OF t pl this attached(4-7,3) disjI2 [OF deep], folded attached(2)]
      then show ?thesis using Upsert by simp
    qed
  qed
  then show "faithful (view ns) (view ns1) out"
    and "\<forall>c\<in>set out. r \<noteq> None \<longrightarrow> ch_id c = it_id it \<or> fmlookup (ns_nodes ns) (ch_id c) \<noteq> None"
    by blast+
qed

lemma apply_loop_out:
  "apply_loop work ns (pre @ out) = (pre @ fst (apply_loop work ns out), snd (apply_loop work ns out))"
proof (induction work ns out rule: apply_loop.induct)
  case (2 it work ns out)
  obtain r news ns1 where a: "apply_one it ns = (r, news, ns1)" by (metis prod.exhaust)
  show ?case
  proof (cases r)
    case None
    then show ?thesis using 2(1) [OF a [symmetric] None refl] a by simp
  next
    case (Some i)
    then show ?thesis
      using 2(2,3) [OF a [symmetric] Some refl] a by (cases "fmlookup (ns_waiting ns1) i") simp_all
  qed
qed simp

text \<open>The items an item unblocks, as a loop over newcomers.\<close>

lemma unblocked_loop:
  assumes "tree_ok ns1" "plain ns1" "held_new ns1" "waits_once [] (ns_waiting ns1)"
    and "apply_loop (it # []) ns [] = (out, ns')" "apply_one it ns = (Some i, news, ns1)"
  obtains its ns2 where "apply_loop its ns2 news = (out, ns')" "ns_nodes ns2 = ns_nodes ns1" "tree_ok ns2" "plain ns2"
    "\<forall>it\<in>set its. newcomer ns2 it" "held_new ns2" "waits_once its (ns_waiting ns2)"
    "\<forall>j. j \<in> ids its \<or> (\<exists>q b. fmlookup (ns_waiting ns2) q = Some b \<and> j \<in> ids b) \<longrightarrow>
       (\<exists>q b. fmlookup (ns_waiting ns1) q = Some b \<and> j \<in> ids b)"
proof (cases "fmlookup (ns_waiting ns1) i")
  case None
  show ?thesis by (rule that [of "[]" ns1]) (use assms None in simp_all)
next
  case (Some b)
  let ?ns2 = "ns1\<lparr>ns_waiting := fmdrop i (ns_waiting ns1)\<rparr>"
  have s: "thinned (ns_waiting ?ns2) (ns_waiting ns1)" by simp
  have new: "newcomer ns1 it'" if "it' \<in> set b" for it' using assms(3) Some that unfolding held_new_def by blast
  show ?thesis
  proof (rule that [of "rev b" ?ns2])
    show "apply_loop (rev b) ?ns2 news = (out, ns')" using assms(5,6) Some by simp
    show "tree_ok ?ns2" using assms(1) by simp
    show "plain ?ns2" by (rule plain_thinned [OF assms(2) _ s]) (use assms(2) in \<open>auto simp: plain_def\<close>)
    show "\<forall>it\<in>set (rev b). newcomer ?ns2 it" using new by (simp add: newcomer_def)
    show "held_new ?ns2" by (rule held_new_thinned [OF assms(3) s]) (simp add: newcomer_def)
    show "waits_once (rev b) (ns_waiting ?ns2)" using waits_once_release [OF assms(4) Some] by simp
    show "\<forall>j. j \<in> ids (rev b) \<or> (\<exists>q b. fmlookup (ns_waiting ?ns2) q = Some b \<and> j \<in> ids b) \<longrightarrow>
       (\<exists>q b. fmlookup (ns_waiting ns1) q = Some b \<and> j \<in> ids b)"
      using Some by (auto split: if_split_asm)
  qed simp
qed

end
