(* ===== verification/Namespace_Feed.thy ===== *)
theory Namespace_Feed
  imports Namespace_Mirror
begin

text \<open>
  The properties of the tracker of the remote tree: its invariant over any feed, the equivalence of a
  listing and the feed that follows it, and what it does with packages, with items that arrive twice
  before their parent, and at the bound on the depth.
\<close>

definition feed :: "remote_item list \<Rightarrow> namespace" where
  "feed items = fold (\<lambda>it ns. snd (apply_item it ns)) items ns_new"

lemma feed_snoc: "feed (items @ [it]) = snd (apply_item it (feed items))"
  by (simp add: feed_def)

lemma tree_ok_feed: "tree_ok (feed items)"
proof (induction items rule: rev_induct)
  case Nil
  show ?case by (simp add: feed_def tree_ok_new)
next
  case (snoc it items)
  then show ?case unfolding feed_snoc by (rule tree_ok_apply_item)
qed

text \<open>C15: Whatever a service reports, in whatever order, the tracker holds a tree: every node hangs under
  the one root, the sets of children are the inverse of the parent links, there is no cycle, no file has
  children, and every name can be a path component.\<close>

theorem feed_keeps_a_tree: "tree_ok (feed items)"
  by (rule tree_ok_feed)

text \<open>C8: The changes the tracker emits are exactly the difference between two listings.  For a tree that
  the tracker can have, without packages and with every held item waiting once and for the first time,
  a reader who starts from nothing, is given the listing and then the changes of one item (which may be
  a move of a folder, a deletion of a subtree, a change of shape, or the arrival of a parent others waited
  for) knows exactly the paths, sizes and tags of the tree after the item.  The item must not push any
  node below the depth that paths are followed to.\<close>

theorem feed_replays_the_tree:
  assumes "tree_ok ns" "plain ns" "held_new ns" "waits_once [it] (ns_waiting ns)"
    and "\<forall>i p n. it \<noteq> Upsert i p n KOpaque"
    and "apply_item it ns = (cs, ns')"
    and "\<forall>x nd. fmlookup (ns_nodes ns') x = Some nd \<longrightarrow> path_of ns' x \<noteq> None"
  shows "fold mirror (listing ns @ cs) (\<lambda>_. None) = view ns'"
proof -
  obtain out where l: "apply_loop [it] ns [] = (out, ns')" "cs = finalise out"
    using assms(6) unfolding apply_item_def by (auto simp del: apply_loop.simps split: prod.split_asm)
  obtain r news ns1 where a: "apply_one it ns = (r, news, ns1)" by (metis prod.exhaust)
  have t1: "tree_ok ns1" by (rule tree_ok_apply_one [OF assms(1) a])
  note first = first_turn [OF assms(1-5) a]
  have "faithful (view ns) (view ns') out"
  proof (cases r)
    case None
    then have "out = news" "ns1 = ns'" using l(1) a by simp_all
    then show ?thesis using first(1) assms(7) by simp
  next
    case (Some i)
    note a' = a [unfolded Some]
    note leaves = first_turn_leaves [OF assms(1-5) a']
    from t1 leaves(1-3) l(1) a' obtain its ns2 where n: "apply_loop its ns2 news = (out, ns')" "ns_nodes ns2 = ns_nodes ns1"
      "tree_ok ns2" "plain ns2" "\<forall>it\<in>set its. newcomer ns2 it" "held_new ns2" "waits_once its (ns_waiting ns2)"
      and pending: "\<forall>j. j \<in> ids its \<or> (\<exists>q b. fmlookup (ns_waiting ns2) q = Some b \<and> j \<in> ids b) \<longrightarrow>
        (\<exists>q b. fmlookup (ns_waiting ns1) q = Some b \<and> j \<in> ids b)"
      by (rule unblocked_loop)
    have "apply_loop its ns2 [] = (fst (apply_loop its ns2 []), ns')"
      using apply_loop_out [of its ns2 news "[]"] n(1) by simp
    from newcomers_loop [OF n(3-7) faithful_refl _ this]
    have paths: "\<forall>x nd. fmlookup (ns_nodes ns1) x = Some nd \<longrightarrow>
        fmlookup (ns_nodes ns') x = Some nd \<and> path_of ns' x = path_of ns1 x"
      by (simp add: n(2) path_of_def)
    then have deep: "\<forall>x nd. fmlookup (ns_nodes ns1) x = Some nd \<longrightarrow> path_of ns1 x \<noteq> None"
      using assms(7) by metis
    have "ch_id c \<notin> ids b" if c: "c \<in> set news" and b: "fmlookup (ns_waiting ns1) q = Some b" for c q b
    proof
      assume "ch_id c \<in> ids b"
      then obtain it' where it': "it' \<in> set b" "ch_id c = it_id it'" by blast
      obtain d where d: "fmlookup (ns_waiting ns) q = Some d" "it' \<in> set d" using thinned_item [OF leaves(4) b it'(1)] by blast
      have "fmlookup (ns_nodes ns) (it_id it') = None" using assms(3) d unfolding held_new_def newcomer_def by blast
      then show False using first(2) [OF deep] c Some it'(2) waits_once_apart [OF assms(4) d] by auto
    qed
    then have "\<forall>c\<in>set news. ch_id c \<notin> ids its \<and> (\<forall>q b. fmlookup (ns_waiting ns2) q = Some b \<longrightarrow> ch_id c \<notin> ids b)"
      using pending by metis
    moreover have "faithful (view ns) (view ns2) news"
      using first(1) [OF deep] view_nodes [OF n(2)] by simp
    ultimately show ?thesis using newcomers_loop [OF n(3-7) _ _ n(1)] by blast
  qed
  then have "fold mirror cs (view ns) = view ns'" using faithful_mirrors l(2) by simp
  then show ?thesis using listing_faithful [OF assms(1,2)] by simp
qed

definition sample_tree :: namespace where
  "sample_tree =
     feed [Root ''R'', Upsert ''w'' ''R'' ''Work'' (KFolder None), Upsert ''a'' ''w'' ''f'' (KFile 1 None),
           Upsert ''b'' ''z'' ''g'' (KFile 2 None)]"

text \<open>The hypotheses, in a form that evaluates.\<close>

definition no_package :: "remote_item \<Rightarrow> bool" where
  "no_package it \<longleftrightarrow> (case it of Upsert _ _ _ k \<Rightarrow> k \<noteq> KOpaque | _ \<Rightarrow> True)"

lemma no_package_iff: "no_package it \<longleftrightarrow> (\<forall>i p n. it \<noteq> Upsert i p n KOpaque)"
  by (cases it) (auto simp: no_package_def)

lemma plain_evaluates:
  "plain ns \<longleftrightarrow> fmpred (\<lambda>_ nd. nd_kind nd \<noteq> KOpaque) (ns_nodes ns) \<and> fmpred (\<lambda>_ b. list_all no_package b) (ns_waiting ns)"
  unfolding plain_def fmpred_iff list_all_iff no_package_iff [symmetric] by meson

lemma held_new_evaluates:
  "held_new ns \<longleftrightarrow> fmpred (\<lambda>_ b. list_all (\<lambda>it. (case it of Upsert _ _ _ k \<Rightarrow> k \<noteq> KOpaque | _ \<Rightarrow> False) \<and>
     fmlookup (ns_nodes ns) (it_id it) = None) b) (ns_waiting ns)"
proof -
  have "newcomer ns it \<longleftrightarrow> (case it of Upsert _ _ _ k \<Rightarrow> k \<noteq> KOpaque | _ \<Rightarrow> False) \<and> fmlookup (ns_nodes ns) (it_id it) = None" for it
    by (cases it) (auto simp: newcomer_def)
  then show ?thesis by (auto simp: held_new_def fmpred_iff list_all_iff)
qed

lemma waits_once_evaluates:
  "waits_once work w \<longleftrightarrow> distinct (map it_id work) \<and>
     fmpred (\<lambda>q b. distinct (map it_id b) \<and> ids b \<inter> ids work = {} \<and> fmpred (\<lambda>r c. q \<noteq> r \<longrightarrow> ids b \<inter> ids c = {}) w) w"
  unfolding waits_once_def fmpred_iff by meson

lemma feed_replays_the_tree_witness:
  "fold mirror (listing sample_tree @ fst (apply_item (Upsert ''z'' ''w'' ''Zed'' (KFolder None)) sample_tree)) (\<lambda>_. None) (''b'', False)
     = Some (''Work/Zed/g'', 2, None)"
proof -
  let ?it = "Upsert ''z'' ''w'' ''Zed'' (KFolder None)" and ?ns' = "snd (apply_item (Upsert ''z'' ''w'' ''Zed'' (KFolder None)) sample_tree)"
  have "tree_ok sample_tree" unfolding sample_tree_def by (rule tree_ok_feed)
  moreover have "plain sample_tree" unfolding plain_evaluates by code_simp
  moreover have "held_new sample_tree" unfolding held_new_evaluates by code_simp
  moreover have "waits_once [?it] (ns_waiting sample_tree)" unfolding waits_once_evaluates by code_simp
  moreover have "\<forall>i p n. ?it \<noteq> Upsert i p n KOpaque" by simp
  moreover have "fmpred (\<lambda>x _. path_of ?ns' x \<noteq> None) (ns_nodes ?ns')" by code_simp
  then have "\<forall>x nd. fmlookup (ns_nodes ?ns') x = Some nd \<longrightarrow> path_of ?ns' x \<noteq> None" by (simp add: fmpred_iff)
  ultimately have "fold mirror (listing sample_tree @ fst (apply_item ?it sample_tree)) (\<lambda>_. None) = view ?ns'"
    by (rule feed_replays_the_tree [OF _ _ _ _ _ prod.collapse [symmetric]])
  moreover have "view ?ns' (''b'', False) = Some (''Work/Zed/g'', 2, None)" by code_simp
  ultimately show ?thesis by simp
qed

section \<open>Where the tracker departs from what it says\<close>

text \<open>Items that arrive before their parent are replayed newest first, so of two versions of one file
  the older one wins: the file was reported as \<open>old\<close> and then as \<open>new\<close>, and stays at \<open>dir/old\<close>.\<close>

theorem held_versions_replay_backwards:
  "path_of (feed [Root ''R'', Upsert ''x'' ''P'' ''old'' (KFile 1 None), Upsert ''x'' ''P'' ''new'' (KFile 2 None),
       Upsert ''P'' ''R'' ''dir'' (KFolder None)]) ''x'' = Some ''dir/old''"
  by code_simp

text \<open>A held move survives a later move of the same file: the file was moved to \<open>P\<close>, which was not known
  yet, and then to \<open>Q\<close>; when \<open>P\<close> arrives it is moved there.\<close>

theorem held_move_overrides_a_later_one:
  "path_of (feed [Root ''R'', Upsert ''Q'' ''R'' ''q'' (KFolder None), Upsert ''x'' ''R'' ''f'' (KFile 1 None),
       Upsert ''x'' ''P'' ''f'' (KFile 1 None), Upsert ''x'' ''Q'' ''f'' (KFile 1 None),
       Upsert ''P'' ''R'' ''p'' (KFolder None)]) ''x'' = Some ''p/f''"
  by code_simp

definition notebook :: namespace where
  "notebook = feed [Root ''R'', Upsert ''n'' ''R'' ''Notes'' KOpaque]"

definition page :: remote_item where "page = Upsert ''s'' ''n'' ''page'' (KFile 1 None)"

text \<open>A file in a package is emitted when it is reported, though no listing names it, and what is below a
  package is lost when the package turns out to be a folder.\<close>

theorem package_contents_are_emitted_and_dropped:
  "fst (apply_item page notebook) = [Upserted ''s'' ''Notes/page'' 1 None] \<and>
   listing (snd (apply_item page notebook)) = [FolderUpserted ''R'' [] None] \<and>
   fmlookup (ns_nodes (snd (apply_item (Upsert ''n'' ''R'' ''Notes'' (KFolder None)) (snd (apply_item page notebook))))) ''s''
     = None"
  by code_simp

section \<open>Nothing is dropped in silence, but for the depth\<close>

lemma refuse_loop_keeps: "fmlookup ps x \<noteq> None \<Longrightarrow> fmlookup (snd (refuse_loop st why w ps)) x \<noteq> None"
proof (induction st why w ps rule: refuse_loop.induct)
  case (2 cur st why w ps)
  then show ?case by (cases "fmlookup w cur") simp_all
qed simp

lemma refuse_records: "fmlookup (ns_problems (refuse i why ns)) i \<noteq> None"
proof -
  obtain w ps where r: "refuse_loop [i] why (ns_waiting ns) (ns_problems ns) = (w, ps)" by (rule prod.exhaust)
  have first: "refuse_loop [i] why (ns_waiting ns) (ns_problems ns) =
      (case fmlookup (ns_waiting ns) i of
         None \<Rightarrow> refuse_loop [] why (ns_waiting ns) (fmupd i why (ns_problems ns))
       | Some held \<Rightarrow> refuse_loop (rev (upserted_ids held)) why (fmdrop i (ns_waiting ns)) (fmupd i why (ns_problems ns)))"
    by (simp split: option.split)
  have "fmlookup (snd (refuse_loop [i] why (ns_waiting ns) (ns_problems ns))) i \<noteq> None"
    unfolding first by (cases "fmlookup (ns_waiting ns) i") (simp_all add: refuse_loop_keeps del: refuse_loop.simps(2))
  then show ?thesis unfolding refuse_def r by simp
qed

text \<open>C30: An item that is reported is in the tree, or waits for its parent, or is listed as a problem.\<close>

theorem reported_items_are_accounted_for:
  assumes "apply_one (Upsert i p name k) ns = (r, out, ns')"
  shows "fmlookup (ns_nodes ns') i = Some \<lparr>nd_parent = Some p, nd_name = name, nd_kind = k\<rparr> \<or>
     (\<exists>b. fmlookup (ns_waiting ns') p = Some b \<and> Upsert i p name k \<in> set b) \<or>
     fmlookup (ns_problems ns') i \<noteq> None"
proof -
  have "upsert i p name k ns = (r, out, ns')" using assms by simp
  then show ?thesis
  proof (cases rule: upsert_cases)
    case (refused why)
    then show ?thesis using refuse_records by simp
  next
    case held
    then show ?thesis by (simp add: hold_def)
  next
    case (attached pn)
    then show ?thesis by (simp add: attach_fields)
  qed
qed

lemma reported_items_are_accounted_for_witness:
  "let ns' = snd (snd (apply_one (Upsert ''v'' ''a'' ''under a file'' (KFile 0 None)) sample_tree))
   in fmlookup (ns_problems ns') ''v'' \<noteq> None"
proof -
  obtain r out ns' where a: "apply_one (Upsert ''v'' ''a'' ''under a file'' (KFile 0 None)) sample_tree = (r, out, ns')"
    by (metis prod.exhaust)
  have ns': "ns' = snd (snd (apply_one (Upsert ''v'' ''a'' ''under a file'' (KFile 0 None)) sample_tree))" by (simp only: a snd_conv)
  have "fmlookup (ns_nodes ns') ''v'' = None" "fmlookup (ns_waiting ns') ''a'' = None" unfolding ns' by code_simp+
  with reported_items_are_accounted_for [OF a] show ?thesis unfolding Let_def ns' by auto
qed

lemma climbs_to_located: "located nodes cur names \<Longrightarrow> \<not> below nodes i cur \<Longrightarrow> length names < n \<Longrightarrow> \<not> climbs_to n nodes i cur"
proof (induction arbitrary: n rule: located.induct)
  case (located_root cur nd)
  then show ?case by (cases n) (auto intro: below_refl)
next
  case (located_child cur nd p ns)
  have "cur \<noteq> i" "\<not> below nodes i p" using located_child.prems(1) located_child.hyps below_refl below_child by blast+
  then show ?case using located_child by (cases n) auto
qed

text \<open>A file whose folder is 511 levels down is taken into the tree, and no change is emitted for it, no problem
  recorded and nothing held: the bound of the walk up is one lower than the bound on the depth.\<close>

theorem deepest_file_is_silent:
  assumes "located (ns_nodes ns) p names" "length names = 511" "fmlookup (ns_nodes ns) p = Some pn" "nd_kind pn = KFolder tag"
    and "fmlookup (ns_nodes ns) i = None" "bad_name name = None" "\<not> below (ns_nodes ns) i p"
  shows "\<exists>ns'. apply_one (Upsert i p name (KFile sz ct)) ns = (Some i, [], ns') \<and>
    fmlookup (ns_nodes ns') i \<noteq> None \<and> path_of ns' i = None \<and>
    fmlookup (ns_problems ns') i = None \<and> ns_waiting ns' = ns_waiting ns"
proof -
  obtain ns' where att: "attach i p name (KFile sz ct) ns = ([], ns')"
    using attach_fields(1) [of i p name "KFile sz ct" ns] assms(5) by (metis cleared_def fst_conv option.simps(4) prod.exhaust)
  have nodes: "ns_nodes ns' = fmupd i \<lparr>nd_parent = Some p, nd_name = name, nd_kind = KFile sz ct\<rparr> (ns_nodes ns)"
    using attach_fields(2) [of i p name "KFile sz ct" ns] att assms(5) by (simp add: cleared_def)
  have rest: "fmlookup (ns_problems ns') i = None" "ns_waiting ns' = ns_waiting ns"
    using att assms(5) by (auto simp: attach_def Let_def)
  have "located (ns_nodes ns') p names" unfolding nodes by (rule located_elsewhere [OF assms(1,7)])
  then have "located (ns_nodes ns') i (names @ [name])"
    using located_child [of "ns_nodes ns'" i _ p names] by (simp add: nodes)
  then have path: "path_of ns' i = None" using assms(2) by (simp add: path_of_located MAX_DEPTH_def)
  have "\<not> would_cycle ns i p"
    unfolding would_cycle_def by (rule climbs_to_located [OF assms(1,7)]) (simp add: assms(2) MAX_DEPTH_def)
  then have "apply_one (Upsert i p name (KFile sz ct)) ns = (Some i, [], ns')"
    using assms(3,4,6) att path by (simp add: upsert_def is_file_def upsert_news_def say_place_def)
  then show ?thesis using path rest by (simp add: nodes)
qed

text \<open>A chain of folders, for an instance.\<close>

definition level :: "nat \<Rightarrow> string" where
  "level n = replicate n (CHR ''a'')"

fun chain :: "nat \<Rightarrow> (string, remote_node) fmap" where
  "chain 0 = fmupd (level 0) root_node fmempty"
| "chain (Suc n) = fmupd (level (Suc n)) \<lparr>nd_parent = Some (level n), nd_name = ''d'', nd_kind = KFolder None\<rparr> (chain n)"

lemma level_inj [simp]: "level m = level n \<longleftrightarrow> m = n"
  by (auto simp: level_def dest: arg_cong [where f = length])

lemma chain_level:
  "m \<le> n \<Longrightarrow> fmlookup (chain n) (level m) =
     Some (if m = 0 then root_node else \<lparr>nd_parent = Some (level (m - 1)), nd_name = ''d'', nd_kind = KFolder None\<rparr>)"
  by (induction n) (auto simp: le_Suc_eq)

lemma chain_located: "m \<le> n \<Longrightarrow> located (chain n) (level m) (replicate m ''d'')"
proof (induction m)
  case 0
  then show ?case using chain_level [of 0 n] by (auto intro!: located_root simp: root_node_def)
next
  case (Suc m)
  then have "located (chain n) (level (Suc m)) (replicate m ''d'' @ [''d''])"
    using located_child [of "chain n" "level (Suc m)" _ "level m"] chain_level [of "Suc m" n] by fastforce
  then show ?case by (simp add: replicate_append_same)
qed

lemma chain_other: "x \<noteq> level (length x) \<Longrightarrow> fmlookup (chain n) x = None"
  by (induction n) (auto simp: level_def)

lemma chain_below: "below (chain n) ''b'' x \<Longrightarrow> x = ''b''"
proof (induction rule: below.induct)
  case (below_child x nd p)
  then have "nd_parent nd = Some ''b''" by simp
  moreover have "fmlookup (chain n) x = Some nd \<Longrightarrow> nd_parent nd = None \<or> (\<exists>m. nd_parent nd = Some (level m))"
    by (induction n) (auto simp: root_node_def split: if_split_asm)
  moreover have "''b'' \<noteq> level m" for m by (cases m) (auto simp: level_def)
  ultimately show ?case using below_child(1) by (metis option.distinct(1) option.inject)
qed simp

lemma deepest_file_is_silent_witness:
  "\<exists>ns'. apply_one (Upsert ''b'' (level 511) ''f'' (KFile 1 None)) (ns_new\<lparr>ns_nodes := chain 511\<rparr>) = (Some ''b'', [], ns') \<and>
    fmlookup (ns_nodes ns') ''b'' \<noteq> None \<and> path_of ns' ''b'' = None \<and> fmlookup (ns_problems ns') ''b'' = None \<and>
    ns_waiting ns' = ns_waiting (ns_new\<lparr>ns_nodes := chain 511\<rparr>)"
proof (rule deepest_file_is_silent)
  show "located (ns_nodes (ns_new\<lparr>ns_nodes := chain 511\<rparr>)) (level 511) (replicate 511 ''d'')"
    using chain_located [of 511 511] by simp
  show "length (replicate 511 ''d'') = 511" by (rule length_replicate)
  show "fmlookup (ns_nodes (ns_new\<lparr>ns_nodes := chain 511\<rparr>)) (level 511) =
      Some \<lparr>nd_parent = Some (level (511 - 1)), nd_name = ''d'', nd_kind = KFolder None\<rparr>"
    using chain_level [of 511 511] by simp
  show "fmlookup (ns_nodes (ns_new\<lparr>ns_nodes := chain 511\<rparr>)) ''b'' = None"
    using chain_other [of "''b''" 511] by (simp add: level_def)
  have "level 511 \<noteq> ''b''" by (auto simp: level_def dest: arg_cong [where f = length])
  then show "\<not> below (ns_nodes (ns_new\<lparr>ns_nodes := chain 511\<rparr>)) ''b'' (level 511)"
    using chain_below by auto
  show "bad_name ''f'' = None" by code_simp
qed simp

end
