(* ===== verification/Sync_Dir.thy ===== *)
theory Sync_Dir
  imports Client_Store "HOL-Library.Sublist"
begin

text \<open>
  The sync directory as the client's system calls see it while other programs use it: the calls of
  \<open>std::fs\<close>, the \<open>*at\<close> calls of \<open>crates/hydration-client/src/place.rs\<close> and the attribute calls of
  \<open>store.rs\<close> on folders.  Before each call the others take a step (\<open>sd_user\<close>; none once it is used up),
  and then the call fails as \<open>cl_plan\<close> says or acts.  Symbolic links are not followed: a link is an
  \<open>Other\<close>.  \<open>sd_gone\<close> is a log of the names with a file that a call of the client took away,
  and \<open>sd_dir_size\<close> the length the file system reports for what is no regular file.
\<close>

section \<open>The state\<close>

record dir_attrs =
  da_cloud :: "string option"
  da_tag :: "string option"

type_synonym disk = "tree \<times> (path \<times> dir_attrs) list"

record sync =
  sd_client :: client
  sd_root :: path
  sd_dirs :: "(path \<times> dir_attrs) list"
  sd_user :: "(disk \<Rightarrow> disk) list"
  sd_dev :: u64
  sd_fresh :: u64
  sd_clock :: "int \<times> int"
  sd_dir_size :: u64
  sd_gone :: "(path \<times> cfile) list"
  sd_mount_id :: u64
  sd_mounts :: "(io_error + u64) list"

type_synonym 'a act = "sync \<Rightarrow> (io_error + 'a) \<times> sync"

abbreviation tree_of :: "sync \<Rightarrow> tree" where
  "tree_of s \<equiv> cl_tree (sd_client s)"

definition put_tree :: "tree \<Rightarrow> sync \<Rightarrow> sync" where
  "put_tree t s = s\<lparr>sd_client := (sd_client s)\<lparr>cl_tree := t\<rparr>\<rparr>"

definition put_plan :: "int option list \<Rightarrow> sync \<Rightarrow> sync" where
  "put_plan ps s = s\<lparr>sd_client := (sd_client s)\<lparr>cl_plan := ps\<rparr>\<rparr>"

definition others :: "sync \<Rightarrow> sync" where
  "others s =
     (case sd_user s of
        [] \<Rightarrow> s
      | u # us \<Rightarrow> (case u (tree_of s, sd_dirs s) of (t, d) \<Rightarrow> (put_tree t s)\<lparr>sd_dirs := d, sd_user := us\<rparr>))"

definition act_return :: "'a \<Rightarrow> 'a act" where
  "act_return a s = (Inr a, s)"

definition act_fail :: "io_error \<Rightarrow> 'a act" where
  "act_fail e s = (Inl e, s)"

definition act_bind :: "'a act \<Rightarrow> ('a \<Rightarrow> 'b act) \<Rightarrow> 'b act" where
  "act_bind m f s = (case m s of (Inl e, s') \<Rightarrow> (Inl e, s') | (Inr a, s') \<Rightarrow> f a s')"

definition act_try :: "'a act \<Rightarrow> (io_error + 'a) act" where
  "act_try m s = (case m s of (r, s') \<Rightarrow> (Inr r, s'))"

definition sync_call :: "'a act \<Rightarrow> 'a act" where
  "sync_call act s =
     (let s1 = others s
      in case cl_plan (sd_client s1) of
           Some e # ps \<Rightarrow> (Inl (Os e), put_plan ps s1)
         | ps \<Rightarrow> act (put_plan (tl ps) s1))"

text \<open>A path with a NUL byte never reaches the kernel.\<close>

definition has_nul :: "path \<Rightarrow> bool" where
  "has_nul p \<longleftrightarrow> list_ex (\<lambda>c. CHR 0x00 \<in> set c) p"

definition named_call :: "path \<Rightarrow> 'a act \<Rightarrow> 'a act" where
  "named_call p act = (if has_nul p then act_fail (Custom InvalidInput) else sync_call act)"

section \<open>Looking\<close>

definition node_of :: "sync \<Rightarrow> path \<Rightarrow> node option" where
  "node_of s p = (if p = sd_root s then Some Folder else map_of (tree_of s) p)"

text \<open>The error of walking down to a folder, if there is one: the first component below the root that
  is missing or no folder decides.\<close>

definition reach :: "sync \<Rightarrow> path \<Rightarrow> int option" where
  "reach s d =
     (case filter (\<lambda>q. node_of s q \<noteq> Some Folder) (map (\<lambda>n. take n d) [Suc (length (sd_root s))..<Suc (length d)]) of
        [] \<Rightarrow> None
      | q # _ \<Rightarrow> Some (if node_of s q = None then ENOENT else ENOTDIR))"

text \<open>A name that is in the tree is there; what keeps another one from being there is the walk down to it,
  or that it is missing.\<close>

definition at_node :: "path \<Rightarrow> (node \<Rightarrow> 'a act) \<Rightarrow> 'a act" where
  "at_node p f s =
     (case node_of s p of
        Some n \<Rightarrow> f n s
      | None \<Rightarrow> (Inl (Os (case reach s (butlast p) of Some e \<Rightarrow> e | None \<Rightarrow> ENOENT)), s))"

definition sd_stat :: "path \<Rightarrow> node act" where
  "sd_stat p = named_call p (at_node p act_return)"

text \<open>\<open>Path::exists\<close> and \<open>Path::is_dir\<close>: an error is a no.\<close>

definition sd_exists :: "path \<Rightarrow> sync \<Rightarrow> bool \<times> sync" where
  "sd_exists p s = (case sd_stat p s of (r, s') \<Rightarrow> (case r of Inl _ \<Rightarrow> False | Inr _ \<Rightarrow> True, s'))"

definition sd_is_dir :: "path \<Rightarrow> sync \<Rightarrow> bool \<times> sync" where
  "sd_is_dir p s = (case sd_stat p s of (r, s') \<Rightarrow> (r = Inr Folder, s'))"

definition entries_of :: "sync \<Rightarrow> path \<Rightarrow> (path \<times> node) list" where
  "entries_of s d = filter (\<lambda>(p, _). p \<noteq> [] \<and> butlast p = d) (tree_of s)"

definition sd_read_dir :: "path \<Rightarrow> (path \<times> node) list act" where
  "sd_read_dir d =
     named_call d (at_node d (\<lambda>n s.
       if n \<noteq> Folder then (Inl (Os ENOTDIR), s)
       else if d \<in> set (cl_unreadable (sd_client s)) then (Inl (Os EACCES), s)
       else (Inr (entries_of s d), s)))"

section \<open>Names\<close>

definition sd_mkdir :: "path \<Rightarrow> unit act" where
  "sd_mkdir p =
     named_call p (\<lambda>s.
       case reach s (butlast p) of
         Some e \<Rightarrow> (Inl (Os e), s)
       | None \<Rightarrow>
           if node_of s p \<noteq> None then (Inl (Os EEXIST), s)
           else (Inr (), put_tree (tree_of s @ [(p, Folder)]) s))"

text \<open>\<open>fs::create_dir_all\<close>, on the path read from its end.\<close>

fun mkdir_all_rev :: "path \<Rightarrow> unit act" where
  "mkdir_all_rev [] s = (Inr (), s)"
| "mkdir_all_rev (c # cs) s =
     (let p = rev (c # cs)
      in case sd_mkdir p s of
           (Inr _, s1) \<Rightarrow> (Inr (), s1)
         | (Inl e, s1) \<Rightarrow>
             if kind_of e = NotFound
             then (case mkdir_all_rev cs s1 of
                     (Inl e2, s2) \<Rightarrow> (Inl e2, s2)
                   | (Inr _, s2) \<Rightarrow>
                       (case sd_mkdir p s2 of
                          (Inr _, s3) \<Rightarrow> (Inr (), s3)
                        | (Inl e3, s3) \<Rightarrow> (case sd_is_dir p s3 of (y, s4) \<Rightarrow> (if y then Inr () else Inl e3, s4))))
             else (case sd_is_dir p s1 of (y, s2) \<Rightarrow> (if y then Inr () else Inl e, s2)))"

definition sd_mkdir_all :: "path \<Rightarrow> unit act" where
  "sd_mkdir_all p = mkdir_all_rev (rev p)"

text \<open>A rename carries everything below the name along.\<close>

definition renamed :: "path \<Rightarrow> path \<Rightarrow> path \<Rightarrow> path" where
  "renamed a b p = (if prefix a p then b @ drop (length a) p else p)"

definition swapped :: "path \<Rightarrow> path \<Rightarrow> path \<Rightarrow> path" where
  "swapped a b p =
     (if prefix a p then b @ drop (length a) p else if prefix b p then a @ drop (length b) p else p)"

definition rekey :: "(path \<Rightarrow> path) \<Rightarrow> (path \<times> 'a) list \<Rightarrow> (path \<times> 'a) list" where
  "rekey f xs = map (\<lambda>(p, x). (f p, x)) xs"

definition move_names :: "(path \<Rightarrow> path) \<Rightarrow> sync \<Rightarrow> sync" where
  "move_names f s = (put_tree (rekey f (tree_of s)) s)\<lparr>sd_dirs := rekey f (sd_dirs s)\<rparr>"

definition files_of :: "path \<Rightarrow> node \<Rightarrow> (path \<times> cfile) list" where
  "files_of p n = (case n of Regular c \<Rightarrow> [(p, c)] | _ \<Rightarrow> [])"

text \<open>Taking a name away.\<close>

definition drop_name :: "path \<Rightarrow> node \<Rightarrow> sync \<Rightarrow> sync" where
  "drop_name p n s =
     (put_tree (AList.delete p (tree_of s)) s)
       \<lparr>sd_dirs := AList.delete p (sd_dirs s), sd_gone := sd_gone s @ files_of p n\<rparr>"

definition same_inode_nodes :: "node \<Rightarrow> node \<Rightarrow> bool" where
  "same_inode_nodes m n =
     (case (m, n) of (Regular x, Regular y) \<Rightarrow> f_id (cf_inode x) = f_id (cf_inode y) | _ \<Rightarrow> False)"

definition rename_over :: "path \<Rightarrow> path \<Rightarrow> node \<Rightarrow> node \<Rightarrow> unit act" where
  "rename_over a b m n s =
     (if same_inode_nodes m n then (Inr (), s)
      else if n = Folder \<and> m \<noteq> Folder then (Inl (Os EISDIR), s)
      else if n \<noteq> Folder \<and> m = Folder then (Inl (Os ENOTDIR), s)
      else if n = Folder \<and> entries_of s b \<noteq> [] then (Inl (Os ENOTEMPTY), s)
      else (Inr (), move_names (renamed a b) (drop_name b n s)))"

definition sd_rename :: "path \<Rightarrow> path \<Rightarrow> unit act" where
  "sd_rename a b =
     named_call (a @ b) (at_node a (\<lambda>m s.
       case reach s (butlast b) of
         Some e \<Rightarrow> (Inl (Os e), s)
       | None \<Rightarrow>
           if a = b then (Inr (), s)
           else if m = Folder \<and> strict_prefix a b then (Inl (Os EINVAL), s)
           else (case node_of s b of
                   None \<Rightarrow> (Inr (), move_names (renamed a b) s)
                 | Some n \<Rightarrow> rename_over a b m n s)))"

text \<open>\<open>renameat2\<close> with \<open>RENAME_EXCHANGE\<close>.\<close>

definition sd_exchange :: "path \<Rightarrow> path \<Rightarrow> unit act" where
  "sd_exchange a b =
     named_call (a @ b) (at_node a (\<lambda>m. at_node b (\<lambda>n s.
       if a = b then (Inr (), s)
       else if prefix a b \<or> prefix b a then (Inl (Os EINVAL), s)
       else (Inr (), move_names (swapped a b) s))))"

definition sd_unlink :: "path \<Rightarrow> unit act" where
  "sd_unlink p =
     named_call p (at_node p (\<lambda>n s.
       if n = Folder then (Inl (Os EISDIR), s) else (Inr (), drop_name p n s)))"

definition sd_remove_dir :: "path \<Rightarrow> unit act" where
  "sd_remove_dir p =
     named_call p (at_node p (\<lambda>n s.
       if n \<noteq> Folder then (Inl (Os ENOTDIR), s)
       else if entries_of s p \<noteq> [] then (Inl (Os ENOTEMPTY), s)
       else (Inr (), drop_name p n s)))"

text \<open>\<open>linkat\<close> of a file that has no name yet.\<close>

definition sd_link :: "cfile \<Rightarrow> path \<Rightarrow> unit act" where
  "sd_link c p =
     named_call p (\<lambda>s.
       case reach s (butlast p) of
         Some e \<Rightarrow> (Inl (Os e), s)
       | None \<Rightarrow>
           if node_of s p \<noteq> None then (Inl (Os EEXIST), s)
           else (Inr (), put_tree (tree_of s @ [(p, Regular (c\<lparr>cf_inode := (cf_inode c)\<lparr>f_nlink := 1\<rparr>\<rparr>))]) s))"

section \<open>Attributes\<close>

definition attrs_at :: "sync \<Rightarrow> path \<Rightarrow> dir_attrs" where
  "attrs_at s p = (case map_of (sd_dirs s) p of Some a \<Rightarrow> a | None \<Rightarrow> \<lparr>da_cloud = None, da_tag = None\<rparr>)"

text \<open>\<open>store::get_xattr\<close>: \<open>ENODATA\<close> and \<open>ENOTSUP\<close> are an absent attribute.\<close>

definition absent_attr :: "io_error \<Rightarrow> bool" where
  "absent_attr e \<longleftrightarrow> raw_os_error e = Some ENODATA \<or> raw_os_error e = Some EOPNOTSUPP"

definition probe_attr :: "(cfile \<Rightarrow> 'a option) \<Rightarrow> (dir_attrs \<Rightarrow> 'a option) \<Rightarrow> path \<Rightarrow> 'a act" where
  "probe_attr ff fd p =
     sync_call (at_node p (\<lambda>n s.
       case (case n of Regular c \<Rightarrow> ff c | Folder \<Rightarrow> fd (attrs_at s p) | Other \<Rightarrow> None) of
         Some v \<Rightarrow> (Inr v, s) | None \<Rightarrow> (Inl (Os ENODATA), s)))"

definition get_attr :: "(cfile \<Rightarrow> 'a option) \<Rightarrow> (dir_attrs \<Rightarrow> 'a option) \<Rightarrow> path \<Rightarrow> 'a option act" where
  "get_attr ff fd p =
     (if has_nul p then act_fail (Custom InvalidInput)
      else (\<lambda>s. case probe_attr ff fd p s of
                  (Inl e, s1) \<Rightarrow> (if absent_attr e then Inr None else Inl e, s1)
                | (Inr _, s1) \<Rightarrow>
                    (case probe_attr ff fd p s1 of (Inl e, s2) \<Rightarrow> (Inl e, s2) | (Inr v, s2) \<Rightarrow> (Inr (Some v), s2))))"

definition get_cloud :: "path \<Rightarrow> string option act" where
  "get_cloud = get_attr cf_cloud da_cloud"

definition get_tag :: "path \<Rightarrow> string option act" where
  "get_tag = get_attr cf_tag da_tag"

text \<open>\<open>store::set_xattr\<close> and \<open>store::remove_xattr\<close>.\<close>

definition set_xattr :: "path \<Rightarrow> (cfile \<Rightarrow> cfile) \<Rightarrow> (dir_attrs \<Rightarrow> dir_attrs) \<Rightarrow> unit act" where
  "set_xattr p gf gd =
     named_call p (at_node p (\<lambda>n s.
       case n of
         Folder \<Rightarrow> (Inr (), s\<lparr>sd_dirs := AList.update p (gd (attrs_at s p)) (sd_dirs s)\<rparr>)
       | Regular c \<Rightarrow>
           if and (cf_mode c) OWNER_WRITE = 0 then (Inl (Os EACCES), s)
           else (Inr (), put_tree (with_file p gf (tree_of s)) s)
       | Other \<Rightarrow> (Inl (Os EPERM), s)))"

definition remove_xattr :: "path \<Rightarrow> (cfile \<Rightarrow> cfile) \<Rightarrow> (dir_attrs \<Rightarrow> dir_attrs) \<Rightarrow> unit act" where
  "remove_xattr p gf gd s =
     (case set_xattr p gf gd s of
        (Inl e, s1) \<Rightarrow> (if absent_attr e then Inr () else Inl e, s1)
      | (Inr u, s1) \<Rightarrow> (Inr (), s1))"

section \<open>What a call leaves\<close>

text \<open>The state in which a call acts or fails: at most one step of the others later.\<close>

definition undisturbed :: "sync \<Rightarrow> sync \<Rightarrow> bool" where
  "undisturbed s s0 \<longleftrightarrow> (\<exists>t ps. t \<in> {s, others s} \<and> set ps \<subseteq> set (cl_plan (sd_client s)) \<and>
     length ps \<le> length (cl_plan (sd_client s)) \<and> s0 = put_plan ps t)"

lemma put_tree_simps [simp]:
  "tree_of (put_tree t s) = t" "cl_plan (sd_client (put_tree t s)) = cl_plan (sd_client s)"
  "sd_root (put_tree t s) = sd_root s" "sd_dirs (put_tree t s) = sd_dirs s" "sd_user (put_tree t s) = sd_user s"
  "sd_dev (put_tree t s) = sd_dev s" "sd_fresh (put_tree t s) = sd_fresh s" "sd_clock (put_tree t s) = sd_clock s"
  "sd_gone (put_tree t s) = sd_gone s" "sd_mount_id (put_tree t s) = sd_mount_id s"
  "sd_mounts (put_tree t s) = sd_mounts s" "sd_dir_size (put_tree t s) = sd_dir_size s" "cl_unreadable (sd_client (put_tree t s)) = cl_unreadable (sd_client s)"
  by (simp_all add: put_tree_def)

lemma put_plan_simps [simp]:
  "tree_of (put_plan ps s) = tree_of s" "cl_plan (sd_client (put_plan ps s)) = ps"
  "sd_root (put_plan ps s) = sd_root s" "sd_dirs (put_plan ps s) = sd_dirs s" "sd_user (put_plan ps s) = sd_user s"
  "sd_dev (put_plan ps s) = sd_dev s" "sd_fresh (put_plan ps s) = sd_fresh s" "sd_clock (put_plan ps s) = sd_clock s"
  "sd_gone (put_plan ps s) = sd_gone s" "sd_mount_id (put_plan ps s) = sd_mount_id s"
  "sd_mounts (put_plan ps s) = sd_mounts s" "sd_dir_size (put_plan ps s) = sd_dir_size s" "cl_unreadable (sd_client (put_plan ps s)) = cl_unreadable (sd_client s)"
  "put_plan qs (put_plan ps s) = put_plan qs s" "put_plan (cl_plan (sd_client s)) s = s"
  by (simp_all add: put_plan_def)

lemma others_simps [simp]:
  "sd_root (others s) = sd_root s" "sd_gone (others s) = sd_gone s" "sd_dev (others s) = sd_dev s"
  "sd_fresh (others s) = sd_fresh s" "sd_clock (others s) = sd_clock s" "sd_user (others s) = tl (sd_user s)"
  "cl_plan (sd_client (others s)) = cl_plan (sd_client s)" "sd_mount_id (others s) = sd_mount_id s"
  "sd_mounts (others s) = sd_mounts s" "cl_unreadable (sd_client (others s)) = cl_unreadable (sd_client s)"
  by (auto simp: others_def split: list.splits prod.splits)

lemma others_idle: "sd_user s = [] \<Longrightarrow> others s = s"
  by (simp add: others_def)

lemma put_plan_same: "cl_plan (sd_client s) = ps \<Longrightarrow> put_plan ps s = s"
  by (metis put_plan_simps(15))

text \<open>With nobody else and no fault planned a call acts at once.\<close>

lemma sync_call_idle: "sd_user s = [] \<Longrightarrow> cl_plan (sd_client s) = [] \<Longrightarrow> sync_call act s = act s"
  by (simp add: sync_call_def others_idle put_plan_same)

lemma undisturbed_refl: "undisturbed s s"
  unfolding undisturbed_def by (intro exI [of _ s] exI [of _ "cl_plan (sd_client s)"]) simp

lemma undisturbed_facts:
  assumes "undisturbed s s0"
  shows "sd_root s0 = sd_root s" "sd_gone s0 = sd_gone s" "sd_dev s0 = sd_dev s" "sd_fresh s0 = sd_fresh s"
    "sd_clock s0 = sd_clock s" "sd_user s0 \<in> {sd_user s, tl (sd_user s)}" "sd_mount_id s0 = sd_mount_id s"
    "sd_mounts s0 = sd_mounts s" "cl_unreadable (sd_client s0) = cl_unreadable (sd_client s)"
    "set (cl_plan (sd_client s0)) \<subseteq> set (cl_plan (sd_client s))"
  using assms by (auto simp: undisturbed_def)

lemma undisturbed_idle:
  assumes "undisturbed s s0" "sd_user s = []"
  shows "tree_of s0 = tree_of s" "sd_dirs s0 = sd_dirs s" "sd_user s0 = []"
  using assms by (auto simp: undisturbed_def others_idle)

lemma sync_call_cases:
  assumes "sync_call act s = (r, s')"
  shows "\<exists>s0. undisturbed s s0 \<and> (s' = s0 \<and> (\<exists>e. r = Inl e) \<or> act s0 = (r, s'))"
proof (cases "cl_plan (sd_client (others s))")
  case Nil
  then have "act (put_plan [] (others s)) = (r, s')" using assms by (simp add: sync_call_def Let_def)
  moreover have "undisturbed s (put_plan [] (others s))" 
    unfolding undisturbed_def by (intro exI [of _ "others s"] exI [of _ "[]"]) simp
  ultimately show ?thesis by blast
next
  case (Cons x ps)
  then have u: "undisturbed s (put_plan ps (others s))"
    unfolding undisturbed_def by (intro exI [of _ "others s"] exI [of _ ps]) (auto simp: others_def split: list.splits prod.splits)
  show ?thesis using assms Cons by (intro exI [of _ "put_plan ps (others s)"]) (cases x, auto simp: sync_call_def Let_def u)
qed

lemma named_call_cases:
  assumes "named_call p act s = (r, s')"
  shows "\<exists>s0. undisturbed s s0 \<and> (s' = s0 \<and> (\<exists>e. r = Inl e) \<or> act s0 = (r, s'))"
  using assms undisturbed_refl [of s] sync_call_cases [of act s r s']
  by (auto simp: named_call_def act_fail_def split: if_splits)

lemma at_node_cases:
  assumes "at_node p f s = (r, s')"
  shows "s' = s \<and> (\<exists>e. r = Inl e) \<and> node_of s p = None \<or> (\<exists>n. node_of s p = Some n \<and> f n s = (r, s'))"
  using assms by (auto simp: at_node_def split: option.splits)

lemma act_bind_cases:
  assumes "act_bind m f s = (r, s')"
  shows "(\<exists>e. m s = (Inl e, s') \<and> r = Inl e) \<or> (\<exists>a s1. m s = (Inr a, s1) \<and> f a s1 = (r, s'))"
  using assms by (auto simp: act_bind_def split: sum.splits prod.splits)

lemma sd_unlink_cases:
  assumes "sd_unlink p s = (r, s')"
  shows "\<exists>s0. undisturbed s s0 \<and> (s' = s0 \<and> (\<exists>e. r = Inl e) \<or>
    (\<exists>n. node_of s0 p = Some n \<and> n \<noteq> Folder \<and> r = Inr () \<and> s' = drop_name p n s0))"
  using named_call_cases [OF assms [unfolded sd_unlink_def]]
  by (force dest: at_node_cases split: if_splits)

lemma sd_remove_dir_cases:
  assumes "sd_remove_dir p s = (r, s')"
  shows "\<exists>s0. undisturbed s s0 \<and> (s' = s0 \<and> (\<exists>e. r = Inl e) \<or>
    node_of s0 p = Some Folder \<and> entries_of s0 p = [] \<and> r = Inr () \<and> s' = drop_name p Folder s0)"
  using named_call_cases [OF assms [unfolded sd_remove_dir_def]]
  by (force dest: at_node_cases split: if_splits)

lemma sd_link_cases:
  assumes "sd_link c p s = (r, s')"
  shows "\<exists>s0. undisturbed s s0 \<and> (s' = s0 \<and> (\<exists>e. r = Inl e) \<or>
    node_of s0 p = None \<and> reach s0 (butlast p) = None \<and> r = Inr () \<and>
    s' = put_tree (tree_of s0 @ [(p, Regular (c\<lparr>cf_inode := (cf_inode c)\<lparr>f_nlink := 1\<rparr>\<rparr>))]) s0)"
  using named_call_cases [OF assms [unfolded sd_link_def]]
  by (force split: if_splits option.splits)

lemma sd_mkdir_cases:
  assumes "sd_mkdir p s = (r, s')"
  shows "\<exists>s0. undisturbed s s0 \<and> (s' = s0 \<and> (\<exists>e. r = Inl e) \<or>
    node_of s0 p = None \<and> r = Inr () \<and> s' = put_tree (tree_of s0 @ [(p, Folder)]) s0)"
  using named_call_cases [OF assms [unfolded sd_mkdir_def]]
  by (force split: if_splits option.splits)

lemma sd_exchange_cases:
  assumes "sd_exchange a b s = (r, s')"
  shows "\<exists>s0. undisturbed s s0 \<and> (s' = s0 \<and> ((\<exists>e. r = Inl e) \<or> a = b) \<or>
    \<not> prefix a b \<and> \<not> prefix b a \<and> node_of s0 a \<noteq> None \<and> node_of s0 b \<noteq> None \<and> r = Inr () \<and>
    s' = move_names (swapped a b) s0)"
  using named_call_cases [OF assms [unfolded sd_exchange_def]]
  by (force dest!: at_node_cases split: if_splits)

lemma sd_rename_cases:
  assumes "sd_rename a b s = (r, s')"
  shows "\<exists>s0. undisturbed s s0 \<and>
    (s' = s0 \<and> ((\<exists>e. r = Inl e) \<or> a = b \<or>
       (\<exists>m n. node_of s0 a = Some m \<and> node_of s0 b = Some n \<and> same_inode_nodes m n)) \<or>
    (\<exists>m. node_of s0 a = Some m \<and> a \<noteq> b \<and> r = Inr () \<and>
      (node_of s0 b = None \<and> s' = move_names (renamed a b) s0 \<or>
       (\<exists>n. node_of s0 b = Some n \<and> s' = move_names (renamed a b) (drop_name b n s0)))))"
proof -
  obtain s0 where u: "undisturbed s s0" and c: "s' = s0 \<and> (\<exists>e. r = Inl e) \<or>
      at_node a (\<lambda>m s. case reach s (butlast b) of Some e \<Rightarrow> (Inl (Os e), s) | None \<Rightarrow>
           if a = b then (Inr (), s)
           else if m = Folder \<and> strict_prefix a b then (Inl (Os EINVAL), s)
           else (case node_of s b of None \<Rightarrow> (Inr (), move_names (renamed a b) s)
                 | Some n \<Rightarrow> rename_over a b m n s)) s0 = (r, s')"
    using named_call_cases [OF assms [unfolded sd_rename_def]] by blast
  from c show ?thesis
  proof
    assume "s' = s0 \<and> (\<exists>e. r = Inl e)"
    then show ?thesis using u by blast
  next
    assume h: "at_node a (\<lambda>m s. case reach s (butlast b) of Some e \<Rightarrow> (Inl (Os e), s) | None \<Rightarrow>
           if a = b then (Inr (), s)
           else if m = Folder \<and> strict_prefix a b then (Inl (Os EINVAL), s)
           else (case node_of s b of None \<Rightarrow> (Inr (), move_names (renamed a b) s)
                 | Some n \<Rightarrow> rename_over a b m n s)) s0 = (r, s')"
    show ?thesis
      by (rule exI [of _ s0], rule conjI [OF u], insert at_node_cases [OF h])
        (auto simp: rename_over_def split: option.splits if_splits)
  qed
qed

section \<open>Names after a move\<close>

lemma map_of_rekey:
  assumes "\<And>k. k \<in> fst ` set t \<Longrightarrow> f k = q \<longleftrightarrow> k = p"
  shows "map_of (rekey f t) q = map_of t p"
  using assms
proof (induction t)
  case (Cons e t)
  then have "map_of (rekey f t) q = map_of t p" by simp
  then show ?case using Cons.prems [of "fst e"] by (cases e) (auto simp: rekey_def)
qed (simp add: rekey_def)

lemma rekey_None: "(\<And>k. k \<in> fst ` set t \<Longrightarrow> f k \<noteq> q) \<Longrightarrow> map_of (rekey f t) q = None"
  by (force simp: rekey_def map_of_eq_None_iff)

lemma swapped_swapped:
  "\<not> prefix a b \<Longrightarrow> \<not> prefix b a \<Longrightarrow> swapped a b (swapped a b p) = p"
  by (auto simp: swapped_def prefix_def) (metis append_eq_append_conv2)+

lemma swapped_left [simp]: "swapped a b a = b"
  by (simp add: swapped_def)

lemma swapped_right: "\<not> prefix a b \<Longrightarrow> swapped a b b = a"
  by (simp add: swapped_def)

lemma map_of_swapped:
  assumes "\<not> prefix a b" "\<not> prefix b a"
  shows "map_of (rekey (swapped a b) t) q = map_of t (swapped a b q)"
  by (rule map_of_rekey) (use swapped_swapped [OF assms] in metis)

lemma map_of_renamed_elsewhere:
  "\<not> prefix a q \<Longrightarrow> \<not> prefix b q \<Longrightarrow> map_of (rekey (renamed a b) t) q = map_of t q"
  by (rule map_of_rekey) (auto simp: renamed_def)

lemma map_of_renamed_target:
  "b \<notin> fst ` set t \<Longrightarrow> \<not> prefix a b \<Longrightarrow> map_of (rekey (renamed a b) t) b = map_of t a"
  by (rule map_of_rekey) (auto simp: renamed_def prefix_def)

lemma map_of_renamed_source:
  "\<not> prefix b a \<Longrightarrow> map_of (rekey (renamed a b) t) a = None"
  by (rule rekey_None) (auto simp: renamed_def prefix_def)

end
