(* ===== verification/Place.thy ===== *)
theory Place
  imports Sync_Dir
begin

text \<open>
  \<open>crates/hydration-client/src/place.rs\<close> and the mount identity of \<open>hydration-protocol/src/mount.rs\<close>:
  placeholders are built on a file without a name and then linked, renamed or exchanged into place.
  The placer's paths are below its pinned root; the tree of the state is the file system that root was
  opened on.  The counter of scratch names is a natural number: it counts placements.
\<close>

section \<open>The placer\<close>

record placer =
  pl_root :: path
  pl_mount :: u64
  pl_seq :: nat

record guard =
  gd_id :: file_id
  gd_size :: u64
  gd_mtime :: int
  gd_nsec :: int

datatype conditional_place = Placed | TargetChanged

definition guard_of :: "inode \<Rightarrow> guard" where
  "guard_of i = \<lparr>gd_id = f_id i, gd_size = f_size i, gd_mtime = f_mtime i, gd_nsec = f_mtime_nsec i\<rparr>"

text \<open>A folder or a special file has an inode of its own: \<open>None\<close> stands for a guard that is none of a
  regular file.\<close>

definition guard_at :: "path \<Rightarrow> guard option act" where
  "guard_at p =
     named_call p (at_node p (\<lambda>n. act_return (case n of Regular c \<Rightarrow> Some (guard_of (cf_inode c)) | _ \<Rightarrow> None)))"

definition same_inode :: "guard option \<Rightarrow> guard \<Rightarrow> bool" where
  "same_inode found mine = (case found of Some g \<Rightarrow> gd_id g = gd_id mine | None \<Rightarrow> False)"

definition unique_mnt_id :: "u64 act" where
  "unique_mnt_id =
     sync_call (\<lambda>s. case sd_mounts s of [] \<Rightarrow> (Inr (sd_mount_id s), s) | m # ms \<Rightarrow> (m, s\<lparr>sd_mounts := ms\<rparr>))"

definition still_current :: "u64 \<Rightarrow> bool act" where
  "still_current mine = act_bind unique_mnt_id (\<lambda>now. act_return (now = mine))"

definition open_dir :: "path \<Rightarrow> unit act" where
  "open_dir p = named_call p (at_node p (\<lambda>n s. if n = Folder then (Inr (), s) else (Inl (Os ENOTDIR), s)))"

definition placer_new :: "path \<Rightarrow> placer act" where
  "placer_new root =
     act_bind (open_dir root) (\<lambda>_.
     act_bind (sync_call (\<lambda>s. (Inr (sd_mount_id s), s))) (\<lambda>m.
     act_return \<lparr>pl_root = root, pl_mount = m, pl_seq = 0\<rparr>))"

definition root_still_current :: "placer \<Rightarrow> bool act" where
  "root_still_current pl = still_current (pl_mount pl)"

definition normal_component :: "string \<Rightarrow> bool" where
  "normal_component c \<longleftrightarrow> c \<noteq> [] \<and> c \<noteq> ''.'' \<and> c \<noteq> ''..''"

definition below_root :: "placer \<Rightarrow> path \<Rightarrow> path option" where
  "below_root pl p =
     (case path_below (pl_root pl) p of
        None \<Rightarrow> None
      | Some rel \<Rightarrow> if rel \<noteq> [] \<and> list_all normal_component rel then Some rel else None)"

section \<open>Building a placeholder\<close>

definition nameless :: "sync \<Rightarrow> cfile" where
  "nameless s =
     \<lparr>cf_inode = \<lparr>f_id = FileId (sd_dev s) (sd_fresh s), f_size = 0, f_nlink = 0, f_data = (\<lambda>_. None),
                  f_mark = False, f_flags = 0, f_mtime = fst (sd_clock s), f_mtime_nsec = snd (sd_clock s),
                  f_stamp = None, f_hydrated_at = None\<rparr>,
      cf_cloud = None, cf_tag = None, cf_pinned = False, cf_mode = 0x1A4\<rparr>"

definition anonymous :: "cfile act" where
  "anonymous s =
     (case sync_call (\<lambda>s. (Inr (nameless s), s\<lparr>sd_fresh := sd_fresh s + 1\<rparr>)) s of
        (Inl e, s1) \<Rightarrow> (Inl (if raw_os_error e = Some EOPNOTSUPP then Custom Unsupported else e), s1)
      | (Inr c, s1) \<Rightarrow> (Inr c, s1))"

definition fd_set :: "(cfile \<Rightarrow> cfile) \<Rightarrow> cfile \<Rightarrow> cfile act" where
  "fd_set g c = sync_call (act_return (g c))"

text \<open>A length that is negative as \<open>off_t\<close> is refused.\<close>

definition fd_truncate :: "u64 \<Rightarrow> cfile \<Rightarrow> cfile act" where
  "fd_truncate n c =
     sync_call (\<lambda>s. if sint n < 0 then (Inl (Os EINVAL), s)
       else (Inr (c\<lparr>cf_inode := (cf_inode c)\<lparr>f_size := n, f_mtime := fst (sd_clock s), f_mtime_nsec := snd (sd_clock s)\<rparr>\<rparr>), s))"

definition fd_stamp :: "cfile \<Rightarrow> cfile act" where
  "fd_stamp c =
     act_bind (sync_call (act_return (cf_inode c))) (\<lambda>md.
       fd_set (\<lambda>c. c\<lparr>cf_inode := (cf_inode c)\<lparr>f_stamp := Some (stamp_of md)\<rparr>\<rparr>) c)"

definition placeholder :: "u64 \<Rightarrow> string \<Rightarrow> string option \<Rightarrow> cfile act" where
  "placeholder n cid tag =
     act_bind anonymous (\<lambda>c.
     act_bind (fd_set (\<lambda>c. c\<lparr>cf_inode := (cf_inode c)\<lparr>f_mark := True\<rparr>\<rparr>) c) (\<lambda>c.
     act_bind (fd_set (\<lambda>c. c\<lparr>cf_cloud := Some cid\<rparr>) c) (\<lambda>c.
     act_bind (case tag of Some t \<Rightarrow> fd_set (\<lambda>c. c\<lparr>cf_tag := Some t\<rparr>) c | None \<Rightarrow> act_return c) (\<lambda>c.
     act_bind (fd_truncate n c) (\<lambda>c.
     act_bind (act_try (fd_stamp c)) (\<lambda>r.
     act_return (case r of Inr c' \<Rightarrow> c' | Inl _ \<Rightarrow> c)))))))"

text \<open>\<open>mkdirat\<close>, a component at a time.\<close>

fun make_parents :: "path \<Rightarrow> path \<Rightarrow> unit act" where
  "make_parents d [] s = (Inr (), s)"
| "make_parents d (c # cs) s =
     (case sd_mkdir (d @ [c]) s of
        (Inr _, s1) \<Rightarrow> make_parents (d @ [c]) cs s1
      | (Inl e, s1) \<Rightarrow> if kind_of e = AlreadyExists then make_parents (d @ [c]) cs s1 else (Inl e, s1))"

definition scratch_path :: "path \<Rightarrow> path \<Rightarrow> nat \<Rightarrow> path" where
  "scratch_path root rel n =
     root @ butlast rel @ [''.'' @ (if is_utf8 (last rel) then last rel else ''f'') @ scratch_infix @ show_nat n]"

section \<open>Placing\<close>

definition link_into_place :: "path \<Rightarrow> path \<Rightarrow> cfile \<Rightarrow> nat \<Rightarrow> unit act" where
  "link_into_place root rel c n s =
     (case sd_link c (root @ rel) s of
        (Inr _, s1) \<Rightarrow> (Inr (), s1)
      | (Inl e, s1) \<Rightarrow>
          if kind_of e \<noteq> AlreadyExists then (Inl e, s1)
          else let scratch = scratch_path root rel n
               in case sd_unlink scratch s1 of
                    (_, s2) \<Rightarrow>
                      (case sd_link c scratch s2 of
                         (Inl e2, s3) \<Rightarrow> (Inl e2, s3)
                       | (Inr _, s3) \<Rightarrow>
                           (case sd_rename scratch (root @ rel) s3 of
                              (Inr _, s4) \<Rightarrow> (Inr (), s4)
                            | (Inl e3, s4) \<Rightarrow> (case sd_unlink scratch s4 of (_, s5) \<Rightarrow> (Inl e3, s5)))))"

definition place_file :: "placer \<Rightarrow> path \<Rightarrow> u64 \<Rightarrow> string \<Rightarrow> string option \<Rightarrow> sync \<Rightarrow> (io_error + unit) \<times> placer \<times> sync" where
  "place_file pl p n cid tag s =
     (case below_root pl p of
        None \<Rightarrow> (Inl (Custom InvalidInput), pl, s)
      | Some rel \<Rightarrow>
          (case make_parents (pl_root pl) (butlast rel) s of
             (Inl e, s1) \<Rightarrow> (Inl e, pl, s1)
           | (Inr _, s1) \<Rightarrow>
               (case placeholder n cid tag s1 of
                  (Inl e, s2) \<Rightarrow> (Inl e, pl, s2)
                | (Inr c, s2) \<Rightarrow>
                    let pl2 = pl\<lparr>pl_seq := Suc (pl_seq pl)\<rparr>
                    in case link_into_place (pl_root pl) rel c (pl_seq pl2) s2 of (r, s3) \<Rightarrow> (r, pl2, s3))))"

definition remove_file :: "placer \<Rightarrow> path \<Rightarrow> unit act" where
  "remove_file pl p s =
     (case below_root pl p of
        None \<Rightarrow> (Inl (Custom InvalidInput), s)
      | Some rel \<Rightarrow>
          (case sd_unlink (pl_root pl @ rel) s of
             (Inl e, s1) \<Rightarrow> (if kind_of e = NotFound then Inr () else Inl e, s1)
           | (Inr _, s1) \<Rightarrow> (Inr (), s1)))"

section \<open>Placing over an approved file only\<close>

definition discard_placeholder :: "path \<Rightarrow> guard \<Rightarrow> unit act" where
  "discard_placeholder scratch mine =
     act_bind (guard_at scratch) (\<lambda>found.
       if same_inode found mine then sd_unlink scratch else act_fail (Custom io_kind.Other))"

definition restore_target :: "path \<Rightarrow> path \<Rightarrow> guard \<Rightarrow> unit act" where
  "restore_target scratch target mine s =
     (case sd_exchange scratch target s of
        (Inl e, s1) \<Rightarrow> (Inl (Custom (kind_of e)), s1)
      | (Inr _, s1) \<Rightarrow> discard_placeholder scratch mine s1)"

text \<open>From the exchange on.\<close>

definition swap_in :: "path \<Rightarrow> path \<Rightarrow> guard \<Rightarrow> guard \<Rightarrow> conditional_place act" where
  "swap_in scratch target mine expected s =
     (case sd_exchange scratch target s of
        (Inl e, s1) \<Rightarrow>
          act_bind (discard_placeholder scratch mine)
            (\<lambda>_. if kind_of e = NotFound then act_return TargetChanged else act_fail e) s1
      | (Inr _, s1) \<Rightarrow>
          (case guard_at scratch s1 of
             (Inl e, s2) \<Rightarrow> act_bind (restore_target scratch target mine) (\<lambda>_. act_fail e) s2
           | (Inr found, s2) \<Rightarrow>
               if found = Some expected then act_bind (sd_unlink scratch) (\<lambda>_. act_return Placed) s2
               else act_bind (restore_target scratch target mine) (\<lambda>_. act_return TargetChanged) s2))"

text \<open>The loop over scratch names.  It ends: a name is occupied for a while only, by a planned fault, by a
  step of the others, or by a file that is there.\<close>

lemma scratch_path_inj: "scratch_path root rel m = scratch_path root rel n \<Longrightarrow> m = n"
  by (simp add: scratch_path_def)

lemma scratch_path_root: "scratch_path root rel n \<noteq> root"
  by (simp add: scratch_path_def)

definition budget :: "sync \<Rightarrow> nat" where
  "budget s = length (sd_user s) + length (cl_plan (sd_client s))"

definition taken_after :: "path \<Rightarrow> path \<Rightarrow> nat \<Rightarrow> sync \<Rightarrow> nat" where
  "taken_after root rel q s = card {k. q < k \<and> scratch_path root rel k \<in> insert (sd_root s) (fst ` set (tree_of s))}"

lemma sync_call_budget:
  assumes "sync_call act s = (r, s')" "budget s \<noteq> 0"
    and act: "\<And>s0 r s'. act s0 = (r, s') \<Longrightarrow> budget s' = budget s0"
  shows "budget s' < budget s"
proof (cases "cl_plan (sd_client s)")
  case Nil
  then have "act (put_plan [] (others s)) = (r, s')" using assms(1) by (simp add: sync_call_def)
  then have "budget s' = budget (put_plan [] (others s))" by (rule act)
  then have "budget s' = length (tl (sd_user s))" by (simp add: budget_def)
  then show ?thesis using assms(2) Nil by (simp add: budget_def)
next
  case (Cons x ps)
  have b: "budget (put_plan ps (others s)) < budget s" using Cons by (simp add: budget_def)
  show ?thesis
  proof (cases x)
    case None
    then have "act (put_plan ps (others s)) = (r, s')" using assms(1) Cons by (simp add: sync_call_def)
    then show ?thesis using b by (simp add: act)
  next
    case (Some e)
    then show ?thesis using assms(1) Cons b by (simp add: sync_call_def)
  qed
qed

lemma occupied_link:
  assumes "sd_link c p s = (Inl e, s1)" "kind_of e = AlreadyExists"
  shows "budget s1 < budget s \<or> s1 = s \<and> node_of s p \<noteq> None"
proof (cases "has_nul p")
  case True
  then show ?thesis using assms by (auto simp: sd_link_def named_call_def act_fail_def)
next
  case False
  let ?act = "\<lambda>s. case reach s (butlast p) of Some e \<Rightarrow> (Inl (Os e), s)
     | None \<Rightarrow> if node_of s p \<noteq> None then (Inl (Os EEXIST), s)
          else (Inr (), put_tree (tree_of s @ [(p, Regular (c\<lparr>cf_inode := (cf_inode c)\<lparr>f_nlink := 1\<rparr>\<rparr>))]) s)"
  have call: "sync_call ?act s = (Inl e, s1)" using assms(1) False by (simp add: sd_link_def named_call_def)
  show ?thesis
  proof (cases "budget s = 0")
    case True
    then have "sd_user s = []" "cl_plan (sd_client s) = []" by (simp_all add: budget_def)
    then have "?act s = (Inl e, s1)" using call by (simp only: sync_call_idle)
    then show ?thesis using assms(2)
      by (auto simp: reach_def kind_of_errno_def split: option.splits if_splits list.splits)
  next
    case False
    then show ?thesis by (intro disjI1 sync_call_budget [OF call]) (auto simp: budget_def split: option.splits if_splits)
  qed
qed

lemma taken_next:
  assumes "node_of s (scratch_path root rel (Suc q)) \<noteq> None"
  shows "taken_after root rel (Suc q) s < taken_after root rel q s"
proof -
  define K where "K = insert (sd_root s) (fst ` set (tree_of s))"
  have inj: "inj (scratch_path root rel)" by (rule injI) (rule scratch_path_inj)
  have "finite (scratch_path root rel -` K)" by (rule finite_vimageI [OF _ inj]) (simp add: K_def)
  then have fin: "finite {k. q < k \<and> scratch_path root rel k \<in> K}"
    by (rule rev_finite_subset) auto
  have "scratch_path root rel (Suc q) \<in> K"
    using assms by (auto simp: node_of_def K_def split: if_splits dest!: map_of_SomeD intro: rev_image_eqI)
  then have "{k. Suc q < k \<and> scratch_path root rel k \<in> K} \<subset> {k. q < k \<and> scratch_path root rel k \<in> K}"
    by (intro psubsetI) (auto dest: equalityD2)
  then show ?thesis unfolding taken_after_def K_def [symmetric] by (rule psubset_card_mono [OF fin])
qed

function pick_scratch :: "cfile \<Rightarrow> path \<Rightarrow> path \<Rightarrow> nat \<Rightarrow> sync \<Rightarrow> (io_error + path) \<times> nat \<times> sync" where
  "pick_scratch c root rel q s =
     (case sd_link c (scratch_path root rel (Suc q)) s of
           (Inr _, s1) \<Rightarrow> (Inr (scratch_path root rel (Suc q)), Suc q, s1)
         | (Inl e, s1) \<Rightarrow> if kind_of e = AlreadyExists then pick_scratch c root rel (Suc q) s1 else (Inl e, Suc q, s1))"
  by pat_completeness auto

termination
proof (relation "inv_image (less_than <*lex*> less_than) (\<lambda>(c, root, rel, q, s). (budget s, taken_after root rel q s))", goal_cases)
  case 2
  show ?case using occupied_link [OF 2(1) [unfolded 2(2), symmetric] 2(3)] taken_next by auto
qed (simp add: wf_inv_image wf_lex_prod)

declare pick_scratch.simps [simp del]

definition place_if_unchanged ::
  "placer \<Rightarrow> path \<Rightarrow> u64 \<Rightarrow> string \<Rightarrow> string option \<Rightarrow> guard \<Rightarrow> sync \<Rightarrow> (io_error + conditional_place) \<times> placer \<times> sync" where
  "place_if_unchanged pl p n cid tag expected s =
     (case below_root pl p of
        None \<Rightarrow> (Inl (Custom InvalidInput), pl, s)
      | Some rel \<Rightarrow>
          (case make_parents (pl_root pl) (butlast rel) s of
             (Inl e, s1) \<Rightarrow> (Inl e, pl, s1)
           | (Inr _, s1) \<Rightarrow>
               (case placeholder n cid tag s1 of
                  (Inl e, s2) \<Rightarrow> (Inl e, pl, s2)
                | (Inr c, s2) \<Rightarrow>
                    (case sync_call (act_return (guard_of (cf_inode c))) s2 of
                       (Inl e, s3) \<Rightarrow> (Inl e, pl, s3)
                     | (Inr mine, s3) \<Rightarrow>
                         (case pick_scratch c (pl_root pl) rel (pl_seq pl) s3 of
                            (Inl e, q, s4) \<Rightarrow> (Inl e, pl\<lparr>pl_seq := q\<rparr>, s4)
                          | (Inr scratch, q, s4) \<Rightarrow>
                              (case swap_in scratch (pl_root pl @ rel) mine expected s4 of
                                 (r, s5) \<Rightarrow> (r, pl\<lparr>pl_seq := q\<rparr>, s5)))))))"

section \<open>Conditional replacement destroys what was approved, and nothing else\<close>

text \<open>The others leave a set of names alone.\<close>

definition careful :: "path set \<Rightarrow> sync \<Rightarrow> bool" where
  "careful X s \<longleftrightarrow> (\<forall>u\<in>set (sd_user s). \<forall>d. \<forall>p\<in>X. map_of (fst (u d)) p = map_of (fst d) p)"

lemma careful_others:
  assumes "careful X s" "p \<in> X"
  shows "node_of (others s) p = node_of s p"
proof (cases "sd_user s")
  case (Cons u us)
  obtain t d where td: "u (tree_of s, sd_dirs s) = (t, d)" by fastforce
  have "\<forall>d. \<forall>p\<in>X. map_of (fst (u d)) p = map_of (fst d) p" using assms(1) Cons by (simp add: careful_def)
  from this [rule_format, OF assms(2), of "(tree_of s, sd_dirs s)"]
  have "map_of (fst (u (tree_of s, sd_dirs s))) p = map_of (tree_of s) p" by simp
  then show ?thesis using Cons td by (simp add: node_of_def others_def)
qed (simp add: others_def)

lemma careful_tl: "careful X s \<Longrightarrow> sd_user s' \<in> {sd_user s, tl (sd_user s)} \<Longrightarrow> careful X s'"
  by (cases "sd_user s") (auto simp: careful_def)

lemma undisturbed_careful:
  assumes "undisturbed s s0" "careful X s"
  shows "careful X s0" "p \<in> X \<Longrightarrow> node_of s0 p = node_of s p"
proof -
  show "careful X s0" by (rule careful_tl [OF assms(2) undisturbed_facts(6) [OF assms(1)]])
  assume p: "p \<in> X"
  obtain t ps where "t = s \<or> t = others s" "s0 = put_plan ps t" using assms(1) unfolding undisturbed_def by blast
  moreover have "node_of (put_plan ps t) p = node_of t p" by (simp add: node_of_def)
  ultimately show "node_of s0 p = node_of s p" using careful_others [OF assms(2) p] by metis
qed

text \<open>The files a stretch of calls took away.\<close>

definition lost :: "(path \<times> cfile \<Rightarrow> bool) \<Rightarrow> sync \<Rightarrow> sync \<Rightarrow> bool" where
  "lost A s s' \<longleftrightarrow> (\<exists>cs. sd_gone s' = sd_gone s @ cs \<and> (\<forall>c\<in>set cs. A c))"

lemma lost_refl: "sd_gone s' = sd_gone s \<Longrightarrow> lost A s s'"
  by (simp add: lost_def)

lemma lost_trans: "lost A s s1 \<Longrightarrow> lost A s1 s2 \<Longrightarrow> lost A s s2"
  by (auto simp: lost_def)

lemma drop_name_gone [simp]: "sd_gone (drop_name p n s) = sd_gone s @ files_of p n"
  by (simp add: drop_name_def)

lemma move_names_simps [simp]:
  "sd_gone (move_names f s) = sd_gone s" "sd_user (move_names f s) = sd_user s" "sd_root (move_names f s) = sd_root s"
  "tree_of (move_names f s) = rekey f (tree_of s)"
  by (simp_all add: move_names_def)

definition our_file :: "guard \<Rightarrow> path \<times> cfile \<Rightarrow> bool" where
  "our_file mine e \<longleftrightarrow> f_id (cf_inode (snd e)) = gd_id mine"

lemma sd_unlink_lost:
  assumes "sd_unlink p s = (r, s')" "careful X s" "p \<in> X"
    and "\<And>c. node_of s p = Some (Regular c) \<Longrightarrow> A (p, c)"
  shows "lost A s s' \<and> (r = Inr () \<or> sd_gone s' = sd_gone s)"
proof -
  obtain s0 where u: "undisturbed s s0" and c: "s' = s0 \<and> (\<exists>e. r = Inl e) \<or>
      (\<exists>n. node_of s0 p = Some n \<and> n \<noteq> Folder \<and> r = Inr () \<and> s' = drop_name p n s0)"
    using sd_unlink_cases [OF assms(1)] by blast
  note n = undisturbed_careful(2) [OF u assms(2,3)] and f = undisturbed_facts(2) [OF u]
  from c show ?thesis
  proof
    assume "\<exists>n. node_of s0 p = Some n \<and> n \<noteq> Folder \<and> r = Inr () \<and> s' = drop_name p n s0"
    then obtain m where "node_of s p = Some m" "r = Inr ()" "s' = drop_name p m s0" using n by auto
    then show ?thesis using f assms(4) by (cases m) (auto simp: lost_def files_of_def)
  qed (use f in \<open>auto intro: lost_refl\<close>)
qed

lemma guard_at_cases:
  assumes "guard_at p s = (r, s')"
  shows "undisturbed s s' \<and> (\<forall>g. r = Inr g \<longrightarrow>
    (\<exists>n. node_of s' p = Some n \<and> g = (case n of Regular c \<Rightarrow> Some (guard_of (cf_inode c)) | _ \<Rightarrow> None)))"
  using named_call_cases [OF assms [unfolded guard_at_def]]
  by (auto simp: act_return_def dest!: at_node_cases)

lemma discard_lost:
  assumes "discard_placeholder scratch mine s = (r, s')" "careful X s" "scratch \<in> X"
  shows "lost (our_file mine) s s'"
proof -
  from act_bind_cases [OF assms(1) [unfolded discard_placeholder_def]] show ?thesis
  proof (elim disjE exE conjE)
    fix e assume "guard_at scratch s = (Inl e, s')"
    then show ?thesis using guard_at_cases undisturbed_facts(2) lost_refl by blast
  next
    fix found s1
    assume g: "guard_at scratch s = (Inr found, s1)"
      and r: "(if same_inode found mine then sd_unlink scratch else act_fail (Custom io_kind.Other)) s1 = (r, s')"
    note u = guard_at_cases [OF g]
    have s1: "lost (our_file mine) s s1" "careful X s1"
      using u undisturbed_facts(2) lost_refl undisturbed_careful(1) assms(2) by blast+
    show ?thesis
    proof (cases "same_inode found mine")
      case True
      have "our_file mine (scratch, c)" if "node_of s1 scratch = Some (Regular c)" for c
        using True u that by (auto simp: same_inode_def our_file_def guard_of_def)
      then have "lost (our_file mine) s1 s'"
        using sd_unlink_lost [of scratch s1 r s' X "our_file mine"] r True s1(2) assms(3) by auto
      then show ?thesis using s1(1) lost_trans by blast
    next
      case False
      then show ?thesis using r s1(1) by (simp add: act_fail_def)
    qed
  qed
qed

lemma exchange_gone:
  assumes "sd_exchange a b s = (r, s')" "careful X s"
  shows "sd_gone s' = sd_gone s \<and> careful X s'"
proof -
  obtain s0 where "undisturbed s s0" "sd_gone s' = sd_gone s0" "sd_user s' = sd_user s0"
    using sd_exchange_cases [OF assms(1)] by auto
  then show ?thesis using undisturbed_facts(2) undisturbed_careful(1) assms(2) by (auto simp: careful_def)
qed

lemma restore_lost:
  assumes "restore_target scratch target mine s = (r, s')" "careful X s" "scratch \<in> X"
  shows "lost (our_file mine) s s'"
proof -
  obtain re s1 where e: "sd_exchange scratch target s = (re, s1)" by fastforce
  note g = exchange_gone [OF e assms(2)]
  show ?thesis
  proof (cases re)
    case (Inl x)
    then show ?thesis using assms(1) e g by (auto simp: restore_target_def intro: lost_refl)
  next
    case (Inr x)
    then have "discard_placeholder scratch mine s1 = (r, s')" using assms(1) e by (simp add: restore_target_def)
    then have "lost (our_file mine) s1 s'" using discard_lost g assms(3) by blast
    then show ?thesis using g lost_trans lost_refl by blast
  qed
qed

text \<open>What is gone after the exchange, by the answer.\<close>

definition approved_only :: "guard \<Rightarrow> guard \<Rightarrow> io_error + conditional_place \<Rightarrow> sync \<Rightarrow> sync \<Rightarrow> bool" where
  "approved_only mine expected r s s' \<longleftrightarrow>
     (if r = Inr Placed then \<exists>q c. sd_gone s' = sd_gone s @ [(q, c)] \<and> guard_of (cf_inode c) = expected
      else lost (our_file mine) s s')"

lemma swap_in_approved:
  assumes "swap_in scratch target mine expected s = (r, s')" "careful X s" "scratch \<in> X"
  shows "approved_only mine expected r s s'"
proof -
  obtain re s1 where e: "sd_exchange scratch target s = (re, s1)" by fastforce
  note g = exchange_gone [OF e assms(2)]
  have wide: "lost (our_file mine) s s'" if "lost (our_file mine) s1 s'"
    using lost_trans [OF lost_refl that] g by blast
  show ?thesis
  proof (cases re)
    case (Inl x)
    have "act_bind (discard_placeholder scratch mine)
        (\<lambda>_. if kind_of x = NotFound then act_return TargetChanged else act_fail x) s1 = (r, s')"
      using assms(1) e Inl by (simp add: swap_in_def)
    then obtain rd where d: "discard_placeholder scratch mine s1 = (rd, s')" and "r \<noteq> Inr Placed"
      by (auto dest!: act_bind_cases simp: act_return_def act_fail_def split: if_splits)
    then show ?thesis using wide discard_lost [OF d] g assms(3) by (auto simp: approved_only_def)
  next
    case (Inr x)
    obtain rg s2 where l: "guard_at scratch s1 = (rg, s2)" by fastforce
    note u = guard_at_cases [OF l]
    have c2: "careful X s2" "sd_gone s2 = sd_gone s"
      using u g undisturbed_careful(1) undisturbed_facts(2) by auto
    show ?thesis
    proof (cases "rg = Inr (Some expected)")
      case True
      then obtain n where "node_of s2 scratch = Some n"
          "Some expected = (case n of Regular c \<Rightarrow> Some (guard_of (cf_inode c)) | _ \<Rightarrow> None)" using u by blast
      then obtain c where c: "node_of s2 scratch = Some (Regular c)" "guard_of (cf_inode c) = expected"
        by (cases n) auto
      have "act_bind (sd_unlink scratch) (\<lambda>_. act_return Placed) s2 = (r, s')"
        using assms(1) e Inr l True by (simp add: swap_in_def)
      then obtain ru where un: "sd_unlink scratch s2 = (ru, s')" "r = (case ru of Inl e \<Rightarrow> Inl e | Inr _ \<Rightarrow> Inr Placed)"
        by (auto dest!: act_bind_cases simp: act_return_def)
      obtain s0 where s0: "undisturbed s2 s0" "s' = s0 \<and> (\<exists>e. ru = Inl e) \<or>
          (\<exists>n. node_of s0 scratch = Some n \<and> n \<noteq> Folder \<and> ru = Inr () \<and> s' = drop_name scratch n s0)"
        using sd_unlink_cases [OF un(1)] by blast
      have "node_of s0 scratch = Some (Regular c)" "sd_gone s0 = sd_gone s"
        using undisturbed_careful(2) [OF s0(1) c2(1) assms(3)] c(1) undisturbed_facts(2) [OF s0(1)] c2(2) by simp_all
      then show ?thesis using s0(2) un(2) c(2)
        by (auto simp: approved_only_def lost_def files_of_def)
    next
      case False
      have "\<exists>f. act_bind (restore_target scratch target mine) (\<lambda>_. f) s2 = (r, s') \<and>
          ((\<exists>e. f = act_fail e) \<or> f = act_return TargetChanged)"
        using assms(1) e Inr l False by (cases rg) (auto simp: swap_in_def split: if_splits)
      then obtain rr where "restore_target scratch target mine s2 = (rr, s')" "r \<noteq> Inr Placed"
        by (auto dest!: act_bind_cases simp: act_return_def act_fail_def)
      then show ?thesis
        using restore_lost [OF _ c2(1) assms(3)] lost_trans [OF lost_refl [OF c2(2)]] by (auto simp: approved_only_def)
    qed
  qed
qed

text \<open>Calls that take no name away.\<close>

definition mild :: "sync \<Rightarrow> sync \<Rightarrow> bool" where
  "mild s s' \<longleftrightarrow> sd_gone s' = sd_gone s \<and> sd_dev s' = sd_dev s \<and> sd_root s' = sd_root s \<and>
     set (sd_user s') \<subseteq> set (sd_user s)"

lemma mild_trans: "mild s s1 \<Longrightarrow> mild s1 s2 \<Longrightarrow> mild s s2"
  by (auto simp: mild_def)

lemma mild_careful: "mild s s' \<Longrightarrow> careful X s \<Longrightarrow> careful X s'"
  by (auto simp: mild_def careful_def)

lemma undisturbed_mild: "undisturbed s s0 \<Longrightarrow> mild s s0 \<and> sd_fresh s0 = sd_fresh s"
  using undisturbed_facts [of s s0] by (cases "sd_user s") (auto simp: mild_def)

text \<open>Acts that are mild whatever they answer, and what their answers satisfy.\<close>

definition gentle :: "'a act \<Rightarrow> bool" where
  "gentle act \<longleftrightarrow> (\<forall>s r s'. act s = (r, s') \<longrightarrow> mild s s')"

definition yields :: "('a \<Rightarrow> bool) \<Rightarrow> 'a act \<Rightarrow> bool" where
  "yields P act \<longleftrightarrow> (\<forall>s a s'. act s = (Inr a, s') \<longrightarrow> P a)"

named_theorems act_rules \<open>gentle acts and the answers of acts\<close>

lemma gentleD: "gentle act \<Longrightarrow> act s = (r, s') \<Longrightarrow> mild s s'"
  by (simp add: gentle_def)

lemma yieldsD: "yields P act \<Longrightarrow> act s = (Inr a, s') \<Longrightarrow> P a"
  unfolding yields_def by blast

lemma gentle_return [act_rules]: "gentle (act_return a)"
  by (simp add: gentle_def act_return_def mild_def)

lemma gentle_bind [act_rules]: "gentle m \<Longrightarrow> (\<And>a. gentle (f a)) \<Longrightarrow> gentle (act_bind m f)"
  unfolding gentle_def by (blast dest: act_bind_cases intro: mild_trans)

lemma gentle_try [act_rules]: "gentle m \<Longrightarrow> gentle (act_try m)"
  by (auto simp: gentle_def act_try_def split: prod.splits)

lemma gentle_call [act_rules]: "gentle act \<Longrightarrow> gentle (sync_call act)"
  unfolding gentle_def by (blast dest: sync_call_cases undisturbed_mild intro: mild_trans)

lemma gentle_named_call [act_rules]: "gentle act \<Longrightarrow> gentle (named_call p act)"
  unfolding gentle_def by (blast dest: named_call_cases undisturbed_mild intro: mild_trans)

lemma gentle_option [act_rules]: "gentle m \<Longrightarrow> (\<And>a. gentle (f a)) \<Longrightarrow> gentle (case x of None \<Rightarrow> m | Some a \<Rightarrow> f a)"
  by (cases x) auto

lemma gentle_fd_truncate [act_rules]: "gentle (fd_truncate n c)"
  unfolding fd_truncate_def by (intro act_rules) (auto simp: gentle_def mild_def split: if_splits)

lemma gentle_fd_set [act_rules]: "gentle (fd_set g c)"
  unfolding fd_set_def by (intro act_rules)

lemma gentle_fd_stamp [act_rules]: "gentle (fd_stamp c)"
  unfolding fd_stamp_def by (intro act_rules)

lemma yields_bind: "yields P m \<Longrightarrow> (\<And>a. P a \<Longrightarrow> yields Q (f a)) \<Longrightarrow> yields Q (act_bind m f)"
  unfolding yields_def by (blast dest: act_bind_cases)

lemma yields_return: "P a \<Longrightarrow> yields P (act_return a)"
  by (simp add: yields_def act_return_def)

lemma yields_try: "yields P m \<Longrightarrow> yields (\<lambda>r. \<forall>a. r = Inr a \<longrightarrow> P a) (act_try m)"
  by (auto simp: yields_def act_try_def split: prod.splits)

lemma yields_fd_set: "P (g c) \<Longrightarrow> yields P (fd_set g c)"
  by (auto simp: yields_def fd_set_def act_return_def dest!: sync_call_cases)

lemma yields_fd_truncate:
  "(\<And>t. 0 \<le> sint n \<Longrightarrow>
      P (c\<lparr>cf_inode := (cf_inode c)\<lparr>f_size := n, f_mtime := fst t, f_mtime_nsec := snd t\<rparr>\<rparr>)) \<Longrightarrow> yields P (fd_truncate n c)"
  by (force simp: yields_def fd_truncate_def dest!: sync_call_cases split: if_splits)

lemma yields_fd_stamp:
  "(\<And>v. P (c\<lparr>cf_inode := (cf_inode c)\<lparr>f_stamp := v\<rparr>\<rparr>)) \<Longrightarrow> yields P (fd_stamp c)"
  unfolding fd_stamp_def
proof (rule yields_bind [where P = "\<lambda>_. True"])
  show "yields (\<lambda>_. True) (sync_call (act_return (cf_inode c)))" by (simp add: yields_def)
qed (auto intro: yields_fd_set)

lemma anonymous_cases:
  assumes "anonymous s = (r, s')"
  shows "mild s s' \<and> (\<forall>c. r = Inr c \<longrightarrow> (\<exists>t. c = nameless (t\<lparr>sd_dev := sd_dev s, sd_fresh := sd_fresh s\<rparr>)))"
proof -
  obtain r0 where "sync_call (\<lambda>s. (Inr (nameless s), s\<lparr>sd_fresh := sd_fresh s + 1\<rparr>)) s = (r0, s')"
      "\<And>c. r = Inr c \<Longrightarrow> r0 = Inr c"
    using assms by (auto simp: anonymous_def split: prod.splits sum.splits)
  then obtain s0 where u: "undisturbed s s0" and c: "s' = s0 \<and> (\<exists>e. r0 = Inl e) \<or>
      r0 = Inr (nameless s0) \<and> s' = s0\<lparr>sd_fresh := sd_fresh s0 + 1\<rparr>" "\<And>c. r = Inr c \<Longrightarrow> r0 = Inr c"
    by (force dest!: sync_call_cases)
  have "nameless s0 = nameless (s0\<lparr>sd_dev := sd_dev s, sd_fresh := sd_fresh s\<rparr>)"
    using undisturbed_facts [OF u] by (simp add: nameless_def)
  then show ?thesis using c undisturbed_mild [OF u] by (auto simp: mild_def)
qed

text \<open>A placeholder is complete before it has a name: the mark, the identity and its length.\<close>

definition is_placeholder :: "u64 \<Rightarrow> string \<Rightarrow> string option \<Rightarrow> cfile \<Rightarrow> bool" where
  "is_placeholder n cid tag c \<longleftrightarrow>
     f_mark (cf_inode c) \<and> f_size (cf_inode c) = n \<and> f_data (cf_inode c) = (\<lambda>_. None) \<and>
     cf_cloud c = Some cid \<and> cf_tag c = tag \<and> \<not> cf_pinned c"

lemma placeholder_cases:
  assumes "placeholder n cid tag s = (r, s')"
  shows "mild s s' \<and> (\<forall>c. r = Inr c \<longrightarrow>
    is_placeholder n cid tag c \<and> f_id (cf_inode c) = FileId (sd_dev s) (sd_fresh s) \<and> 0 \<le> sint n)"
proof -
  define rest where "rest = (\<lambda>c.
     act_bind (fd_set (\<lambda>c. c\<lparr>cf_inode := (cf_inode c)\<lparr>f_mark := True\<rparr>\<rparr>) c) (\<lambda>c.
     act_bind (fd_set (\<lambda>c. c\<lparr>cf_cloud := Some cid\<rparr>) c) (\<lambda>c.
     act_bind (case tag of Some t \<Rightarrow> fd_set (\<lambda>c. c\<lparr>cf_tag := Some t\<rparr>) c | None \<Rightarrow> act_return c) (\<lambda>c.
     act_bind (fd_truncate n c) (\<lambda>c.
     act_bind (act_try (fd_stamp c)) (\<lambda>r.
     act_return (case r of Inr c' \<Rightarrow> c' | Inl _ \<Rightarrow> c)))))))"
  have p: "act_bind anonymous rest s = (r, s')" using assms by (simp add: placeholder_def rest_def)
  have g: "gentle (rest c)" for c unfolding rest_def by (intro act_rules)
  let ?P = "\<lambda>i c. f_mark (cf_inode c) \<and> f_data (cf_inode c) = (\<lambda>_. None) \<and> f_id (cf_inode c) = i \<and> \<not> cf_pinned c"
  have y: "yields (\<lambda>c. is_placeholder n cid tag c \<and> f_id (cf_inode c) = i \<and> 0 \<le> sint n) (rest c)"
    if "c = nameless t" "i = f_id (cf_inode c)" for c t i
    unfolding rest_def
    apply (rule yields_bind [where P = "\<lambda>c. ?P i c \<and> cf_cloud c = None \<and> cf_tag c = None"])
     apply (rule yields_fd_set, simp add: that nameless_def)
    apply (rule yields_bind [where P = "\<lambda>c. ?P i c \<and> cf_cloud c = Some cid \<and> cf_tag c = None"])
     apply (rule yields_fd_set, simp)
    apply (rule yields_bind [where P = "\<lambda>c. ?P i c \<and> cf_cloud c = Some cid \<and> cf_tag c = tag"])
     apply (cases tag; simp add: yields_fd_set yields_return)
    apply (rule yields_bind [where P = "\<lambda>c. is_placeholder n cid tag c \<and> f_id (cf_inode c) = i \<and> 0 \<le> sint n"])
     apply (rule yields_fd_truncate, simp add: is_placeholder_def)
    apply (rule yields_bind [where P = "\<lambda>r. \<forall>a. r = Inr a \<longrightarrow>
        is_placeholder n cid tag a \<and> f_id (cf_inode a) = i \<and> 0 \<le> sint n"])
     apply (rule yields_try, rule yields_fd_stamp, simp add: is_placeholder_def)
    apply (rule yields_return, simp split: sum.split)
    done
  from act_bind_cases [OF p] show ?thesis
  proof (elim disjE exE conjE)
    fix e assume "anonymous s = (Inl e, s')" "r = Inl e"
    then show ?thesis using anonymous_cases by auto
  next
    fix c s1 assume a: "anonymous s = (Inr c, s1)" and b: "rest c s1 = (r, s')"
    then obtain t where t: "c = nameless (t\<lparr>sd_dev := sd_dev s, sd_fresh := sd_fresh s\<rparr>)" "mild s s1"
      using anonymous_cases by blast
    have "f_id (cf_inode c) = FileId (sd_dev s) (sd_fresh s)" by (simp add: t nameless_def)
    then show ?thesis using y [OF t(1)] b gentleD [OF g b] t(2) mild_trans by (auto simp: yields_def)
  qed
qed

lemma sd_mkdir_mild: "sd_mkdir p s = (r, s') \<Longrightarrow> mild s s' \<and> sd_fresh s' = sd_fresh s"
  by (drule sd_mkdir_cases) (auto simp: mild_def dest!: undisturbed_mild)

lemma make_parents_mild: "make_parents d cs s = (r, s') \<Longrightarrow> mild s s' \<and> sd_fresh s' = sd_fresh s"
proof (induction d cs s arbitrary: r s' rule: make_parents.induct)
  case (1 d s)
  then show ?case by (simp add: mild_def)
next
  case (2 d c cs s)
  obtain r1 s1 where m: "sd_mkdir (d @ [c]) s = (r1, s1)" by fastforce
  note u = sd_mkdir_mild [OF m]
  show ?case
  proof (cases "(\<exists>e. r1 = Inl e \<and> kind_of e \<noteq> AlreadyExists)")
    case True
    then show ?thesis using 2(3) m u by auto
  next
    case False
    then have "make_parents (d @ [c]) cs s1 = (r, s')" using 2(3) m by (cases r1) auto
    moreover have "make_parents (d @ [c]) cs s1 = (r, s') \<Longrightarrow> mild s1 s' \<and> sd_fresh s' = sd_fresh s1"
    proof (cases r1)
      case (Inl e)
      then show "make_parents (d @ [c]) cs s1 = (r, s') \<Longrightarrow> mild s1 s' \<and> sd_fresh s' = sd_fresh s1"
        using 2(1) [OF m [symmetric] Inl] False by blast
    next
      case (Inr x)
      then show "make_parents (d @ [c]) cs s1 = (r, s') \<Longrightarrow> mild s1 s' \<and> sd_fresh s' = sd_fresh s1"
        using 2(2) [OF m [symmetric] Inr] by blast
    qed
    ultimately show ?thesis using u mild_trans [of s s1 s'] by simp
  qed
qed

lemma sd_link_mild: "sd_link c p s = (r, s') \<Longrightarrow> mild s s' \<and> sd_fresh s' = sd_fresh s"
  by (drule sd_link_cases) (auto simp: mild_def dest!: undisturbed_mild)

lemma pick_scratch_mild:
  "pick_scratch c root rel q s = (r, q', s') \<Longrightarrow>
     mild s s' \<and> (\<forall>p. r = Inr p \<longrightarrow> p = scratch_path root rel q' \<and> q < q')"
proof (induction c root rel q s arbitrary: r rule: pick_scratch.induct)
  case (1 c root rel q s)
  obtain r1 s1 where l: "sd_link c (scratch_path root rel (Suc q)) s = (r1, s1)" by fastforce
  note u = sd_link_mild [OF l]
  show ?case
  proof (cases "\<exists>e. r1 = Inl e \<and> kind_of e = AlreadyExists")
    case True
    then obtain e where e: "r1 = Inl e" "kind_of e = AlreadyExists" by blast
    then have "pick_scratch c root rel (Suc q) s1 = (r, q', s')" using 1(2) l by (simp add: pick_scratch.simps [of c root rel q s])
    from 1(1) [OF l [symmetric] e(1,2) this] have "mild s1 s'" "\<forall>p. r = Inr p \<longrightarrow> p = scratch_path root rel q' \<and> Suc q < q'"
      by blast+
    then show ?thesis using u mild_trans [of s s1 s'] by auto
  next
    case False
    then have "r = (case r1 of Inr _ \<Rightarrow> Inr (scratch_path root rel (Suc q)) | Inl e \<Rightarrow> Inl e)" "q' = Suc q" "s' = s1"
      using 1(2) l by (cases r1; auto simp: pick_scratch.simps [of c root rel q s])+
    then show ?thesis using u by (cases r1) auto
  qed
qed

text \<open>The stages before the exchange.\<close>

lemma place_if_unchanged_stages:
  assumes "place_if_unchanged pl p n cid tag expected s = (r, pl', s')" "below_root pl p = Some rel"
  shows "(\<exists>e. r = Inl e) \<and> mild s s' \<or>
    (\<exists>c q s4. mild s s4 \<and> is_placeholder n cid tag c \<and> f_id (cf_inode c) = FileId (sd_dev s) (sd_fresh s) \<and>
       swap_in (scratch_path (pl_root pl) rel q) (pl_root pl @ rel) (guard_of (cf_inode c)) expected s4 = (r, s'))"
proof -
  obtain r1 s1 where m: "make_parents (pl_root pl) (butlast rel) s = (r1, s1)" by fastforce
  note m1 = make_parents_mild [OF m]
  show ?thesis
  proof (cases r1)
    case (Inl e)
    then have "r = Inl e \<and> s' = s1" using assms m by (simp add: place_if_unchanged_def)
      then show ?thesis using m1 by simp
  next
    case 1: (Inr u)
    obtain r2 s2 where h: "placeholder n cid tag s1 = (r2, s2)" by fastforce
    note h1 = placeholder_cases [OF h]
    have ms2: "mild s s2" using m1 h1 mild_trans by blast
    show ?thesis
    proof (cases r2)
      case (Inl e)
      then have "r = Inl e \<and> s' = s2" using assms m 1 h by (simp add: place_if_unchanged_def)
      then show ?thesis using ms2 by simp
    next
      case 2: (Inr c)
      have c: "is_placeholder n cid tag c" "f_id (cf_inode c) = FileId (sd_dev s) (sd_fresh s)"
        using h1 2 m1 by (auto simp: mild_def)
      obtain r3 s3 where g: "sync_call (act_return (guard_of (cf_inode c))) s2 = (r3, s3)" by fastforce
      have ms3: "mild s s3" using ms2 gentleD [OF gentle_call [OF gentle_return] g] mild_trans by blast
      have r3: "r3 = Inr a \<Longrightarrow> a = guard_of (cf_inode c)" for a
        using sync_call_cases [OF g] by (auto simp: act_return_def)
      show ?thesis
      proof (cases r3)
        case (Inl e)
        then have "r = Inl e \<and> s' = s3" using assms m 1 h 2 g by (simp add: place_if_unchanged_def)
      then show ?thesis using ms3 by simp
      next
        case 3: (Inr a)
        obtain r4 q s4 where k: "pick_scratch c (pl_root pl) rel (pl_seq pl) s3 = (r4, q, s4)" by (metis prod.exhaust)
        note k1 = pick_scratch_mild [OF k]
        have ms4: "mild s s4" using ms3 k1 mild_trans by blast
        show ?thesis
        proof (cases r4)
          case (Inl e)
          then have "r = Inl e \<and> s' = s4" using assms m 1 h 2 g 3 k by (simp add: place_if_unchanged_def)
      then show ?thesis using ms4 by simp
        next
          case 4: (Inr sc)
          have "swap_in (scratch_path (pl_root pl) rel q) (pl_root pl @ rel) (guard_of (cf_inode c)) expected s4 = (r, s')"
            using assms m 1 h 2 g 3 k 4 k1 r3 [OF 3] by (simp add: place_if_unchanged_def split: prod.splits)
          then show ?thesis using ms4 c by blast
        qed
      qed
    qed
  qed
qed

lemma approved:
  assumes "place_if_unchanged pl p n cid tag expected s = (r, pl', s')" "below_root pl p = Some rel"
    and "\<forall>u\<in>set (sd_user s). \<forall>d k.
      map_of (fst (u d)) (scratch_path (pl_root pl) rel k) = map_of (fst d) (scratch_path (pl_root pl) rel k)"
  shows "if r = Inr Placed then \<exists>q c. sd_gone s' = sd_gone s @ [(q, c)] \<and> guard_of (cf_inode c) = expected
    else \<exists>cs. sd_gone s' = sd_gone s @ cs \<and> (\<forall>(q, c)\<in>set cs. f_id (cf_inode c) = FileId (sd_dev s) (sd_fresh s))"
proof -
  let ?X = "range (scratch_path (pl_root pl) rel)"
  have c: "careful ?X s" using assms(3) by (auto simp: careful_def)
  from place_if_unchanged_stages [OF assms(1,2)] show ?thesis
  proof
    assume "(\<exists>e. r = Inl e) \<and> mild s s'"
    then show ?thesis by (auto simp: mild_def)
  next
    assume "\<exists>c q s4. mild s s4 \<and> is_placeholder n cid tag c \<and> f_id (cf_inode c) = FileId (sd_dev s) (sd_fresh s) \<and>
       swap_in (scratch_path (pl_root pl) rel q) (pl_root pl @ rel) (guard_of (cf_inode c)) expected s4 = (r, s')"
    then obtain c :: cfile and q s4 where h: "mild s s4" "f_id (cf_inode c) = FileId (sd_dev s) (sd_fresh s)"
       "swap_in (scratch_path (pl_root pl) rel q) (pl_root pl @ rel) (guard_of (cf_inode c)) expected s4 = (r, s')" by blast
    have "approved_only (guard_of (cf_inode c)) expected r s4 s'"
      by (rule swap_in_approved [OF h(3) mild_careful [OF h(1)]]) (use c in auto)
    then show ?thesis using h(1,2)
      by (fastforce simp: approved_only_def mild_def lost_def our_file_def guard_of_def split: if_splits)
  qed
qed

text \<open>C3: While other programs do what they like, short of touching the scratch names of this file, a
  conditional replacement that reports success has taken away exactly one file, and that file had the
  inode, the size and the modification time that were approved; whatever else it answers, under any
  faults, it took away nothing but its own placeholder.\<close>

theorem eviction_replaces_only_what_was_approved:
  assumes "place_if_unchanged pl p n cid tag expected s = (r, pl', s')" "below_root pl p = Some rel"
    and "\<forall>u\<in>set (sd_user s). \<forall>d k.
      map_of (fst (u d)) (scratch_path (pl_root pl) rel k) = map_of (fst d) (scratch_path (pl_root pl) rel k)"
  shows "if r = Inr Placed then \<exists>q c. sd_gone s' = sd_gone s @ [(q, c)] \<and> guard_of (cf_inode c) = expected
    else \<exists>cs. sd_gone s' = sd_gone s @ cs \<and> (\<forall>(q, c)\<in>set cs. f_id (cf_inode c) = FileId (sd_dev s) (sd_fresh s))"
  using approved [OF assms] .

text \<open>A directory \<open>s\<close> with one file of eight bytes, and a program that saves a new file over it.\<close>

definition kept_file :: "u64 \<Rightarrow> int \<Rightarrow> cfile" where
  "kept_file i t =
     \<lparr>cf_inode = \<lparr>f_id = FileId 1 i, f_size = 8, f_nlink = 1, f_data = (\<lambda>p. if p < 8 then Some 7 else None),
                  f_mark = False, f_flags = 0, f_mtime = t, f_mtime_nsec = 0, f_stamp = None, f_hydrated_at = None\<rparr>,
      cf_cloud = Some ''A'', cf_tag = Some ''v1'', cf_pinned = False, cf_mode = 0x1A4\<rparr>"

definition sample_sync :: "(disk \<Rightarrow> disk) list \<Rightarrow> int option list \<Rightarrow> sync" where
  "sample_sync us plan =
     \<lparr>sd_client = \<lparr>cl_tree = [([''s'', ''a''], Regular (kept_file 5 100))], cl_unreadable = [], cl_ignore_file = None,
                   cl_lineage = \<lparr>ld_target = None, ld_tmp = None, ld_plan = []\<rparr>, cl_plan = plan\<rparr>,
      sd_root = [''s''], sd_dirs = [], sd_user = us, sd_dev = 1, sd_fresh = 90, sd_clock = (500, 0),
      sd_dir_size = 0, sd_gone = [], sd_mount_id = 7, sd_mounts = []\<rparr>"

definition sample_placer :: placer where
  "sample_placer = \<lparr>pl_root = [''s''], pl_mount = 7, pl_seq = 0\<rparr>"

definition saves_over :: "u64 \<Rightarrow> disk \<Rightarrow> disk" where
  "saves_over i d = (AList.update [''s'', ''a''] (Regular (kept_file i 600)) (fst d), snd d)"

definition idle :: "disk \<Rightarrow> disk" where
  "idle d = d"

lemma idle_map [simp]: "idle d = d"
  by (simp add: idle_def)

text \<open>The names a step of the others leaves alone, for the examples.\<close>

lemma saves_over_elsewhere: "map_of (fst (saves_over i d)) (scratch_path r rel k) = map_of (fst d) (scratch_path r rel k)"
  if "scratch_path r rel k \<noteq> [''s'', ''a'']"
  using that by (simp add: saves_over_def update_conv)

lemma scratch_is_not_a: "scratch_path [''s''] [''a''] k \<noteq> [''s'', ''a'']"
  by (simp add: scratch_path_def)

lemma eviction_replaces_only_what_was_approved_witness:
  "\<exists>cs. sd_gone (snd (snd (place_if_unchanged sample_placer [''s'', ''a''] 8 ''A'' None
       (guard_of (cf_inode (kept_file 5 100))) (sample_sync (replicate 7 idle @ [saves_over 6]) [])))) = cs \<and>
     (\<forall>(q, c)\<in>set cs. f_id (cf_inode c) = FileId 1 90)"
proof -
  let ?s = "sample_sync (replicate 7 idle @ [saves_over 6]) []"
  obtain r pl' s' where h: "place_if_unchanged sample_placer [''s'', ''a''] 8 ''A'' None
       (guard_of (cf_inode (kept_file 5 100))) ?s = (r, pl', s')" by (metis prod.exhaust)
  have b: "below_root sample_placer [''s'', ''a''] = Some [''a'']"
    by (simp add: below_root_def sample_placer_def path_below_def normal_component_def)
  have u: "\<forall>u\<in>set (sd_user ?s). \<forall>d k. map_of (fst (u d)) (scratch_path (pl_root sample_placer) [''a''] k) =
      map_of (fst d) (scratch_path (pl_root sample_placer) [''a''] k)"
    using saves_over_elsewhere scratch_is_not_a by (auto simp: sample_sync_def sample_placer_def)
  have "fst (place_if_unchanged sample_placer [''s'', ''a''] 8 ''A'' None
       (guard_of (cf_inode (kept_file 5 100))) ?s) = Inr TargetChanged" by code_simp
  then show ?thesis using eviction_replaces_only_what_was_approved [OF h b u] h by (auto simp: sample_sync_def)
qed

text \<open>Two saves in quick succession: the eviction stops, and the second file is kept under the scratch
  name.  The scratch names of the next placer start over, and placing an update of the same file
  unlinks the first of them without looking: the newest version of the file is gone.\<close>

definition raced :: "sync" where
  "raced = snd (snd (place_if_unchanged sample_placer [''s'', ''a''] 8 ''A'' None
     (guard_of (cf_inode (kept_file 5 100))) (sample_sync (replicate 7 idle @ [saves_over 6, idle, saves_over 7]) [])))"

lemma update_destroys_preserved_content:
  "file_at (tree_of raced) [''s'', ''.a.hydration-1''] = Some (kept_file 7 600)"
  "sd_gone raced = []"
  "case place_file sample_placer [''s'', ''a''] 8 ''A'' (Some ''v2'') raced of (r, pl, s') \<Rightarrow>
     r = Inr () \<and> map (f_id \<circ> cf_inode \<circ> snd) (sd_gone s') = [FileId 1 7, FileId 1 6] \<and>
     map fst (tree_of s') = [[''s'', ''a'']]"
  by code_simp+

end
