(* ===== verification/Place_Atomic.thy ===== *)
theory Place_Atomic
  imports Place
begin

text \<open>
  What \<open>place\<close> of \<open>crates/hydration-client/src/place.rs\<close> leaves in the tree when nobody else is at work.
\<close>

section \<open>Placing is all or nothing\<close>

text \<open>Nobody else is there, and the entries outside a set of names stay as they are.\<close>

definition alone :: "path set \<Rightarrow> sync \<Rightarrow> sync \<Rightarrow> bool" where
  "alone X s s' \<longleftrightarrow> sd_user s' = [] \<and> set (cl_plan (sd_client s')) \<subseteq> set (cl_plan (sd_client s)) \<and> sd_root s' = sd_root s \<and>
     (\<forall>q. q \<notin> X \<longrightarrow> map_of (tree_of s') q = map_of (tree_of s) q)"

lemma alone_refl: "sd_user s = [] \<Longrightarrow> alone X s s"
  by (simp add: alone_def)

lemma alone_trans: "alone X s s1 \<Longrightarrow> alone Y s1 s2 \<Longrightarrow> alone (X \<union> Y) s s2"
  by (auto simp: alone_def)

lemma alone_mono: "alone X s s' \<Longrightarrow> X \<subseteq> Y \<Longrightarrow> alone Y s s'"
  by (auto simp: alone_def)

lemma undisturbed_alone: "undisturbed s s0 \<Longrightarrow> sd_user s = [] \<Longrightarrow> alone X s s0"
  using undisturbed_idle undisturbed_facts(1,10) by (simp add: alone_def)

lemma map_of_snoc: "map_of (t @ [(p, x)]) q = (if map_of t q = None \<and> q = p then Some x else map_of t q)"
  by (auto simp: map_add_def split: option.splits)

lemma sd_link_alone:
  assumes "sd_link c p s = (r, s')" "sd_user s = []" "p \<noteq> sd_root s"
  shows "alone {p} s s' \<and> (case r of Inl _ \<Rightarrow> map_of (tree_of s') p = map_of (tree_of s) p
    | Inr _ \<Rightarrow> map_of (tree_of s) p = None \<and>
        map_of (tree_of s') p = Some (Regular (c\<lparr>cf_inode := (cf_inode c)\<lparr>f_nlink := 1\<rparr>\<rparr>)))"
proof -
  obtain s0 where u: "undisturbed s s0" and c: "s' = s0 \<and> (\<exists>e. r = Inl e) \<or>
    node_of s0 p = None \<and> reach s0 (butlast p) = None \<and> r = Inr () \<and>
    s' = put_tree (tree_of s0 @ [(p, Regular (c\<lparr>cf_inode := (cf_inode c)\<lparr>f_nlink := 1\<rparr>\<rparr>))]) s0"
    using sd_link_cases [OF assms(1)] by blast
  then show ?thesis using undisturbed_idle [OF u assms(2)] undisturbed_facts(1,10) [OF u] assms(3)
    by (auto simp: alone_def node_of_def map_of_snoc simp del: map_of_append)
qed

lemma sd_unlink_alone:
  assumes "sd_unlink p s = (r, s')" "sd_user s = []"
  shows "alone {p} s s' \<and> (map_of (tree_of s') p = map_of (tree_of s) p \<or> map_of (tree_of s') p = None)"
proof -
  obtain s0 where u: "undisturbed s s0" and c: "s' = s0 \<and> (\<exists>e. r = Inl e) \<or>
    (\<exists>n. node_of s0 p = Some n \<and> n \<noteq> Folder \<and> r = Inr () \<and> s' = drop_name p n s0)"
    using sd_unlink_cases [OF assms(1)] by blast
  then show ?thesis using undisturbed_idle [OF u assms(2)] undisturbed_facts(1,10) [OF u]
    by (auto simp: alone_def drop_name_def delete_conv)
qed

text \<open>\<open>make_parents\<close> adds folders where there was nothing.\<close>

definition new_parents :: "path \<Rightarrow> sync \<Rightarrow> sync \<Rightarrow> bool" where
  "new_parents p s s' \<longleftrightarrow> sd_user s' = [] \<and> set (cl_plan (sd_client s')) \<subseteq> set (cl_plan (sd_client s)) \<and> sd_root s' = sd_root s \<and>
     (\<forall>q. map_of (tree_of s') q = map_of (tree_of s) q \<or>
        strict_prefix q p \<and> map_of (tree_of s) q = None \<and> map_of (tree_of s') q = Some Folder)"

lemma new_parents_trans: "new_parents p s s1 \<Longrightarrow> new_parents p s1 s2 \<Longrightarrow> new_parents p s s2"
  unfolding new_parents_def by (metis option.distinct(1) subset_trans)

lemma sd_mkdir_new_parents:
  assumes "sd_mkdir d s = (r, s')" "sd_user s = []" "strict_prefix d p"
  shows "new_parents p s s'"
proof -
  obtain s0 where u: "undisturbed s s0" and c: "s' = s0 \<and> (\<exists>e. r = Inl e) \<or>
    node_of s0 d = None \<and> r = Inr () \<and> s' = put_tree (tree_of s0 @ [(d, Folder)]) s0"
    using sd_mkdir_cases [OF assms(1)] by blast
  then show ?thesis using undisturbed_idle [OF u assms(2)] undisturbed_facts(1,10) [OF u] assms(3)
    by (auto simp: new_parents_def map_of_snoc node_of_def simp del: map_of_append split: if_splits)
qed

lemma make_parents_new:
  "make_parents d cs s = (r, s') \<Longrightarrow> sd_user s = [] \<Longrightarrow> strict_prefix (d @ cs) p \<Longrightarrow> new_parents p s s'"
proof (induction d cs s arbitrary: r s' rule: make_parents.induct)
  case (1 d s)
  then show ?case by (simp add: new_parents_def)
next
  case (2 d c cs s)
  obtain r1 s1 where m: "sd_mkdir (d @ [c]) s = (r1, s1)" by fastforce
  have "strict_prefix (d @ [c]) p" using 2(5) by (metis append.assoc append_Cons append_Nil prefixI prefix_order.le_less_trans)
  note u = sd_mkdir_new_parents [OF m 2(4) this]
  have e: "sd_user s1 = []" using u by (simp add: new_parents_def)
  have p: "strict_prefix ((d @ [c]) @ cs) p" using 2(5) by simp
  show ?case
  proof (cases r1)
    case (Inr x)
    then have "make_parents (d @ [c]) cs s1 = (r, s')" using 2(3) m by simp
    then show ?thesis using 2(2) [OF m [symmetric] Inr _ e p] u new_parents_trans by blast
  next
    case (Inl x)
    show ?thesis
    proof (cases "kind_of x = AlreadyExists")
      case True
      then have "make_parents (d @ [c]) cs s1 = (r, s')" using 2(3) m Inl by simp
      then show ?thesis using 2(1) [OF m [symmetric] Inl True _ e p] u new_parents_trans by blast
    next
      case False
      then show ?thesis using 2(3) m Inl u by simp
    qed
  qed
qed

lemma is_placeholder_link [simp]:
  "is_placeholder n cid tag (c\<lparr>cf_inode := (cf_inode c)\<lparr>f_nlink := k\<rparr>\<rparr>) = is_placeholder n cid tag c"
  by (simp add: is_placeholder_def)

lemma fd_alone: "sync_call (act_return a) s = (r, s') \<Longrightarrow> sd_user s = [] \<Longrightarrow> alone X s s'"
  by (drule sync_call_cases) (auto simp: act_return_def undisturbed_alone)

text \<open>The tree while a file without a name is filled in.\<close>

definition aside :: "'a act \<Rightarrow> bool" where
  "aside act \<longleftrightarrow> (\<forall>s r s'. sd_user s = [] \<longrightarrow> act s = (r, s') \<longrightarrow> alone {} s s')"

named_theorems aside_rules \<open>acts that leave the tree alone\<close>

lemma asideD: "aside act \<Longrightarrow> act s = (r, s') \<Longrightarrow> sd_user s = [] \<Longrightarrow> alone {} s s'"
  by (simp add: aside_def)

lemma aside_return [aside_rules]: "aside (act_return a)"
  by (simp add: aside_def act_return_def alone_def)

lemma aside_bind [aside_rules]:
  assumes "aside m" "\<And>a. aside (f a)"
  shows "aside (act_bind m f)"
  unfolding aside_def
proof (intro allI impI)
  fix s r s' assume "sd_user s = []" and b: "act_bind m f s = (r, s')"
  from act_bind_cases [OF b] show "alone {} s s'"
  proof (elim disjE exE conjE)
    fix e assume "m s = (Inl e, s')" then show ?thesis using asideD [OF assms(1)] \<open>sd_user s = []\<close> by blast
  next
    fix a s1 assume "m s = (Inr a, s1)" "f a s1 = (r, s')"
    then have "alone {} s s1" "sd_user s1 = []" using asideD [OF assms(1)] \<open>sd_user s = []\<close> by (auto simp: alone_def)
    then show ?thesis using alone_trans asideD [OF assms(2) \<open>f a s1 = (r, s')\<close>] by fastforce
  qed
qed

lemma aside_try [aside_rules]: "aside m \<Longrightarrow> aside (act_try m)"
  by (auto simp: aside_def act_try_def split: prod.splits)

lemma aside_call [aside_rules]:
  assumes "aside act"
  shows "aside (sync_call act)"
  unfolding aside_def
proof (intro allI impI)
  fix s r s' assume e: "sd_user s = []" and c: "sync_call act s = (r, s')"
  obtain s0 where u: "undisturbed s s0" and d: "s' = s0 \<and> (\<exists>e. r = Inl e) \<or> act s0 = (r, s')"
    using sync_call_cases [OF c] by blast
  have a: "alone {} s s0" by (rule undisturbed_alone [OF u e])
  then have "sd_user s0 = []" by (simp add: alone_def)
  then have "alone {} s0 s'" using d asideD [OF assms, of s0 r s'] alone_refl by blast
  then show "alone {} s s'" using a alone_trans by fastforce
qed

lemma aside_option [aside_rules]: "aside m \<Longrightarrow> (\<And>a. aside (f a)) \<Longrightarrow> aside (case x of None \<Rightarrow> m | Some a \<Rightarrow> f a)"
  by (cases x) auto

lemma aside_fd_truncate [aside_rules]: "aside (fd_truncate n c)"
  unfolding fd_truncate_def by (intro aside_rules) (auto simp: aside_def alone_def split: if_splits)

lemma aside_fd_set [aside_rules]: "aside (fd_set g c)"
  unfolding fd_set_def by (intro aside_rules)

lemma aside_fd_stamp [aside_rules]: "aside (fd_stamp c)"
  unfolding fd_stamp_def by (intro aside_rules)

lemma aside_anonymous [aside_rules]: "aside anonymous"
proof -
  have "aside (sync_call (\<lambda>s. (Inr (nameless s), s\<lparr>sd_fresh := sd_fresh s + 1\<rparr>)))"
    by (intro aside_rules) (auto simp: aside_def alone_def)
  then show ?thesis by (auto simp: aside_def anonymous_def split: prod.splits sum.splits)
qed

lemma aside_placeholder: "aside (placeholder n cid tag)"
  unfolding placeholder_def by (intro aside_rules)

text \<open>The target after \<open>link_into_place\<close>, when the number of the placeholder's inode is new.\<close>

definition new_inode :: "file_id \<Rightarrow> sync \<Rightarrow> bool" where
  "new_inode i s \<longleftrightarrow> (\<forall>p c. map_of (tree_of s) p = Some (Regular c) \<longrightarrow> f_id (cf_inode c) \<noteq> i)"

lemma scratch_name_differs: "''.'' @ (if is_utf8 n then n else ''f'') @ scratch_infix @ show_nat k \<noteq> n"
proof (cases "is_utf8 n")
  case True
  have "length (''.'' @ n @ scratch_infix @ show_nat k) \<noteq> length n" by (simp add: scratch_infix_def)
  then show ?thesis using True by (metis (full_types))
next
  case False
  have "is_utf8 (''.'' @ ''f'' @ scratch_infix @ show_nat k)"
    using is_utf8_ascii [OF show_nat_ascii, of k "[]"] by (simp add: scratch_infix_def byte_in_def)
  then show ?thesis using False by auto
qed

lemma scratch_sibling:
  assumes "rel \<noteq> []"
  shows "\<not> prefix (scratch_path root rel k) (root @ rel)" "\<not> prefix (root @ rel) (scratch_path root rel k)"
    "scratch_path root rel k \<noteq> root @ rel"
proof -
  have r: "root @ rel = root @ butlast rel @ [last rel]" using assms by simp
  show ne: "scratch_path root rel k \<noteq> root @ rel"
    unfolding scratch_path_def r using scratch_name_differs [of "last rel" k] by (simp del: append_butlast_last_id)
  have l: "length (scratch_path root rel k) = length (root @ rel)" using assms by (simp add: scratch_path_def)
  show "\<not> prefix (scratch_path root rel k) (root @ rel)" using ne l
    by (metis prefix_def append_eq_conv_conj take_all_iff order_refl)
  show "\<not> prefix (root @ rel) (scratch_path root rel k)" using ne l
    by (metis prefix_def append_eq_conv_conj take_all_iff order_refl)
qed

text \<open>The names \<open>link_into_place\<close> may take away: the occupant of the scratch name, and of the target.\<close>

definition gone_at :: "path \<Rightarrow> path \<Rightarrow> sync \<Rightarrow> path \<times> cfile \<Rightarrow> bool" where
  "gone_at target scratch s e \<longleftrightarrow>
     fst e = scratch \<or> fst e = target \<and> \<not> has_nul target \<and> map_of (tree_of s) target = Some (Regular (snd e))"

lemma sd_unlink_gone:
  assumes "sd_unlink p s = (r, s')" "sd_user s = []"
  shows "\<exists>es. sd_gone s' = sd_gone s @ es \<and>
    (\<forall>e\<in>set es. fst e = p \<and> (p \<noteq> sd_root s \<longrightarrow> map_of (tree_of s) p = Some (Regular (snd e))))"
proof -
  obtain s0 where u: "undisturbed s s0" and c: "s' = s0 \<and> (\<exists>e. r = Inl e) \<or>
    (\<exists>n. node_of s0 p = Some n \<and> n \<noteq> Folder \<and> r = Inr () \<and> s' = drop_name p n s0)"
    using sd_unlink_cases [OF assms(1)] by blast
  have f: "sd_gone s0 = sd_gone s" "node_of s0 p = node_of s p"
    using undisturbed_facts(1,2) [OF u] undisturbed_idle [OF u assms(2)] by (simp_all add: node_of_def)
  from c show ?thesis
  proof
    assume "\<exists>n. node_of s0 p = Some n \<and> n \<noteq> Folder \<and> r = Inr () \<and> s' = drop_name p n s0"
    then show ?thesis using f by (auto simp: files_of_def node_of_def split: node.splits if_splits)
  qed (use f in simp)
qed

lemma sd_rename_gone:
  assumes "sd_rename a b s = (r, s')" "sd_user s = []"
  shows "\<exists>es. sd_gone s' = sd_gone s @ es \<and> (\<forall>e\<in>set es. fst e = b \<and> node_of s b = Some (Regular (snd e)))"
proof -
  obtain s0 where u: "undisturbed s s0" and "s' = s0 \<or> s' = move_names (renamed a b) s0 \<or>
      (\<exists>n. node_of s0 b = Some n \<and> s' = move_names (renamed a b) (drop_name b n s0))"
    using sd_rename_cases [OF assms(1)] by blast
  moreover have "sd_gone s0 = sd_gone s" "node_of s0 b = node_of s b"
    using undisturbed_facts(1,2) [OF u] undisturbed_idle [OF u assms(2)] by (simp_all add: node_of_def)
  ultimately show ?thesis by (auto simp: files_of_def split: node.splits)
qed

lemma link_into_place_cases:
  assumes "link_into_place root rel c k s = (r, s')" "sd_user s = []" "sd_root s = root"
    and rel: "rel \<noteq> []" and new: "new_inode (f_id (cf_inode c)) s"
  shows "(\<forall>q. \<not> prefix (root @ rel) q \<and> \<not> prefix (scratch_path root rel k) q \<longrightarrow>
            map_of (tree_of s') q = map_of (tree_of s) q) \<and>
    (case r of
       Inr _ \<Rightarrow> map_of (tree_of s') (root @ rel) = Some (Regular (c\<lparr>cf_inode := (cf_inode c)\<lparr>f_nlink := 1\<rparr>\<rparr>))
     | Inl _ \<Rightarrow> map_of (tree_of s') (root @ rel) = map_of (tree_of s) (root @ rel)) \<and>
    (map_of (tree_of s') (scratch_path root rel k) \<in>
       {map_of (tree_of s) (scratch_path root rel k), None, Some (Regular (c\<lparr>cf_inode := (cf_inode c)\<lparr>f_nlink := 1\<rparr>\<rparr>))})"
proof -
  let ?tgt = "root @ rel" and ?sc = "scratch_path root rel k"
  let ?p = "Some (Regular (c\<lparr>cf_inode := (cf_inode c)\<lparr>f_nlink := 1\<rparr>\<rparr>))"
  note sib = scratch_sibling [OF rel, of root k]
  have tr: "?tgt \<noteq> sd_root s" "?sc \<noteq> sd_root s" using assms(3) rel scratch_path_root by auto
  have pre: "\<not> prefix p q \<Longrightarrow> q \<noteq> p" for p q :: path by auto
  obtain r1 s1 where l: "sd_link c ?tgt s = (r1, s1)" by fastforce
  note l1 = sd_link_alone [OF l assms(2) tr(1)]
  show ?thesis
  proof (cases "\<exists>e. r1 = Inl e \<and> kind_of e = AlreadyExists")
    case False
    then have "r = r1 \<and> s' = s1" using assms(1) l by (auto simp: link_into_place_def split: sum.splits if_splits)
    then show ?thesis using l1 sib by (auto simp: alone_def split: sum.splits)
  next
    case True
    then obtain e where e: "r1 = Inl e" "kind_of e = AlreadyExists" by blast
    have s1: "sd_user s1 = []" "sd_root s1 = sd_root s" "\<And>q. map_of (tree_of s1) q = map_of (tree_of s) q"
    proof -
      show "sd_user s1 = []" "sd_root s1 = sd_root s" using l1 by (auto simp: alone_def)
      fix q show "map_of (tree_of s1) q = map_of (tree_of s) q"
        using l1 e(1) by (cases "q = ?tgt") (auto simp: alone_def)
    qed
    obtain r2 s2 where u: "sd_unlink ?sc s1 = (r2, s2)" by fastforce
    note u1 = sd_unlink_alone [OF u s1(1)]
    have s2: "sd_user s2 = []" "sd_root s2 = sd_root s" "\<And>q. q \<noteq> ?sc \<Longrightarrow> map_of (tree_of s2) q = map_of (tree_of s) q"
        "map_of (tree_of s2) ?sc \<in> {map_of (tree_of s) ?sc, None}"
      using u1 s1 by (auto simp: alone_def)
    obtain r3 s3 where m: "sd_link c ?sc s2 = (r3, s3)" by fastforce
    have "?sc \<noteq> sd_root s2" using tr s2 by simp
    note m1 = sd_link_alone [OF m s2(1) this]
    have s3: "sd_user s3 = []" "sd_root s3 = sd_root s" "\<And>q. q \<noteq> ?sc \<Longrightarrow> map_of (tree_of s3) q = map_of (tree_of s) q"
      using m1 s2 by (auto simp: alone_def)
    show ?thesis
    proof (cases r3)
      case (Inl x)
      then have "r = Inl x \<and> s' = s3" using assms(1) l e u m by (simp add: link_into_place_def)
      then show ?thesis using s3 m1 s2(4) Inl sib by auto
    next
      case (Inr x)
      have p3: "map_of (tree_of s3) ?sc = ?p" using m1 Inr by simp
      obtain r4 s4 where n: "sd_rename ?sc ?tgt s3 = (r4, s4)" by fastforce
      obtain s0 where u0: "undisturbed s3 s0" and c0: "s4 = s0 \<and> ((\<exists>e. r4 = Inl e) \<or> ?sc = ?tgt \<or>
           (\<exists>m n. node_of s0 ?sc = Some m \<and> node_of s0 ?tgt = Some n \<and> same_inode_nodes m n)) \<or>
         (\<exists>m. node_of s0 ?sc = Some m \<and> ?sc \<noteq> ?tgt \<and> r4 = Inr () \<and>
          (node_of s0 ?tgt = None \<and> s4 = move_names (renamed ?sc ?tgt) s0 \<or>
           (\<exists>n. node_of s0 ?tgt = Some n \<and> s4 = move_names (renamed ?sc ?tgt) (drop_name ?tgt n s0))))"
        using sd_rename_cases [OF n] by blast
      have s0: "tree_of s0 = tree_of s3" "sd_user s0 = []" "sd_root s0 = sd_root s"
        using undisturbed_idle [OF u0 s3(1)] undisturbed_facts(1) [OF u0] s3 by simp_all
      have "\<not> same_inode_nodes m n" if "node_of s0 ?sc = Some m" "node_of s0 ?tgt = Some n" for m n
        using that s0 tr p3 s3(3) [OF sib(3) [symmetric]] new
        by (auto simp: node_of_def same_inode_nodes_def new_inode_def split: node.splits) blast
      then consider (failed) x where "r4 = Inl x" "s4 = s0"
        | (moved) "r4 = Inr ()" "tree_of s4 = rekey (renamed ?sc ?tgt) (AList.delete ?tgt (tree_of s3))"
        using c0 sib(3) s0 tr
        by (auto simp: drop_name_def node_of_def map_of_eq_None_iff delete_id split: if_splits)
      then show ?thesis
      proof cases
        case failed
        obtain r5 s5 where v: "sd_unlink ?sc s4 = (r5, s5)" by fastforce
        have "r = Inl x \<and> s' = s5" using assms(1) l e u m Inr n failed v by (simp add: link_into_place_def)
        then show ?thesis using sd_unlink_alone [OF v] failed s0 s3 p3 sib
          by (auto simp: alone_def)
      next
        case moved
        have "r = Inr () \<and> s' = s4" using assms(1) l e u m Inr n moved by (simp add: link_into_place_def)
        moreover have "map_of (tree_of s4) ?tgt = ?p"
        proof -
          have "?tgt \<notin> fst ` set (AList.delete ?tgt (tree_of s3))" by (auto simp: set_alist_delete)
          from map_of_renamed_target [OF this sib(1)] show ?thesis using moved(2) sib(3) p3 by (simp add: delete_conv)
        qed
        moreover have "map_of (tree_of s4) ?sc = None" using map_of_renamed_source sib(2) moved(2) by metis
        moreover have "map_of (tree_of s4) q = map_of (tree_of s) q" if "\<not> prefix ?tgt q" "\<not> prefix ?sc q" for q
          using moved(2) s3(3) [of q] pre [OF that(1)] pre [OF that(2)]
          by (simp add: delete_conv map_of_renamed_elsewhere [OF that(2,1)])
        ultimately show ?thesis by auto
      qed
    qed
  qed
qed

lemma sd_rename_alone:
  assumes "sd_rename a b s = (r, s')" "sd_user s = []"
  shows "sd_user s' = [] \<and> set (cl_plan (sd_client s')) \<subseteq> set (cl_plan (sd_client s)) \<and> sd_root s' = sd_root s"
proof -
  obtain s0 where u: "undisturbed s s0" and c: "s' = s0 \<or> s' = move_names (renamed a b) s0 \<or>
      (\<exists>n. s' = move_names (renamed a b) (drop_name b n s0))"
    using sd_rename_cases [OF assms(1)] by blast
  have "cl_plan (sd_client s') = cl_plan (sd_client s0) \<and> sd_user s' = sd_user s0 \<and> sd_root s' = sd_root s0"
    using c by (auto simp: move_names_def drop_name_def)
  then show ?thesis using undisturbed_idle(3) [OF u assms(2)] undisturbed_facts(1,10) [OF u] by simp
qed

lemma link_into_place_gone:
  assumes "link_into_place root rel c k s = (r, s')" "sd_user s = []" "sd_root s = root" "rel \<noteq> []"
  shows "lost (gone_at (root @ rel) (scratch_path root rel k) s) s s' \<and> sd_user s' = [] \<and>
    set (cl_plan (sd_client s')) \<subseteq> set (cl_plan (sd_client s)) \<and> sd_root s' = root"
proof -
  let ?tgt = "root @ rel" and ?sc = "scratch_path root rel k"
  let ?G = "gone_at ?tgt ?sc s"
  note sib = scratch_sibling [OF assms(4), of root k]
  have tr: "?tgt \<noteq> sd_root s" "?sc \<noteq> sd_root s" using assms(3,4) scratch_path_root by auto
  obtain r1 s1 where l: "sd_link c ?tgt s = (r1, s1)" by fastforce
  note l1 = sd_link_alone [OF l assms(2) tr(1)]
  have g1: "sd_gone s1 = sd_gone s" using sd_link_mild [OF l] by (simp add: mild_def)
  have a1: "sd_user s1 = []" "set (cl_plan (sd_client s1)) \<subseteq> set (cl_plan (sd_client s))" "sd_root s1 = root"
    using l1 assms(3) by (simp_all add: alone_def)
  show ?thesis
  proof (cases "\<exists>e. r1 = Inl e \<and> kind_of e = AlreadyExists")
    case False
    then have "s' = s1" using assms(1) l by (auto simp: link_into_place_def split: sum.splits if_splits)
    then show ?thesis using g1 a1 by (simp add: lost_def)
  next
    case True
    then obtain e where e: "r1 = Inl e" "kind_of e = AlreadyExists" by blast
    have t1: "map_of (tree_of s1) ?tgt = map_of (tree_of s) ?tgt" using l1 e(1) by simp
    have nn: "\<not> has_nul ?tgt" using l e by (auto simp: sd_link_def named_call_def act_fail_def split: if_splits)
    obtain r2 s2 where u: "sd_unlink ?sc s1 = (r2, s2)" by fastforce
    have "lost ?G s1 s2" using sd_unlink_gone [OF u a1(1)] by (auto simp: lost_def gone_at_def)
    then have g2: "lost ?G s s2" using g1 by (simp add: lost_def)
    have a2: "sd_user s2 = []" "set (cl_plan (sd_client s2)) \<subseteq> set (cl_plan (sd_client s))" "sd_root s2 = root"
        "map_of (tree_of s2) ?tgt = map_of (tree_of s) ?tgt"
      using sd_unlink_alone [OF u a1(1)] a1 t1 sib(3) by (auto simp: alone_def)
    obtain r3 s3 where m: "sd_link c ?sc s2 = (r3, s3)" by fastforce
    have "sd_gone s3 = sd_gone s2" using sd_link_mild [OF m] by (simp add: mild_def)
    then have g3: "lost ?G s s3" using g2 by (simp add: lost_def)
    have "?sc \<noteq> sd_root s2" using tr assms(3) a2 by simp
    note m1 = sd_link_alone [OF m a2(1) this]
    have a3: "sd_user s3 = []" "set (cl_plan (sd_client s3)) \<subseteq> set (cl_plan (sd_client s))" "sd_root s3 = root"
        "map_of (tree_of s3) ?tgt = map_of (tree_of s) ?tgt"
      using m1 a2 sib(3) by (auto simp: alone_def)
    show ?thesis
    proof (cases r3)
      case (Inl x)
      then have "s' = s3" using assms(1) l e u m by (simp add: link_into_place_def)
      then show ?thesis using g3 a3 by simp
    next
      case (Inr x)
      obtain r4 s4 where n: "sd_rename ?sc ?tgt s3 = (r4, s4)" by fastforce
      have "lost ?G s3 s4" using sd_rename_gone [OF n a3(1)] a3(3,4) tr assms(3) nn
        by (auto simp: lost_def gone_at_def node_of_def)
      then have g4: "lost ?G s s4" using g3 lost_trans by blast
      note a4 = sd_rename_alone [OF n a3(1)]
      show ?thesis
      proof (cases r4)
        case (Inr y)
        then have "s' = s4" using assms(1) l e u m \<open>r3 = Inr x\<close> n by (simp add: link_into_place_def)
        then show ?thesis using g4 a4 a3 by auto
      next
        case (Inl y)
        obtain r5 s5 where v: "sd_unlink ?sc s4 = (r5, s5)" by fastforce
        have "s' = s5" using assms(1) l e u m \<open>r3 = Inr x\<close> n Inl v by (simp add: link_into_place_def)
        moreover have "sd_user s4 = []" using a4 by simp
        moreover have "lost ?G s4 s5" using sd_unlink_gone [OF v \<open>sd_user s4 = []\<close>] by (auto simp: lost_def gone_at_def)
        ultimately show ?thesis using lost_trans [OF g4] sd_unlink_alone [OF v] a4 a3 by (auto simp: alone_def)
      qed
    qed
  qed
qed

lemma place_file_gone:
  assumes "place_file pl p n cid tag s = (r, pl', s')" "sd_user s = []" "sd_root s = pl_root pl"
  shows "pl_root pl' = pl_root pl \<and> sd_user s' = [] \<and> set (cl_plan (sd_client s')) \<subseteq> set (cl_plan (sd_client s)) \<and>
    sd_root s' = sd_root s \<and>
    (\<forall>rel. below_root pl p = Some rel \<longrightarrow> lost (gone_at p (scratch_path (pl_root pl) rel (Suc (pl_seq pl))) s) s s') \<and>
    (below_root pl p = None \<longrightarrow> s' = s)"
proof (cases "below_root pl p")
  case None
  then show ?thesis using assms by (simp add: place_file_def)
next
  case (Some rel)
  have p: "p = pl_root pl @ rel" "rel \<noteq> []"
    using Some by (auto simp: below_root_def path_below_def prefix_def split: if_splits)
  have sp: "strict_prefix (pl_root pl @ butlast rel) p"
    using p by (cases rel rule: rev_cases) (simp_all add: strict_prefix_def)
  let ?G = "gone_at p (scratch_path (pl_root pl) rel (Suc (pl_seq pl)))"
  obtain r1 s1 where m: "make_parents (pl_root pl) (butlast rel) s = (r1, s1)" by fastforce
  note g = make_parents_new [OF m assms(2) sp]
  have a1: "sd_user s1 = []" "set (cl_plan (sd_client s1)) \<subseteq> set (cl_plan (sd_client s))" "sd_root s1 = pl_root pl"
      "sd_gone s1 = sd_gone s" "map_of (tree_of s1) p = map_of (tree_of s) p"
    using g assms(3) make_parents_mild [OF m] by (auto simp: new_parents_def mild_def)
  show ?thesis
  proof (cases r1)
    case (Inl e)
    then have "s' = s1" "pl' = pl" using assms(1) Some m by (simp_all add: place_file_def)
    then show ?thesis using a1 Some assms(3) by (simp add: lost_def)
  next
    case 1: (Inr u)
    obtain r2 s2 where h: "placeholder n cid tag s1 = (r2, s2)" by fastforce
    have a2: "sd_user s2 = []" "set (cl_plan (sd_client s2)) \<subseteq> set (cl_plan (sd_client s))" "sd_root s2 = pl_root pl"
        "sd_gone s2 = sd_gone s" "map_of (tree_of s2) p = map_of (tree_of s) p"
      using asideD [OF aside_placeholder h a1(1)] placeholder_cases [OF h] a1 by (auto simp: alone_def mild_def)
    show ?thesis
    proof (cases r2)
      case (Inl e)
      then have "s' = s2" "pl' = pl" using assms(1) Some m 1 h by (simp_all add: place_file_def)
      then show ?thesis using a2 Some assms(3) by (simp add: lost_def)
    next
      case 2: (Inr c)
      obtain r3 s3 where l: "link_into_place (pl_root pl) rel c (Suc (pl_seq pl)) s2 = (r3, s3)" by fastforce
      have e: "s' = s3" "pl_root pl' = pl_root pl" using assms(1) Some m 1 h 2 l by (auto simp: place_file_def)
      note k = link_into_place_gone [OF l a2(1,3) p(2)]
      have "lost (?G s) s s3" using k a2(4,5) p(1) by (auto simp: lost_def gone_at_def)
      then show ?thesis using k e Some a2(2) assms(3) by auto
    qed
  qed
qed

lemma place_file_outcome:
  assumes "place_file pl p n cid tag s = (r, pl', s')" "sd_user s = []" "below_root pl p = Some rel"
    and "sd_root s = pl_root pl" "new_inode (FileId (sd_dev s) (sd_fresh s)) s"
  shows "(case r of
       Inr _ \<Rightarrow> \<exists>c. is_placeholder n cid tag c \<and> map_of (tree_of s') p = Some (Regular c)
     | Inl _ \<Rightarrow> map_of (tree_of s') p = map_of (tree_of s) p) \<and>
    (\<forall>q. map_of (tree_of s') q = map_of (tree_of s) q \<or> prefix p q \<or>
       strict_prefix q p \<and> map_of (tree_of s) q = None \<and> map_of (tree_of s') q = Some Folder \<or>
       prefix (scratch_path (pl_root pl) rel (pl_seq pl')) q) \<and>
    (\<forall>c. map_of (tree_of s') (scratch_path (pl_root pl) rel (pl_seq pl')) = Some (Regular c) \<longrightarrow>
       map_of (tree_of s) (scratch_path (pl_root pl) rel (pl_seq pl')) = Some (Regular c) \<or> is_placeholder n cid tag c)"
proof -
  have p: "p = pl_root pl @ rel" "rel \<noteq> []"
    using assms(3) by (auto simp: below_root_def path_below_def prefix_def split: if_splits)
  obtain r1 s1 where m: "make_parents (pl_root pl) (butlast rel) s = (r1, s1)" by fastforce
  have sp: "strict_prefix (pl_root pl @ butlast rel) p"
    using p by (cases rel rule: rev_cases) (simp_all add: strict_prefix_def)
  have g: "new_parents p s s1" by (rule make_parents_new [OF m assms(2) sp])
  have gq: "map_of (tree_of s1) q = map_of (tree_of s) q \<or>
      strict_prefix q p \<and> map_of (tree_of s) q = None \<and> map_of (tree_of s1) q = Some Folder" for q
    using g by (simp add: new_parents_def)
  have gp: "map_of (tree_of s1) p = map_of (tree_of s) p" using gq [of p] by auto
  have gf: "map_of (tree_of s1) q = Some (Regular c) \<Longrightarrow> map_of (tree_of s) q = Some (Regular c)" for q c
    using gq [of q] by auto
  have m1: "sd_user s1 = []" "sd_root s1 = pl_root pl" "sd_dev s1 = sd_dev s" "sd_fresh s1 = sd_fresh s"
    using g assms(4) make_parents_mild [OF m] by (auto simp: new_parents_def mild_def)
  show ?thesis
  proof (cases r1)
    case (Inl e)
    then have e: "r = Inl e" "s' = s1" using assms(1,3) m by (simp_all add: place_file_def)
    have "\<forall>c. map_of (tree_of s1) q = Some (Regular c) \<longrightarrow> map_of (tree_of s) q = Some (Regular c) \<or> X c" for q X
      using gf by blast
    moreover have "\<forall>q. map_of (tree_of s1) q = map_of (tree_of s) q \<or> prefix p q \<or>
       strict_prefix q p \<and> map_of (tree_of s) q = None \<and> map_of (tree_of s1) q = Some Folder \<or>
       prefix (scratch_path (pl_root pl) rel (pl_seq pl')) q" using gq by blast
    ultimately show ?thesis unfolding e by (simp only: sum.case gp simp_thms)
  next
    case 1: (Inr u)
    obtain r2 s2 where h: "placeholder n cid tag s1 = (r2, s2)" by fastforce
    have a2: "sd_user s2 = []" "sd_root s2 = pl_root pl" "\<And>q. map_of (tree_of s2) q = map_of (tree_of s1) q"
      using asideD [OF aside_placeholder h m1(1)] m1 by (auto simp: alone_def)
    show ?thesis
    proof (cases r2)
      case (Inl e)
      then have e: "r = Inl e" "s' = s2" using assms(1,3) m 1 h by (simp_all add: place_file_def)
      have "\<forall>c. map_of (tree_of s2) q = Some (Regular c) \<longrightarrow> map_of (tree_of s) q = Some (Regular c) \<or> X c" for q X
        using gf a2(3) by metis
      moreover have "\<forall>q. map_of (tree_of s2) q = map_of (tree_of s) q \<or> prefix p q \<or>
         strict_prefix q p \<and> map_of (tree_of s) q = None \<and> map_of (tree_of s2) q = Some Folder \<or>
         prefix (scratch_path (pl_root pl) rel (pl_seq pl')) q" using gq a2(3) by metis
      ultimately show ?thesis unfolding e by (simp only: sum.case a2(3) gp simp_thms)
    next
      case 2: (Inr c)
      have c: "is_placeholder n cid tag c" "f_id (cf_inode c) = FileId (sd_dev s) (sd_fresh s)"
        using placeholder_cases [OF h] 2 m1 by auto
      obtain r3 s3 where l: "link_into_place (pl_root pl) rel c (Suc (pl_seq pl)) s2 = (r3, s3)" by fastforce
      have e: "r = r3" "s' = s3" "pl_seq pl' = Suc (pl_seq pl)"
        using assms(1,3) m 1 h 2 l by (auto simp: place_file_def)
      have "new_inode (f_id (cf_inode c)) s2" unfolding new_inode_def a2(3) c(2)
        using assms(5) gf unfolding new_inode_def by blast
      note k = link_into_place_cases [OF l a2(1,2) p(2) this]
      show ?thesis unfolding e
      proof (intro conjI allI)
        show "case r3 of Inr _ \<Rightarrow> \<exists>c. is_placeholder n cid tag c \<and> map_of (tree_of s3) p = Some (Regular c)
            | Inl _ \<Rightarrow> map_of (tree_of s3) p = map_of (tree_of s) p"
          using k c(1) p(1) a2(3) gp by (auto split: sum.splits)
        fix q
        show "map_of (tree_of s3) q = map_of (tree_of s) q \<or> prefix p q \<or>
           strict_prefix q p \<and> map_of (tree_of s) q = None \<and> map_of (tree_of s3) q = Some Folder \<or>
           prefix (scratch_path (pl_root pl) rel (Suc (pl_seq pl))) q"
          using k gq [of q] a2(3) [of q] p(1) by auto
      next
        fix d
        show "map_of (tree_of s3) (scratch_path (pl_root pl) rel (Suc (pl_seq pl))) = Some (Regular d) \<longrightarrow>
           map_of (tree_of s) (scratch_path (pl_root pl) rel (Suc (pl_seq pl))) = Some (Regular d) \<or> is_placeholder n cid tag d"
          using k a2(3) gf c(1) by auto
      qed
    qed
  qed
qed

text \<open>C16: With nobody else at work, and under every plan of faults, placing a file is all or nothing at its
  name: after a success the name holds a complete placeholder with the mark, the identity, the version
  and the length asked for, after an error it holds what it held; folders appear only on the way to
  it, nothing is touched outside, and what a fault may leave under the scratch name is a complete
  placeholder.\<close>

theorem placing_is_all_or_nothing:
  assumes "place_file pl p n cid tag s = (r, pl', s')" "sd_user s = []" "below_root pl p = Some rel"
    and "sd_root s = pl_root pl" "new_inode (FileId (sd_dev s) (sd_fresh s)) s"
  shows "(case r of
       Inr _ \<Rightarrow> \<exists>c. is_placeholder n cid tag c \<and> map_of (tree_of s') p = Some (Regular c)
     | Inl _ \<Rightarrow> map_of (tree_of s') p = map_of (tree_of s) p) \<and>
    (\<forall>q. map_of (tree_of s') q = map_of (tree_of s) q \<or> prefix p q \<or>
       strict_prefix q p \<and> map_of (tree_of s) q = None \<and> map_of (tree_of s') q = Some Folder \<or>
       prefix (scratch_path (pl_root pl) rel (pl_seq pl')) q) \<and>
    (\<forall>c. map_of (tree_of s') (scratch_path (pl_root pl) rel (pl_seq pl')) = Some (Regular c) \<longrightarrow>
       map_of (tree_of s) (scratch_path (pl_root pl) rel (pl_seq pl')) = Some (Regular c) \<or> is_placeholder n cid tag c)"
  using place_file_outcome [OF assms] .

lemma placing_is_all_or_nothing_witness:
  "\<exists>c. is_placeholder 9 ''B'' None c \<and>
     map_of (tree_of (snd (snd (place_file sample_placer [''s'', ''d'', ''b''] 9 ''B'' None (sample_sync [] []))))) [''s'', ''d'', ''b'']
       = Some (Regular c)"
proof -
  let ?s = "sample_sync [] []"
  obtain r pl' s' where h: "place_file sample_placer [''s'', ''d'', ''b''] 9 ''B'' None ?s = (r, pl', s')" by (metis prod.exhaust)
  have "new_inode (FileId (sd_dev ?s) (sd_fresh ?s)) ?s"
    by (auto simp: new_inode_def sample_sync_def kept_file_def split: if_splits)
  moreover have "below_root sample_placer [''s'', ''d'', ''b''] = Some [''d'', ''b'']"
    by (simp add: below_root_def sample_placer_def path_below_def normal_component_def)
  moreover have "fst (place_file sample_placer [''s'', ''d'', ''b''] 9 ''B'' None ?s) = Inr ()" by code_simp
  ultimately show ?thesis
    using placing_is_all_or_nothing [OF h, of "[''d'', ''b'']"] h
    by (auto simp: sample_sync_def sample_placer_def split: sum.splits)
qed

end
