(* ===== verification/Place_Sweep.thy ===== *)
theory Place_Sweep
  imports Place
begin

text \<open>
  \<open>TmpfilePlacer::sweep_scratch\<close> of \<open>crates/hydration-client/src/place.rs\<close>: the scratch names a crash left
  behind are removed at start-up.
\<close>

section \<open>Sweeping\<close>

definition get_mark :: "path \<Rightarrow> unit option act" where
  "get_mark = get_attr (\<lambda>c. if f_mark (cf_inode c) then Some () else None) (\<lambda>_. None)"

text \<open>One entry.  A name that is not UTF-8 is a scratch name exactly when its lossy reading is one.\<close>

definition sweep_entry :: "path list \<times> nat \<times> sync \<Rightarrow> path \<times> node \<Rightarrow> path list \<times> nat \<times> sync" where
  "sweep_entry x e =
     (case (x, e) of ((stack, removed, s), (p, n)) \<Rightarrow>
        if n = Folder then (p # stack, removed, s)
        else if \<not> is_scratch (last p) then (stack, removed, s)
        else (case get_mark p s of
                (Inr (Some _), s1) \<Rightarrow>
                  (case sd_unlink p s1 of
                     (Inr _, s2) \<Rightarrow> (stack, Suc removed, s2)
                   | (Inl _, s2) \<Rightarrow> (stack, removed, s2))
              | (_, s1) \<Rightarrow> (stack, removed, s1)))"

text \<open>The depth of the folders bounds the walk, once the others are done.\<close>

definition folder_depth :: "sync \<Rightarrow> nat" where
  "folder_depth s = Max (insert 0 (length ` {p. (p, Folder) \<in> set (tree_of s)}))"

definition below_left :: "sync \<Rightarrow> path \<Rightarrow> nat" where
  "below_left s d = Suc (folder_depth s) - length d"

text \<open>How a call may change the state: a step of the others is used up, or the directory has shrunk, or
  it is as it was.\<close>

definition calmed :: "sync \<Rightarrow> sync \<Rightarrow> bool" where
  "calmed s s' \<longleftrightarrow> length (sd_user s') < length (sd_user s) \<or>
     length (sd_user s') = length (sd_user s) \<and> length (tree_of s') < length (tree_of s) \<or>
     sd_user s' = sd_user s \<and> tree_of s' = tree_of s"

lemma calmed_refl: "calmed s s"
  by (simp add: calmed_def)

lemma calmed_trans: "calmed s s1 \<Longrightarrow> calmed s1 s2 \<Longrightarrow> calmed s s2"
  unfolding calmed_def by fastforce

lemma undisturbed_calmed:
  assumes "undisturbed s s0"
  shows "calmed s s0"
proof -
  obtain t ps where "t \<in> {s, others s}" "s0 = put_plan ps t" using assms unfolding undisturbed_def by blast
  then show ?thesis by (cases "sd_user s") (auto simp: calmed_def others_idle)
qed

lemma drop_name_calmed: "node_of s p = Some n \<Longrightarrow> n \<noteq> Folder \<Longrightarrow> calmed s (drop_name p n s)"
  by (auto simp: calmed_def drop_name_def node_of_def intro!: length_alist_delete_less
      intro: rev_image_eqI dest!: map_of_SomeD split: if_splits)

lemma sd_unlink_calmed: "sd_unlink p s = (r, s') \<Longrightarrow> calmed s s'"
  using undisturbed_calmed drop_name_calmed calmed_trans by (blast dest: sd_unlink_cases)

lemma probe_undisturbed: "probe_attr ff fd p s = (r, s') \<Longrightarrow> undisturbed s s'"
  unfolding probe_attr_def by (drule sync_call_cases) (force dest!: at_node_cases split: option.splits)

text \<open>The state of the attribute when it is read last.\<close>

lemma get_attr_cases:
  assumes "get_attr ff fd p s = (r, s')"
  shows "\<exists>s1. undisturbed s s1 \<and> undisturbed s1 s' \<and>
    (\<forall>v. r = Inr (Some v) \<longrightarrow> (\<exists>n. node_of s' p = Some n \<and>
       (case n of Regular c \<Rightarrow> ff c | Folder \<Rightarrow> fd (attrs_at s' p) | Other \<Rightarrow> None) = Some v))"
proof (cases "has_nul p")
  case True
  then show ?thesis using assms undisturbed_refl by (auto simp: get_attr_def act_fail_def)
next
  case False
  obtain r1 s1 where a: "probe_attr ff fd p s = (r1, s1)" by fastforce
  note u = probe_undisturbed [OF a]
  show ?thesis
  proof (cases r1)
    case (Inl e)
    then have "s' = s1" "\<forall>v. r \<noteq> Inr (Some v)" using assms a False by (auto simp: get_attr_def split: if_splits)
    then show ?thesis using u undisturbed_refl by blast
  next
    case (Inr x)
    obtain r2 s2 where b: "probe_attr ff fd p s1 = (r2, s2)" by fastforce
    have e: "s' = s2" "r = (case r2 of Inl e \<Rightarrow> Inl e | Inr v \<Rightarrow> Inr (Some v))"
      using assms a False Inr b by (auto simp: get_attr_def split: sum.splits)
    have "r2 = Inr v \<Longrightarrow> \<exists>n. node_of s2 p = Some n \<and>
       (case n of Regular c \<Rightarrow> ff c | Folder \<Rightarrow> fd (attrs_at s2 p) | Other \<Rightarrow> None) = Some v" for v
      using sync_call_cases [OF b [unfolded probe_attr_def]] by (force dest!: at_node_cases split: option.splits)
    then show ?thesis using u probe_undisturbed [OF b] e by (auto split: sum.splits)
  qed
qed

lemma get_attr_calmed: "get_attr ff fd p s = (r, s') \<Longrightarrow> calmed s s'"
  using undisturbed_calmed calmed_trans by (blast dest: get_attr_cases)

lemma sd_read_dir_cases:
  assumes "sd_read_dir d s = (r, s')"
  shows "undisturbed s s' \<and> (\<forall>es. r = Inr es \<longrightarrow> es = entries_of s' d)"
  using named_call_cases [OF assms [unfolded sd_read_dir_def]] by (force dest!: at_node_cases split: if_splits)

lemma sweep_entry_calmed:
  assumes "sweep_entry (stack, k, s) (p, n) = (stack', k', s')"
  shows "calmed s s' \<and> stack' = (if n = Folder then p # stack else stack)"
proof -
  obtain r1 s1 where g: "get_mark p s = (r1, s1)" by fastforce
  obtain r2 s2 where u: "sd_unlink p s1 = (r2, s2)" by fastforce
  have c: "calmed s s1" "calmed s s2"
    using get_attr_calmed [OF g [unfolded get_mark_def]] sd_unlink_calmed [OF u] calmed_trans by blast+
  show ?thesis using assms g u c calmed_refl
    by (auto simp: sweep_entry_def split: if_splits sum.splits option.splits)
qed

lemma sweep_entries_calmed:
  "foldl sweep_entry (stack, k, s) es = (stack', k', s') \<Longrightarrow>
     calmed s s' \<and> stack' = rev (map fst (filter (\<lambda>(p, n). n = Folder) es)) @ stack"
proof (induction es arbitrary: stack k s)
  case (Cons e es)
  obtain p n where e: "e = (p, n)" by fastforce
  obtain stack1 k1 s1 where s: "sweep_entry (stack, k, s) (p, n) = (stack1, k1, s1)" by (metis prod.exhaust)
  have "foldl sweep_entry (stack1, k1, s1) es = (stack', k', s')" using Cons.prems e s by simp
  from Cons.IH [OF this] sweep_entry_calmed [OF s] show ?case using e calmed_trans by auto
qed (simp add: calmed_refl)

lemma below_left_entries:
  assumes "p \<in> fst ` set (filter (\<lambda>(p, n). n = Folder) (entries_of s d))"
  shows "below_left s p < below_left s d"
proof -
  have p: "(p, Folder) \<in> set (tree_of s)" "p \<noteq> []" "butlast p = d" using assms by (auto simp: entries_of_def)
  have "finite {p. (p, Folder) \<in> set (tree_of s)}"
    by (rule finite_subset [of _ "fst ` set (tree_of s)"]) (auto intro: rev_image_eqI)
  then have "length p \<le> folder_depth s" using p(1) unfolding folder_depth_def by (intro Max_ge) auto
  moreover have "length p = Suc (length d)" using p(2,3) by (cases p rule: rev_cases) auto
  ultimately show ?thesis by (simp add: below_left_def)
qed

lemma calmed_lexI:
  assumes "calmed s s'" "sd_user s' = sd_user s \<Longrightarrow> tree_of s' = tree_of s \<Longrightarrow> (M', M) \<in> R"
  shows "((length (sd_user s'), length (tree_of s'), M'), length (sd_user s), length (tree_of s), M)
    \<in> less_than <*lex*> less_than <*lex*> R"
  using assms by (auto simp: calmed_def)

lemma below_left_cong: "tree_of s1 = tree_of s \<Longrightarrow> below_left s1 = below_left s"
  by (auto simp: below_left_def folder_depth_def)

lemma below_left_mult:
  assumes "\<And>p. p \<in> set ps \<Longrightarrow> below_left s p < below_left s d"
  shows "(image_mset (below_left s) (mset (ps @ rest)), image_mset (below_left s) (mset (d # rest))) \<in> mult less_than"
proof -
  have "(image_mset (below_left s) (mset rest) + image_mset (below_left s) (mset ps),
      image_mset (below_left s) (mset rest) + {#below_left s d#}) \<in> mult less_than"
    using assms by (intro one_step_implies_mult) auto
  then show ?thesis by (simp add: add.commute)
qed

function sweep_loop :: "path list \<Rightarrow> nat \<Rightarrow> sync \<Rightarrow> nat \<times> sync" where
  "sweep_loop stack k s =
     (case stack of
        [] \<Rightarrow> (k, s)
      | d # rest \<Rightarrow>
          (case sd_read_dir d s of
             (Inl _, s1) \<Rightarrow> sweep_loop rest k s1
           | (Inr es, s1) \<Rightarrow>
               (case foldl sweep_entry (rest, k, s1) es of (stack', k', s2) \<Rightarrow> sweep_loop stack' k' s2)))"
  by pat_completeness auto

termination
proof (relation "inv_image (less_than <*lex*> less_than <*lex*> mult less_than)
    (\<lambda>(stack, k, s). (length (sd_user s), length (tree_of s), image_mset (below_left s) (mset stack)))", goal_cases)
  case 1
  show ?case by (intro wf_inv_image wf_lex_prod wf_mult) simp_all
next
  case (2 stack k s d rest x s1 e)
  have "calmed s s1" using sd_read_dir_cases [of d s x s1] 2(2) undisturbed_calmed by simp
  then show ?case using below_left_mult [of "[]" s d rest] 2(1) by (auto simp: calmed_def dest: below_left_cong)
next
  case (3 stack k s d rest x s1 es stack' y k' s2)
  have r: "calmed s s1" "es = entries_of s1 d" using sd_read_dir_cases [of d s x s1] 3(2,3) undisturbed_calmed by simp_all
  have e: "calmed s1 s2" "stack' = rev (map fst (filter (\<lambda>(p, n). n = Folder) es)) @ rest"
    using sweep_entries_calmed [of rest k s1 es stack' k' s2] 3(4,5) by simp_all
  have "\<And>p. p \<in> set (rev (map fst (filter (\<lambda>(p, n). n = Folder) es))) \<Longrightarrow> below_left s1 p < below_left s1 d"
    using below_left_entries r(2) by auto
  note m = below_left_mult [of _ s1 d rest, OF this]
  have "(image_mset (below_left s2) (mset stack'), image_mset (below_left s) (mset stack)) \<in> mult less_than"
    if "sd_user s2 = sd_user s" "tree_of s2 = tree_of s"
  proof -
    have "tree_of s1 = tree_of s" using r(1) e(1) that by (auto simp: calmed_def)
    then have "below_left s1 = below_left s" "below_left s2 = below_left s" using that(2) below_left_cong by blast+
    then show ?thesis using m 3(1) e(2) by (simp only:)
  qed
  from calmed_lexI [OF calmed_trans [OF r(1) e(1)] this] show ?case by simp
qed

declare sweep_loop.simps [simp del]

definition sweep_scratch :: "path \<Rightarrow> sync \<Rightarrow> nat \<times> sync" where
  "sweep_scratch root s = sweep_loop [root] 0 s"

text \<open>What is gone after a sweep: scratch names of placeholders.\<close>

definition scratch_names :: "path set" where
  "scratch_names = {p. p \<noteq> [] \<and> is_scratch (last p)}"

definition is_litter :: "path \<times> cfile \<Rightarrow> bool" where
  "is_litter e \<longleftrightarrow> fst e \<noteq> [] \<and> is_scratch (last (fst e)) \<and> f_mark (cf_inode (snd e))"

lemma marked_gone:
  assumes "get_mark p s = (Inr (Some u), s1)" "sd_unlink p s1 = (r, s')" "careful X s" "p \<in> X" "p \<in> scratch_names"
  shows "lost is_litter s s' \<and> careful X s'"
proof -
  obtain t n where t: "undisturbed s t" "undisturbed t s1" and n: "node_of s1 p = Some n"
      "(case n of Regular c \<Rightarrow> if f_mark (cf_inode c) then Some () else None | Folder \<Rightarrow> None | Other \<Rightarrow> None) = Some u"
    using get_attr_cases [OF assms(1) [unfolded get_mark_def]] by blast
  have c: "careful X s1" "sd_gone s1 = sd_gone s"
    using t undisturbed_careful(1) undisturbed_facts(2) assms(3) by metis+
  have "lost is_litter s1 s'"
    using sd_unlink_lost [OF assms(2) c(1) assms(4), of is_litter] n assms(5)
    by (auto simp: is_litter_def scratch_names_def split: node.splits if_splits)
  moreover have "careful X s'"
    using sd_unlink_cases [OF assms(2)] c(1) undisturbed_careful(1)
    by (auto simp: careful_def drop_name_def)
  ultimately show ?thesis using c(2) by (simp add: lost_def)
qed

lemma sweep_entry_lost:
  assumes "sweep_entry (stack, k, s) (p, n) = (stack', k', s')" "careful scratch_names s" "p \<noteq> []"
  shows "lost is_litter s s' \<and> careful scratch_names s'"
proof (cases "n \<noteq> Folder \<and> is_scratch (last p)")
  case False
  then show ?thesis using assms by (auto simp: sweep_entry_def lost_def split: if_splits)
next
  case True
  obtain r1 s1 where g: "get_mark p s = (r1, s1)" by fastforce
  obtain r2 s2 where u: "sd_unlink p s1 = (r2, s2)" by fastforce
  have c1: "careful scratch_names s1 \<and> sd_gone s1 = sd_gone s"
    using get_attr_cases [OF g [unfolded get_mark_def]] undisturbed_careful(1) undisturbed_facts(2) assms(2) by metis
  show ?thesis
  proof (cases "\<exists>x. r1 = Inr (Some x)")
    case True
    then have "s' = s2" using assms(1) \<open>n \<noteq> Folder \<and> is_scratch (last p)\<close> g u
      by (auto simp: sweep_entry_def split: sum.splits)
    then show ?thesis using marked_gone [of p s _ s1 r2 s2] True g u assms(2,3) \<open>n \<noteq> Folder \<and> is_scratch (last p)\<close>
      by (auto simp: scratch_names_def)
  next
    case False
    then have "s' = s1" using assms(1) \<open>n \<noteq> Folder \<and> is_scratch (last p)\<close> g
      by (auto simp: sweep_entry_def split: sum.splits option.splits)
    then show ?thesis using c1 by (simp add: lost_def)
  qed
qed

lemma sweep_entries_lost:
  "foldl sweep_entry (stack, k, s) es = (stack', k', s') \<Longrightarrow> careful scratch_names s \<Longrightarrow> \<forall>e\<in>set es. fst e \<noteq> [] \<Longrightarrow>
     lost is_litter s s' \<and> careful scratch_names s'"
proof (induction es arbitrary: stack k s)
  case (Cons e es)
  obtain p n where e: "e = (p, n)" by fastforce
  obtain stack1 k1 s1 where s: "sweep_entry (stack, k, s) (p, n) = (stack1, k1, s1)" by (metis prod.exhaust)
  have "foldl sweep_entry (stack1, k1, s1) es = (stack', k', s')" using Cons.prems e s by simp
  from Cons.IH [OF this] sweep_entry_lost [OF s Cons.prems(2)] Cons.prems(3) e show ?case using lost_trans by fastforce
qed (simp add: lost_def)

lemma sweep_loop_lost:
  "sweep_loop stack k s = (k', s') \<Longrightarrow> careful scratch_names s \<Longrightarrow> lost is_litter s s'"
proof (induction stack k s arbitrary: k' s' rule: sweep_loop.induct)
  case (1 stack k s)
  show ?case
  proof (cases stack)
    case Nil
    then show ?thesis using 1(3) by (simp add: lost_def sweep_loop.simps [of "[]" k s])
  next
    case (Cons d rest)
    obtain r s1 where d: "sd_read_dir d s = (r, s1)" by fastforce
    have c1: "careful scratch_names s1" "sd_gone s1 = sd_gone s"
      using sd_read_dir_cases [OF d] undisturbed_careful(1) undisturbed_facts(2) 1(4) by metis+
    show ?thesis
    proof (cases r)
      case (Inl e)
      then have "sweep_loop rest k s1 = (k', s')" using 1(3) Cons d by (simp add: sweep_loop.simps [of "d # rest" k s])
      then have "lost is_litter s1 s'" by (rule 1(1) [OF Cons d [symmetric] Inl _ c1(1)])
      then show ?thesis using c1(2) by (simp add: lost_def)
    next
      case (Inr es)
      obtain stack2 k2 s2 where f: "foldl sweep_entry (rest, k, s1) es = (stack2, k2, s2)" by (metis prod.exhaust)
      have ne: "\<forall>e\<in>set es. fst e \<noteq> []" using sd_read_dir_cases [OF d] Inr by (auto simp: entries_of_def)
      note l = sweep_entries_lost [OF f c1(1) ne]
      have "sweep_loop stack2 k2 s2 = (k', s')" using 1(3) Cons d Inr f by (simp add: sweep_loop.simps [of "d # rest" k s])
      then have "lost is_litter s2 s'"
        by (rule 1(2) [OF Cons d [symmetric] Inr f [symmetric] refl]) (use l in blast)
      then have "lost is_litter s1 s'" using l lost_trans by blast
      then show ?thesis using c1(2) by (simp add: lost_def)
    qed
  qed
qed


definition littered :: sync where
  "littered = put_tree (tree_of raced @
     [([''s'', ''d''], Folder), ([''s'', ''d'', ''.b.hydration-2''], Regular ((kept_file 8 1)\<lparr>cf_inode := (cf_inode (kept_file 8 1))\<lparr>f_mark := True\<rparr>\<rparr>))]) raced"


end
