(* ===== verification/Delta.thy ===== *)
theory Delta
  imports Namespace Place_Sweep Wire
begin

text \<open>
  \<open>crates/hydration-client/src/delta.rs\<close>: a batch of changes from the cloud is applied to the sync
  directory.  The state of a pass is what it counts, the store's index, the placer, the directory with
  its other users, and the two maps from cloud identities that are built once per pass.  The hash of
  the standard library is an argument, for the facts of a file and for a batch.
\<close>

section \<open>Paths from the cloud\<close>

definition path_parts :: "string \<Rightarrow> string list" where
  "path_parts rel = filter (\<lambda>c. c \<noteq> [] \<and> c \<noteq> ''.'') (split_on slash rel)"

definition safe_join :: "path \<Rightarrow> string \<Rightarrow> path option" where
  "safe_join root rel =
     (if rel = [] \<or> hd rel = slash \<or> hd (split_on slash rel) = ''.'' then None
      else let cs = path_parts rel
           in if ''..'' \<in> set cs \<or> list_ex is_internal cs then None else Some (root @ cs))"

definition folder_path :: "path \<Rightarrow> string \<Rightarrow> path option" where
  "folder_path root rel = (if rel = [] then Some root else safe_join root rel)"

text \<open>\<open>is_ignored\<close> on a path that is still a string: the components are those of \<open>Path::components\<close>, the
  anchored rules see the string as it is.\<close>

definition declared_ignored :: "ignore_set \<Rightarrow> string \<Rightarrow> bool" where
  "declared_ignored ig rel \<longleftrightarrow>
     list_ex (\<lambda>c. c \<noteq> ''..'' \<and> c \<in> set (ig_component ig)) (path_parts rel) \<or>
     list_ex (\<lambda>p. rel = p \<or> prefix p rel \<and> length p < length rel \<and> rel ! length p = slash) (ig_prefix ig)"

definition declared :: "cloud_change \<Rightarrow> string option" where
  "declared c =
     (case c of Upserted _ p _ _ \<Rightarrow> Some p | FolderUpserted _ p _ \<Rightarrow> Some p | FolderRemoved _ p \<Rightarrow> Some p | Removed _ \<Rightarrow> None)"

section \<open>One change per object and class\<close>

definition change_class :: "cloud_change \<Rightarrow> nat" where
  "change_class c =
     (case c of Removed _ \<Rightarrow> 0 | FolderRemoved _ _ \<Rightarrow> 1 | Upserted _ _ _ _ \<Rightarrow> 2 | FolderUpserted _ _ _ \<Rightarrow> 3)"

definition last_of :: "cloud_change list \<Rightarrow> ((string \<times> nat) \<times> nat) list" where
  "last_of cs = foldl (\<lambda>m (i, c). AList.update (ch_id c, change_class c) i m) [] (List.enumerate 0 cs)"

definition coalesce :: "cloud_change list \<Rightarrow> cloud_change list" where
  "coalesce cs =
     map snd (filter (\<lambda>(i, c). map_of (last_of cs) (ch_id c, change_class c) = Some i) (List.enumerate 0 cs))"

section \<open>What a pass reports\<close>

datatype kept_why = EditWaiting | NeverUploaded | ChangedUnderneath

text \<open>The text of an error is the error; removing the root is refused with a text of its own.\<close>

datatype failed_why =
  PathRefused | TooLarge u64 | DestinationOccupied | RenameFailed io_error | PlaceFailed io_error
  | RemoveFailed "io_error option"

datatype stopped = MountChanged | MountUnverifiable io_error

record applied =
  ap_created :: nat
  ap_updated :: nat
  ap_removed :: nat
  ap_moved :: nat
  ap_ignored :: nat
  ap_kept :: "(string \<times> kept_why) list"
  ap_failed :: "(string \<times> failed_why) list"
  ap_retryable :: bool
  ap_stopped :: "stopped option"

definition applied_default :: applied where
  "applied_default =
     \<lparr>ap_created = 0, ap_updated = 0, ap_removed = 0, ap_moved = 0, ap_ignored = 0, ap_kept = [], ap_failed = [],
      ap_retryable = False, ap_stopped = None\<rparr>"

record pass =
  ps_out :: applied
  ps_store :: store
  ps_placer :: placer
  ps_files :: "(string \<times> entry) list"
  ps_folders :: "(string \<times> path) list"
  ps_sync :: sync

definition report :: "(applied \<Rightarrow> applied) \<Rightarrow> pass \<Rightarrow> pass" where
  "report f ps = ps\<lparr>ps_out := f (ps_out ps)\<rparr>"

definition report_failed :: "string \<Rightarrow> failed_why \<Rightarrow> pass \<Rightarrow> pass" where
  "report_failed p w = report (\<lambda>a. a\<lparr>ap_failed := ap_failed a @ [(p, w)]\<rparr>)"

definition report_retry :: "string \<Rightarrow> failed_why \<Rightarrow> pass \<Rightarrow> pass" where
  "report_retry p w = report (\<lambda>a. a\<lparr>ap_failed := ap_failed a @ [(p, w)], ap_retryable := True\<rparr>)"

definition report_kept :: "string \<Rightarrow> kept_why \<Rightarrow> pass \<Rightarrow> pass" where
  "report_kept p w = report (\<lambda>a. a\<lparr>ap_kept := ap_kept a @ [(p, w)]\<rparr>)"

definition report_ignored :: "pass \<Rightarrow> pass" where
  "report_ignored = report (\<lambda>a. a\<lparr>ap_ignored := Suc (ap_ignored a)\<rparr>)"

text \<open>The directory of a pass.\<close>

definition at_sync :: "sync \<Rightarrow> pass \<Rightarrow> pass" where
  "at_sync s ps = ps\<lparr>ps_sync := s\<rparr>"

section \<open>Looking at a file\<close>

definition node_size :: "sync \<Rightarrow> node \<Rightarrow> u64" where
  "node_size s n = (case n of Regular c \<Rightarrow> f_size (cf_inode c) | _ \<Rightarrow> sd_dir_size s)"

text \<open>The inode of a folder is no part of the model: it is the identity of no file.\<close>

definition node_id :: "node \<Rightarrow> file_id option" where
  "node_id n = (case n of Regular c \<Rightarrow> Some (f_id (cf_inode c)) | _ \<Rightarrow> None)"

definition waits :: "file_id set \<Rightarrow> node \<Rightarrow> bool" where
  "waits waiting n = (case node_id n of Some i \<Rightarrow> i \<in> waiting | None \<Rightarrow> False)"

text \<open>\<open>.ok().flatten()\<close>\<close>

definition attr_or_none :: "'a option act \<Rightarrow> sync \<Rightarrow> 'a option \<times> sync" where
  "attr_or_none act s = (case act s of (Inr v, s1) \<Rightarrow> (v, s1) | (Inl _, s1) \<Rightarrow> (None, s1))"

text \<open>\<open>stamp::state\<close> of a path: one \<open>getxattr\<close> of at most 96 bytes, then \<open>metadata\<close>.\<close>

definition stamp_state_at :: "path \<Rightarrow> stamp_state act" where
  "stamp_state_at p =
     (if has_nul p then act_fail (Custom InvalidInput)
      else (\<lambda>s. case probe_attr (\<lambda>c. f_stamp (cf_inode c)) (\<lambda>_. None) p s of
             (Inl e, s1) \<Rightarrow> (if absent_attr e \<or> raw_os_error e = Some ERANGE then Inr Unstamped else Inl e, s1)
           | (Inr v, s1) \<Rightarrow>
               if 96 < length v \<or> \<not> is_utf8 v then (Inr Unstamped, s1)
               else act_bind (sd_stat p) (\<lambda>n. act_return
                 (case n of Regular c \<Rightarrow> if v = stamp_of (cf_inode c) then Clean else Dirty | _ \<Rightarrow> Dirty)) s1))"

definition is_current :: "path \<Rightarrow> string \<Rightarrow> string option \<Rightarrow> u64 \<Rightarrow> sync \<Rightarrow> bool \<times> sync" where
  "is_current p cid tag n s =
     (case attr_or_none (get_cloud p) s of (local_id, s1) \<Rightarrow>
        if local_id \<noteq> Some cid then (False, s1)
        else (case attr_or_none (get_tag p) s1 of (local_tag, s2) \<Rightarrow>
              case sd_stat p s2 of
                (Inl _, s3) \<Rightarrow> (False, s3)
              | (Inr m, s3) \<Rightarrow>
                  if node_size s3 m \<noteq> n then (False, s3)
                  else (case (tag, local_tag) of
                          (Some remote, Some mine) \<Rightarrow> remote = mine
                        | (None, _) \<Rightarrow> True
                        | (Some _, None) \<Rightarrow> False, s3)))"

section \<open>A file in the cloud\<close>

text \<open>Placing, and counting it.\<close>

definition place_and_count :: "path \<Rightarrow> u64 \<Rightarrow> string \<Rightarrow> string option \<Rightarrow> string \<Rightarrow> (applied \<Rightarrow> applied) \<Rightarrow> pass \<Rightarrow> pass" where
  "place_and_count p n cid tag named f ps =
     (case place_file (ps_placer ps) p n cid tag (ps_sync ps) of
        (r, pl, s) \<Rightarrow>
          let ps1 = ps\<lparr>ps_placer := pl, ps_sync := s\<rparr>
          in case r of Inr _ \<Rightarrow> report f ps1 | Inl e \<Rightarrow> report_failed named (PlaceFailed e) ps1)"

definition count_created :: "applied \<Rightarrow> applied" where
  "count_created a = a\<lparr>ap_created := Suc (ap_created a)\<rparr>"

definition count_updated :: "applied \<Rightarrow> applied" where
  "count_updated a = a\<lparr>ap_updated := Suc (ap_updated a)\<rparr>"

definition count_removed :: "applied \<Rightarrow> applied" where
  "count_removed a = a\<lparr>ap_removed := Suc (ap_removed a)\<rparr>"

definition count_moved :: "applied \<Rightarrow> applied" where
  "count_moved a = a\<lparr>ap_moved := Suc (ap_moved a)\<rparr>"

text \<open>A name that is there already: nothing to do, something to keep, or an update.\<close>

definition update_existing ::
  "file_id set \<Rightarrow> string \<Rightarrow> path \<Rightarrow> string \<Rightarrow> u64 \<Rightarrow> string option \<Rightarrow> node \<Rightarrow> pass \<Rightarrow> pass" where
  "update_existing waiting named p cid n tag md ps =
     (case is_current p cid tag n (ps_sync ps) of (current, s1) \<Rightarrow>
        if current then at_sync s1 ps
        else if waits waiting md then report_kept named EditWaiting (at_sync s1 ps)
        else (case attr_or_none (get_cloud p) s1 of (known, s2) \<Rightarrow>
          if (known = None \<or> known = Some []) \<and> 0 < node_size s2 md then report_kept named NeverUploaded (at_sync s2 ps)
          else (case stamp_state_at p s2 of (st, s3) \<Rightarrow>
            if st = Inr Dirty then report_kept named ChangedUnderneath (at_sync s3 ps)
            else place_and_count p n cid tag named count_updated (at_sync s3 ps))))"

text \<open>The object is here under another name: it is renamed.  \<open>Inl None\<close> goes on to the next change,
  \<open>Inl (Some e)\<close> leaves the pass.\<close>

definition remember_node :: "node \<Rightarrow> path \<Rightarrow> store \<Rightarrow> store" where
  "remember_node md p st = (case node_id md of Some i \<Rightarrow> remember_path i p st | None \<Rightarrow> st)"

definition move_existing :: "string \<Rightarrow> path \<Rightarrow> string \<Rightarrow> pass \<Rightarrow> (io_error option + unit) \<times> pass" where
  "move_existing named p cid ps =
     (case map_of (ps_files ps) cid of
        None \<Rightarrow> (Inr (), ps)
      | Some e \<Rightarrow>
          if en_path e = p then (Inr (), ps)
          else (case sd_exists (en_path e) (ps_sync ps) of (there, s1) \<Rightarrow>
            if \<not> there then (Inr (), at_sync s1 ps)
            else (case sd_exists p s1 of (occupied, s2) \<Rightarrow>
              if occupied then (Inl None, report_retry named DestinationOccupied (at_sync s2 ps))
              else (case sd_mkdir_all (butlast p) s2 of (_, s3) \<Rightarrow>
                case sd_rename (en_path e) p s3 of
                  (Inl err, s4) \<Rightarrow> (Inl None, report_retry named (RenameFailed err) (at_sync s4 ps))
                | (Inr _, s4) \<Rightarrow>
                    let ps1 = report count_moved (at_sync s4 ps)\<lparr>ps_files := AList.update cid (e\<lparr>en_path := p\<rparr>) (ps_files ps)\<rparr>
                    in case sd_stat p s4 of
                         (Inl err, s5) \<Rightarrow> (Inl (Some err), at_sync s5 ps1)
                       | (Inr md, s5) \<Rightarrow> (Inr (), (at_sync s5 ps1)\<lparr>ps_store := remember_node md p (ps_store ps)\<rparr>)))))"

definition upsert_file :: "path \<Rightarrow> file_id set \<Rightarrow> string \<Rightarrow> string \<Rightarrow> u64 \<Rightarrow> string option \<Rightarrow> pass \<Rightarrow> io_error option \<times> pass" where
  "upsert_file root waiting cid named n tag ps =
     (case safe_join root named of
        None \<Rightarrow> (None, report_failed named PathRefused ps)
      | Some p \<Rightarrow>
          if MAX_OBJECT < n then (None, report_failed named (TooLarge n) ps)
          else (case move_existing named p cid ps of
                  (Inl stop, ps1) \<Rightarrow> (stop, ps1)
                | (Inr _, ps1) \<Rightarrow>
                    (case sd_stat p (ps_sync ps1) of
                       (Inl _, s1) \<Rightarrow> (None, place_and_count p n cid tag named count_created (at_sync s1 ps1))
                     | (Inr md, s1) \<Rightarrow> (None, update_existing waiting named p cid n tag md (at_sync s1 ps1)))))"

section \<open>A file gone from the cloud\<close>

definition display :: "path \<Rightarrow> string" where
  "display p = slash # join_with slash p"

definition remove_existing :: "path \<Rightarrow> ignore_set \<Rightarrow> file_id set \<Rightarrow> string \<Rightarrow> pass \<Rightarrow> pass" where
  "remove_existing root ig waiting cid ps =
     (case map_of (ps_files ps) cid of
        None \<Rightarrow> ps
      | Some e \<Rightarrow>
          let p = en_path e
          in if (case path_below root p of Some rel \<Rightarrow> is_ignored ig rel | None \<Rightarrow> False) then report_ignored ps
             else (case sd_stat p (ps_sync ps) of
                     (Inl _, s1) \<Rightarrow> at_sync s1 ps
                   | (Inr md, s1) \<Rightarrow>
                       if waits waiting md then report_kept (display p) EditWaiting (at_sync s1 ps)
                       else (case stamp_state_at p s1 of (st, s2) \<Rightarrow>
                         if st = Inr Dirty then report_kept (display p) ChangedUnderneath (at_sync s2 ps)
                         else (case remove_file (ps_placer ps) p s2 of
                                 (Inr _, s3) \<Rightarrow> report count_removed (at_sync s3 ps)
                               | (Inl err, s3) \<Rightarrow> report_failed (display p) (RemoveFailed (Some err)) (at_sync s3 ps)))))"

section \<open>A folder in the cloud\<close>

definition set_folder_cloud :: "path \<Rightarrow> string \<Rightarrow> unit act" where
  "set_folder_cloud p cid = set_xattr p (\<lambda>c. c\<lparr>cf_cloud := Some cid\<rparr>) (\<lambda>a. a\<lparr>da_cloud := Some cid\<rparr>)"

definition set_folder_tag :: "path \<Rightarrow> string option \<Rightarrow> unit act" where
  "set_folder_tag p tag =
     (case tag of
        Some t \<Rightarrow> set_xattr p (\<lambda>c. c\<lparr>cf_tag := Some t\<rparr>) (\<lambda>a. a\<lparr>da_tag := Some t\<rparr>)
      | None \<Rightarrow> remove_xattr p (\<lambda>c. c\<lparr>cf_tag := None\<rparr>) (\<lambda>a. a\<lparr>da_tag := None\<rparr>))"

text \<open>The folder may be here under another name.  \<open>Inl\<close> as in \<open>move_existing\<close>.\<close>

definition move_folder :: "string \<Rightarrow> path \<Rightarrow> string \<Rightarrow> pass \<Rightarrow> (io_error option + unit) \<times> pass" where
  "move_folder named p cid ps =
     (case map_of (ps_folders ps) cid of
        None \<Rightarrow> (Inr (), ps)
      | Some old \<Rightarrow>
          if old = p then (Inr (), ps)
          else (case sd_exists old (ps_sync ps) of (there, s1) \<Rightarrow>
            if \<not> there then (Inr (), at_sync s1 ps)
            else (case sd_exists p s1 of (occupied, s2) \<Rightarrow>
              if occupied then (Inl None, report_retry named DestinationOccupied (at_sync s2 ps))
              else (case sd_mkdir_all (butlast p) s2 of
                (Inl err, s3) \<Rightarrow> (Inl (Some err), at_sync s3 ps)
              | (Inr _, s3) \<Rightarrow>
                  (case sd_rename old p s3 of
                     (Inl err, s4) \<Rightarrow> (Inl None, report_retry named (RenameFailed err) (at_sync s4 ps))
                   | (Inr _, s4) \<Rightarrow> (Inr (), report count_moved (at_sync s4 ps)))))))"

text \<open>The folder is made sure to exist.\<close>

definition ensure_folder :: "string \<Rightarrow> path \<Rightarrow> pass \<Rightarrow> bool \<times> pass" where
  "ensure_folder named p ps =
     (case sd_stat p (ps_sync ps) of
        (Inr md, s1) \<Rightarrow>
          if md \<noteq> Folder then (False, report_retry named DestinationOccupied (at_sync s1 ps)) else (True, at_sync s1 ps)
      | (Inl e, s1) \<Rightarrow>
          if kind_of e = NotFound
          then (case sd_mkdir_all p s1 of
                  (Inl err, s2) \<Rightarrow> (False, report_retry named (PlaceFailed err) (at_sync s2 ps))
                | (Inr _, s2) \<Rightarrow> (True, report count_created (at_sync s2 ps)))
          else (False, report_retry named (PlaceFailed e) (at_sync s1 ps)))"

definition claim_folder :: "string \<Rightarrow> path \<Rightarrow> string \<Rightarrow> string option \<Rightarrow> pass \<Rightarrow> pass" where
  "claim_folder named p cid tag ps =
     (case attr_or_none (get_cloud p) (ps_sync ps) of (owner, s1) \<Rightarrow>
        if owner \<noteq> None \<and> owner \<noteq> Some cid then report_retry named DestinationOccupied (at_sync s1 ps)
        else (case set_folder_cloud p cid s1 of
                (Inl e, s2) \<Rightarrow> report_retry named (PlaceFailed e) (at_sync s2 ps)
              | (Inr _, s2) \<Rightarrow>
                  (case set_folder_tag p tag s2 of
                     (Inl e, s3) \<Rightarrow> report_retry named (PlaceFailed e) (at_sync s3 ps)
                   | (Inr _, s3) \<Rightarrow> (at_sync s3 ps)\<lparr>ps_folders := AList.update cid p (ps_folders ps)\<rparr>)))"

definition upsert_folder :: "path \<Rightarrow> string \<Rightarrow> string \<Rightarrow> string option \<Rightarrow> pass \<Rightarrow> io_error option \<times> pass" where
  "upsert_folder root cid named tag ps =
     (case folder_path root named of
        None \<Rightarrow> (None, report_failed named PathRefused ps)
      | Some p \<Rightarrow>
          (case move_folder named p cid ps of
             (Inl stop, ps1) \<Rightarrow> (stop, ps1)
           | (Inr _, ps1) \<Rightarrow>
               (case ensure_folder named p ps1 of (ok, ps2) \<Rightarrow>
                  (None, if ok then claim_folder named p cid tag ps2 else ps2))))"

section \<open>A folder gone from the cloud\<close>

definition detach_folder :: "path \<Rightarrow> unit act" where
  "detach_folder p =
     act_bind (remove_xattr p (\<lambda>c. c\<lparr>cf_tag := None\<rparr>) (\<lambda>a. a\<lparr>da_tag := None\<rparr>))
       (\<lambda>_. remove_xattr p (\<lambda>c. c\<lparr>cf_cloud := None\<rparr>) (\<lambda>a. a\<lparr>da_cloud := None\<rparr>))"

definition forget_folder :: "string \<Rightarrow> pass \<Rightarrow> pass" where
  "forget_folder cid ps = ps\<lparr>ps_folders := AList.delete cid (ps_folders ps)\<rparr>"

definition remove_folder :: "path \<Rightarrow> ignore_set \<Rightarrow> string list \<Rightarrow> string \<Rightarrow> string \<Rightarrow> pass \<Rightarrow> pass" where
  "remove_folder root ig ignored_ids cid named ps =
     (if cid \<in> set ignored_ids then report_ignored ps
      else (case map_of (ps_folders ps) cid of
              None \<Rightarrow> ps
            | Some p \<Rightarrow>
                if (case path_below root p of Some rel \<Rightarrow> is_ignored ig rel | None \<Rightarrow> False) then report_ignored ps
                else if p = root then report_failed named (RemoveFailed None) ps
                else (case sd_remove_dir p (ps_sync ps) of
                        (Inr _, s1) \<Rightarrow> forget_folder cid (report count_removed (at_sync s1 ps))
                      | (Inl e, s1) \<Rightarrow>
                          if kind_of e = NotFound then forget_folder cid (at_sync s1 ps)
                          else if raw_os_error e = Some ENOTEMPTY
                          then (case detach_folder p s1 of
                                  (Inr _, s2) \<Rightarrow> forget_folder cid (at_sync s2 ps)
                                | (Inl e2, s2) \<Rightarrow> report_retry named (RemoveFailed (Some e2)) (at_sync s2 ps))
                          else report_retry named (RemoveFailed (Some e)) (at_sync s1 ps))))"

section \<open>The folders with an identity\<close>

type_synonym folder_index = "(string \<times> path) list \<times> string list"

text \<open>What one folder adds: an identity of a synced folder is claimed once.\<close>

definition index_folder :: "path \<Rightarrow> ignore_set \<Rightarrow> path \<Rightarrow> string option \<Rightarrow> folder_index \<Rightarrow> io_error + folder_index" where
  "index_folder root ig d raw = (\<lambda>(synced, ignored).
     case raw of
       None \<Rightarrow> Inr (synced, ignored)
     | Some i \<Rightarrow>
         if \<not> is_utf8 i then Inl (Custom InvalidData)
         else if i = [] then Inr (synced, ignored)
         else if (case path_below root d of Some rel \<Rightarrow> rel \<noteq> [] \<and> is_ignored ig rel | None \<Rightarrow> False)
         then Inr (synced, List.insert i ignored)
         else if i \<in> fst ` set synced then Inl (Custom InvalidData)
         else Inr ((i, d) # synced, ignored))"

lemma get_cloud_calmed: "get_cloud p s = (r, s') \<Longrightarrow> calmed s s'"
  unfolding get_cloud_def by (rule get_attr_calmed)

function index_loop :: "path \<Rightarrow> ignore_set \<Rightarrow> path list \<Rightarrow> folder_index \<Rightarrow> sync \<Rightarrow> (io_error + folder_index) \<times> sync" where
  "index_loop root ig stack ix s =
     (case stack of
        [] \<Rightarrow> (Inr ix, s)
      | d # rest \<Rightarrow>
          (case get_cloud d s of
             (Inl e, s1) \<Rightarrow> (Inl e, s1)
           | (Inr raw, s1) \<Rightarrow>
               (case index_folder root ig d raw ix of
                  Inl e \<Rightarrow> (Inl e, s1)
                | Inr ix1 \<Rightarrow>
                    (case sd_read_dir d s1 of
                       (Inl e, s2) \<Rightarrow> (Inl e, s2)
                     | (Inr es, s2) \<Rightarrow>
                         index_loop root ig (rev (map fst (filter (\<lambda>(p, n). n = Folder) es)) @ rest) ix1 s2))))"
  by pat_completeness auto

termination
proof (relation "inv_image (less_than <*lex*> less_than <*lex*> mult less_than)
    (\<lambda>(root, ig, stack, ix, s). (length (sd_user s), length (tree_of s), image_mset (below_left s) (mset stack)))", goal_cases)
  case 1
  show ?case by (intro wf_inv_image wf_lex_prod wf_mult) simp_all
next
  case (2 root ig stack ix s d rest x s1 raw ix1 y s2 es)
  have r: "calmed s s1" using get_cloud_calmed 2(2) by metis
  have e: "calmed s1 s2" "es = entries_of s2 d" using sd_read_dir_cases [of d s1 y s2] 2(5,6) undisturbed_calmed by simp_all
  have "\<And>p. p \<in> set (rev (map fst (filter (\<lambda>(p, n). n = Folder) es))) \<Longrightarrow> below_left s2 p < below_left s2 d"
    using below_left_entries e(2) by auto
  note m = below_left_mult [of _ s2 d rest, OF this]
  have "(image_mset (below_left s2) (mset (rev (map fst (filter (\<lambda>(p, n). n = Folder) es)) @ rest)),
      image_mset (below_left s) (mset stack)) \<in> mult less_than" if "tree_of s2 = tree_of s"
  proof -
    have "below_left s2 = below_left s" using that by (rule below_left_cong)
    then show ?thesis using m 2(1) by (simp only:)
  qed
  from calmed_lexI [OF calmed_trans [OF r e(1)] this] show ?case by simp
qed

declare index_loop.simps [simp del]

definition folders_by_cloud_id :: "path \<Rightarrow> ignore_set \<Rightarrow> folder_index act" where
  "folders_by_cloud_id root ig s =
     (case index_loop root ig [root] ([], []) s of
        (Inl e, s1) \<Rightarrow> (Inl e, s1)
      | (Inr (synced, ignored), s1) \<Rightarrow>
          (if list_ex (\<lambda>(i, _). i \<in> set ignored) synced then Inl (Custom InvalidData) else Inr (synced, ignored), s1))"

section \<open>A pass\<close>

definition apply_change :: "path \<Rightarrow> ignore_set \<Rightarrow> string list \<Rightarrow> file_id set \<Rightarrow> cloud_change \<Rightarrow> pass \<Rightarrow> io_error option \<times> pass" where
  "apply_change root ig ignored_ids waiting c ps =
     (if (case declared c of Some p \<Rightarrow> declared_ignored ig p | None \<Rightarrow> False) then (None, report_ignored ps)
      else case c of
        FolderUpserted cid p tag \<Rightarrow> upsert_folder root cid p tag ps
      | Upserted cid p n tag \<Rightarrow> upsert_file root waiting cid p n tag ps
      | Removed cid \<Rightarrow> (None, remove_existing root ig waiting cid ps)
      | FolderRemoved cid p \<Rightarrow> (None, remove_folder root ig ignored_ids cid p ps))"

definition stop :: "stopped \<Rightarrow> pass \<Rightarrow> pass" where
  "stop w = report (\<lambda>a. a\<lparr>ap_stopped := Some w, ap_retryable := True\<rparr>)"

text \<open>The loop: the mount is looked at before each change.\<close>

fun apply_each ::
  "path \<Rightarrow> ignore_set \<Rightarrow> string list \<Rightarrow> file_id set \<Rightarrow> cloud_change list \<Rightarrow> pass \<Rightarrow> io_error option \<times> pass" where
  "apply_each root ig ignored_ids waiting [] ps = (None, ps)"
| "apply_each root ig ignored_ids waiting (c # cs) ps =
     (case root_still_current (ps_placer ps) (ps_sync ps) of
        (Inl e, s1) \<Rightarrow> (None, stop (MountUnverifiable e) (at_sync s1 ps))
      | (Inr False, s1) \<Rightarrow> (None, stop MountChanged (at_sync s1 ps))
      | (Inr True, s1) \<Rightarrow>
          (case apply_change root ig ignored_ids waiting c (at_sync s1 ps) of
             (Some e, ps1) \<Rightarrow> (Some e, ps1)
           | (None, ps1) \<Rightarrow> apply_each root ig ignored_ids waiting cs ps1))"

record fingerprint =
  fp_batch :: u64
  fp_tree :: u64

definition did_nothing :: "applied \<Rightarrow> bool" where
  "did_nothing a \<longleftrightarrow>
     ap_created a = 0 \<and> ap_updated a = 0 \<and> ap_removed a = 0 \<and> ap_moved a = 0 \<and> ap_stopped a = None \<and>
     \<not> ap_retryable a \<and> ap_failed a = []"

text \<open>The scan looks at the directory as one call.\<close>

definition scan_sync :: "(facts \<Rightarrow> u64) \<Rightarrow> path \<Rightarrow> store \<Rightarrow> sync \<Rightarrow> (io_error + nat) \<times> store \<times> sync" where
  "scan_sync hash root st s =
     (let s1 = others s
      in case scan hash root (st, sd_client s1) of (r, st1, w) \<Rightarrow> (r, st1, s1\<lparr>sd_client := w\<rparr>))"

definition apply_remembering ::
  "(facts \<Rightarrow> u64) \<Rightarrow> (cloud_change list \<Rightarrow> u64) \<Rightarrow> path \<Rightarrow> cloud_change list \<Rightarrow> file_id set \<Rightarrow>
   store \<times> placer \<times> sync \<times> fingerprint option \<Rightarrow> (io_error + applied) \<times> store \<times> placer \<times> sync \<times> fingerprint option" where
  "apply_remembering hash batch_hash root changes waiting = (\<lambda>(st, pl, s, seen).
     if changes = [] then (Inr applied_default, st, pl, s, seen)
     else case scan_sync hash root st s of
       (Inl e, st1, s1) \<Rightarrow> (Inl e, st1, pl, s1, seen)
     | (Inr _, st1, s1) \<Rightarrow>
         let now = \<lparr>fp_batch = batch_hash changes, fp_tree = st_fingerprint st1\<rparr>
         in if seen = Some now then (Inr applied_default, st1, pl, s1, seen)
            else (case folders_by_cloud_id root (st_ignore st1) s1 of
                    (Inl e, s2) \<Rightarrow> (Inl e, st1, pl, s2, seen)
                  | (Inr (synced, ignored), s2) \<Rightarrow>
                      (case apply_each root (st_ignore st1) ignored waiting (coalesce changes)
                              \<lparr>ps_out = applied_default, ps_store = st1, ps_placer = pl,
                               ps_files = by_cloud_id st1 (sd_client s1), ps_folders = synced, ps_sync = s2\<rparr> of
                         (Some e, ps) \<Rightarrow> (Inl e, ps_store ps, ps_placer ps, ps_sync ps, seen)
                       | (None, ps) \<Rightarrow>
                           (Inr (ps_out ps), ps_store ps, ps_placer ps, ps_sync ps,
                            if did_nothing (ps_out ps) then Some now else seen))))"

definition apply_changes ::
  "(facts \<Rightarrow> u64) \<Rightarrow> (cloud_change list \<Rightarrow> u64) \<Rightarrow> path \<Rightarrow> cloud_change list \<Rightarrow> file_id set \<Rightarrow>
   store \<times> placer \<times> sync \<Rightarrow> (io_error + applied) \<times> store \<times> placer \<times> sync" where
  "apply_changes hash batch_hash root changes waiting = (\<lambda>(st, pl, s).
     case apply_remembering hash batch_hash root changes waiting (st, pl, s, None) of (r, st1, pl1, s1, _) \<Rightarrow> (r, st1, pl1, s1))"

end
