(* ===== verification/Delta_Safety.thy ===== *)
theory Delta_Safety
  imports Delta Place_Atomic
begin

text \<open>
  What a delta pass (\<open>crates/hydration-client/src/delta.rs\<close>) may destroy.  The pass runs with nobody else
  in the directory and without faults of its system calls: the checks and the replacement are separate
  calls, so this is what the checks can give.
\<close>

section \<open>Calls when nobody else is there and nothing fails\<close>

definition idle_dir :: "sync \<Rightarrow> bool" where
  "idle_dir s \<longleftrightarrow> sd_user s = [] \<and> cl_plan (sd_client s) = []"

lemma undisturbed_idle_dir: "undisturbed s s0 \<Longrightarrow> idle_dir s \<Longrightarrow> s0 = s"
  by (auto simp: undisturbed_def idle_dir_def others_idle put_plan_same)

lemma idle_call: "idle_dir s \<Longrightarrow> sync_call act s = act s"
  by (simp add: idle_dir_def sync_call_idle)

lemma stat_idle:
  assumes "sd_stat p s = (r, s')" "idle_dir s"
  shows "s' = s \<and> (\<forall>n. r = Inr n \<longrightarrow> node_of s p = Some n) \<and>
    (\<forall>e. r = Inl e \<longrightarrow> has_nul p \<or> node_of s p = None)"
  using assms by (auto simp: sd_stat_def named_call_def act_fail_def idle_call act_return_def at_node_def split: if_splits option.splits)

lemma exists_idle:
  assumes "sd_exists p s = (b, s')" "idle_dir s"
  shows "s' = s \<and> (b \<longleftrightarrow> \<not> has_nul p \<and> node_of s p \<noteq> None)"
  using assms by (auto simp: sd_exists_def sd_stat_def named_call_def act_fail_def idle_call act_return_def at_node_def
      split: if_splits option.splits sum.splits prod.splits)

lemma is_dir_idle: "sd_is_dir p s = (b, s') \<Longrightarrow> idle_dir s \<Longrightarrow> s' = s"
  using stat_idle by (auto simp: sd_is_dir_def split: prod.splits)

lemma get_attr_idle:
  assumes "get_attr ff fd p s = (r, s')" "idle_dir s"
  shows "s' = s"
proof -
  obtain s1 where "undisturbed s s1" "undisturbed s1 s'" using get_attr_cases [OF assms(1)] by blast
  then show ?thesis using undisturbed_idle_dir assms(2) by metis
qed

lemma attr_or_none_idle: "attr_or_none (get_attr ff fd p) s = (v, s') \<Longrightarrow> idle_dir s \<Longrightarrow> s' = s"
  by (auto simp: attr_or_none_def split: prod.splits sum.splits dest: get_attr_idle)

lemmas cloud_idle = attr_or_none_idle [of cf_cloud da_cloud, folded get_cloud_def]
lemmas tag_idle = attr_or_none_idle [of cf_tag da_tag, folded get_tag_def]

lemma attr_or_none_cloud:
  assumes "attr_or_none (get_cloud p) s = (Some v, s')" "idle_dir s" "node_of s p = Some (Regular c)"
  shows "cf_cloud c = Some v"
proof -
  have g: "get_attr cf_cloud da_cloud p s = (Inr (Some v), s')"
    using assms(1) by (auto simp: attr_or_none_def get_cloud_def split: prod.splits sum.splits)
  then show ?thesis using get_attr_cases [OF g] get_attr_idle [OF g assms(2)] assms(3) by auto
qed

lemma is_current_idle: "is_current p cid tag n s = (b, s') \<Longrightarrow> idle_dir s \<Longrightarrow> s' = s"
  by (auto simp: is_current_def split: prod.splits sum.splits if_splits option.splits
      dest: cloud_idle tag_idle stat_idle)

text \<open>A file the framework did not leave as it is.\<close>

definition edited :: "cfile \<Rightarrow> bool" where
  "edited c \<longleftrightarrow> (\<exists>v. f_stamp (cf_inode c) = Some v \<and> length v \<le> 96 \<and> is_utf8 v \<and> v \<noteq> stamp_of (cf_inode c))"

lemma stamp_state_idle:
  assumes "stamp_state_at p s = (r, s')" "idle_dir s"
  shows "s' = s \<and> (\<forall>c. \<not> has_nul p \<longrightarrow> node_of s p = Some (Regular c) \<longrightarrow> (r = Inr Dirty \<longleftrightarrow> edited c))"
proof (cases "has_nul p")
  case True
  then show ?thesis using assms(1) by (simp add: stamp_state_at_def act_fail_def)
next
  case False
  obtain r1 s1 where q: "probe_attr (\<lambda>c. f_stamp (cf_inode c)) (\<lambda>_. None) p s = (r1, s1)" by fastforce
  have s1: "s1 = s" using probe_undisturbed [OF q] undisturbed_idle_dir assms(2) by blast
  have r1: "r1 = (case f_stamp (cf_inode c) of Some v \<Rightarrow> Inr v | None \<Rightarrow> Inl (Os ENODATA))" if "node_of s p = Some (Regular c)" for c
    using q assms(2) that by (auto simp: probe_attr_def idle_call at_node_def split: option.splits)
  show ?thesis
  proof (cases r1)
    case (Inl e)
    then have "s' = s" "r = (if absent_attr e \<or> raw_os_error e = Some ERANGE then Inr Unstamped else Inl e)"
      using assms(1) False q s1 by (auto simp: stamp_state_at_def)
    then show ?thesis using r1 Inl by (auto simp: edited_def split: option.splits)
  next
    case (Inr v)
    obtain r2 s2 where g: "sd_stat p s = (r2, s2)" by fastforce
    note t = stat_idle [OF g assms(2)]
    show ?thesis
    proof (cases "96 < length v \<or> \<not> is_utf8 v")
      case True
      then have "s' = s" "r = Inr Unstamped" using assms(1) False q s1 Inr by (auto simp: stamp_state_at_def)
      then show ?thesis using r1 Inr True by (auto simp: edited_def split: option.splits)
    next
      case bound: False
      then have d: "act_bind (sd_stat p) (\<lambda>n. act_return
           (case n of Regular c \<Rightarrow> if v = stamp_of (cf_inode c) then Clean else Dirty | _ \<Rightarrow> Dirty)) s = (r, s')"
        using assms(1) False q s1 Inr by (auto simp: stamp_state_at_def)
      have "s' = s" using d g t by (auto simp: act_bind_def act_return_def split: sum.splits)
      moreover have "r = Inr Dirty \<longleftrightarrow> edited c" if "node_of s p = Some (Regular c)" for c
      proof -
        have "r2 = Inr (Regular c)" using that False t by (cases r2) auto
        moreover have "f_stamp (cf_inode c) = Some v" using r1 [OF that] Inr by (auto split: option.splits)
        ultimately show ?thesis using d g t bound by (auto simp: act_bind_def act_return_def edited_def)
      qed
      ultimately show ?thesis by blast
    qed
  qed
qed

section \<open>What the calls take away\<close>

text \<open>Folders are made, but nothing goes; and \<open>p\<close> is no folder that is made.\<close>

definition only_parents :: "path \<Rightarrow> sync \<Rightarrow> sync \<Rightarrow> bool" where
  "only_parents p s s' \<longleftrightarrow> sd_gone s' = sd_gone s \<and> idle_dir s' \<and> sd_root s' = sd_root s \<and>
     (\<forall>q. \<not> prefix q p \<longrightarrow> node_of s' q = node_of s q)"

lemma only_parents_trans: "only_parents p s s1 \<Longrightarrow> only_parents p s1 s2 \<Longrightarrow> only_parents p s s2"
  by (simp add: only_parents_def)

lemma only_parents_refl: "idle_dir s \<Longrightarrow> only_parents p s s"
  by (simp add: only_parents_def)

lemma mkdir_idle:
  assumes "sd_mkdir d s = (r, s')" "idle_dir s" "prefix d p"
  shows "only_parents p s s'"
proof -
  obtain s0 where u: "undisturbed s s0" and c: "s' = s0 \<and> (\<exists>e. r = Inl e) \<or>
    node_of s0 d = None \<and> r = Inr () \<and> s' = put_tree (tree_of s0 @ [(d, Folder)]) s0"
    using sd_mkdir_cases [OF assms(1)] by blast
  have s: "s0 = s" by (rule undisturbed_idle_dir [OF u assms(2)])
  from c show ?thesis
  proof
    assume "s' = s0 \<and> (\<exists>e. r = Inl e)"
    then show ?thesis using s only_parents_refl [OF assms(2)] by simp
  next
    assume "node_of s0 d = None \<and> r = Inr () \<and> s' = put_tree (tree_of s0 @ [(d, Folder)]) s0"
    then have s': "s' = put_tree (tree_of s @ [(d, Folder)]) s" using s by simp
    have "node_of s' q = node_of s q" if "\<not> prefix q p" for q
      using that assms(3) by (auto simp: s' node_of_def map_of_snoc simp del: map_of_append)
    then show ?thesis using assms(2) by (simp add: only_parents_def s' idle_dir_def)
  qed
qed

lemma mkdir_all_idle:
  "mkdir_all_rev cs s = (r, s') \<Longrightarrow> idle_dir s \<Longrightarrow> prefix (rev cs) p \<Longrightarrow> only_parents p s s'"
proof (induction cs s arbitrary: r s' rule: mkdir_all_rev.induct)
  case (1 s)
  then show ?case by (simp add: only_parents_refl)
next
  case (2 c cs s)
  have pre: "prefix (rev cs) p" using 2(4) by (auto simp: prefix_def)
  obtain r1 s1 where m: "sd_mkdir (rev (c # cs)) s = (r1, s1)" by fastforce
  note o1 = mkdir_idle [OF m 2(3,4)]
  have i1: "idle_dir s1" using o1 by (simp add: only_parents_def)
  show ?case
  proof (cases r1)
    case (Inr x)
    then show ?thesis using 2(2) m o1 by (simp add: Let_def)
  next
    case (Inl e)
    show ?thesis
    proof (cases "kind_of e = NotFound")
      case False
      obtain b s2 where d: "sd_is_dir (rev (c # cs)) s1 = (b, s2)" by fastforce
      then have "s' = s2" using 2(2) m Inl False by (simp add: Let_def)
      then show ?thesis using is_dir_idle [OF d i1] o1 by simp
    next
      case True
      obtain r2 s2 where n: "mkdir_all_rev cs s1 = (r2, s2)" by fastforce
      have o2: "only_parents p s1 s2" by (rule 2(1) [OF refl m [symmetric] Inl True n i1 pre])
      have i2: "idle_dir s2" using o2 by (simp add: only_parents_def)
      obtain r3 s3 where m3: "sd_mkdir (rev (c # cs)) s2 = (r3, s3)" by fastforce
      note o3 = mkdir_idle [OF m3 i2 2(4)]
      obtain b s4 where d: "sd_is_dir (rev (c # cs)) s3 = (b, s4)" by fastforce
      have d4: "s4 = s3" using is_dir_idle [OF d] o3 by (simp add: only_parents_def)
      have "s' = s2 \<or> s' = s3"
        using 2(2) m Inl True n m3 d d4 by (auto simp: Let_def split: sum.splits)
      then show ?thesis using only_parents_trans [OF o1 o2] only_parents_trans [OF only_parents_trans [OF o1 o2] o3] by blast
    qed
  qed
qed

section \<open>Nothing unsent is lost\<close>

text \<open>The cloud has heard of the file, or it holds nothing.\<close>

definition known_or_empty :: "cfile \<Rightarrow> bool" where
  "known_or_empty c \<longleftrightarrow> cf_cloud c \<notin> {None, Some []} \<or> f_size (cf_inode c) = 0"

text \<open>What a step may take away: the occupant of a scratch name, or a file of which \<open>A\<close> holds.\<close>

definition spared :: "(cfile \<Rightarrow> bool) \<Rightarrow> path \<times> cfile \<Rightarrow> bool" where
  "spared A e \<longleftrightarrow> (\<exists>root rel k. fst e = scratch_path root rel k) \<or> A (snd e)"

text \<open>An update may take away what is sent, unedited and known to the cloud or empty; a removal what is sent and unedited.\<close>

definition updatable :: "file_id set \<Rightarrow> (cfile \<Rightarrow> bool) \<Rightarrow> bool" where
  "updatable W A \<longleftrightarrow> (\<forall>c. f_id (cf_inode c) \<notin> W \<and> \<not> edited c \<and> known_or_empty c \<longrightarrow> A c)"

definition removable :: "file_id set \<Rightarrow> (cfile \<Rightarrow> bool) \<Rightarrow> bool" where
  "removable W A \<longleftrightarrow> (\<forall>c. f_id (cf_inode c) \<notin> W \<and> \<not> edited c \<longrightarrow> A c)"

definition harmless :: "(cfile \<Rightarrow> bool) \<Rightarrow> sync \<Rightarrow> sync \<Rightarrow> bool" where
  "harmless A s s' \<longleftrightarrow> idle_dir s' \<and> sd_root s' = sd_root s \<and> lost (spared A) s s'"

definition pass_safe :: "(cfile \<Rightarrow> bool) \<Rightarrow> pass \<Rightarrow> pass \<Rightarrow> bool" where
  "pass_safe A ps ps' \<longleftrightarrow> harmless A (ps_sync ps) (ps_sync ps') \<and> pl_root (ps_placer ps') = pl_root (ps_placer ps)"

definition ready :: "pass \<Rightarrow> bool" where
  "ready ps \<longleftrightarrow> idle_dir (ps_sync ps) \<and> sd_root (ps_sync ps) = pl_root (ps_placer ps)"

lemma harmless_refl: "idle_dir s \<Longrightarrow> harmless A s s"
  by (simp add: harmless_def lost_def)

lemma harmless_trans: "harmless A s s1 \<Longrightarrow> harmless A s1 s2 \<Longrightarrow> harmless A s s2"
  unfolding harmless_def using lost_trans by metis

lemma harmless_gone: "idle_dir s' \<Longrightarrow> sd_root s' = sd_root s \<Longrightarrow> sd_gone s' = sd_gone s \<Longrightarrow> harmless A s s'"
  by (simp add: harmless_def lost_def)

lemma pass_safe_refl: "ready ps \<Longrightarrow> pass_safe A ps ps"
  by (simp add: pass_safe_def ready_def harmless_refl)

lemma pass_safe_trans: "pass_safe A ps ps1 \<Longrightarrow> pass_safe A ps1 ps2 \<Longrightarrow> pass_safe A ps ps2"
  unfolding pass_safe_def using harmless_trans by metis

lemma pass_safe_ready: "pass_safe A ps ps' \<Longrightarrow> ready ps \<Longrightarrow> ready ps'"
  by (simp add: pass_safe_def ready_def harmless_def)

lemma report_simps [simp]:
  "ps_sync (report f ps) = ps_sync ps" "ps_placer (report f ps) = ps_placer ps"
  "ps_sync (report_failed x w ps) = ps_sync ps" "ps_placer (report_failed x w ps) = ps_placer ps"
  "ps_sync (report_retry x w ps) = ps_sync ps" "ps_placer (report_retry x w ps) = ps_placer ps"
  "ps_sync (report_kept x y ps) = ps_sync ps" "ps_placer (report_kept x y ps) = ps_placer ps"
  "ps_sync (report_ignored ps) = ps_sync ps" "ps_placer (report_ignored ps) = ps_placer ps"
  "ps_sync (at_sync s ps) = s" "ps_placer (at_sync s ps) = ps_placer ps"
  "ps_sync (forget_folder cid ps) = ps_sync ps" "ps_placer (forget_folder cid ps) = ps_placer ps"
  "ps_sync (stop v ps) = ps_sync ps" "ps_placer (stop v ps) = ps_placer ps"
  by (simp_all add: report_def report_failed_def report_retry_def report_kept_def report_ignored_def at_sync_def
      forget_folder_def stop_def)

text \<open>What a pass is may be read off its directory and its placer.\<close>

lemma pass_safeI: "harmless A (ps_sync ps) (ps_sync ps') \<Longrightarrow> ps_placer ps' = ps_placer ps \<Longrightarrow> pass_safe A ps ps'"
  by (simp add: pass_safe_def)

definition replaceable :: "(cfile \<Rightarrow> bool) \<Rightarrow> path \<Rightarrow> sync \<Rightarrow> bool" where
  "replaceable A p s \<longleftrightarrow> (\<forall>c. p \<noteq> sd_root s \<longrightarrow> \<not> has_nul p \<longrightarrow> node_of s p = Some (Regular c) \<longrightarrow> A c)"

lemma place_and_count_safe:
  assumes "ready ps" "replaceable A p (ps_sync ps)"
  shows "pass_safe A ps (place_and_count p n cid tag named f ps)"
proof -
  obtain r pl s where h: "place_file (ps_placer ps) p n cid tag (ps_sync ps) = (r, pl, s)" by (metis prod.exhaust)
  have i: "sd_user (ps_sync ps) = []" "cl_plan (sd_client (ps_sync ps)) = []" "sd_root (ps_sync ps) = pl_root (ps_placer ps)"
    using assms(1) by (simp_all add: ready_def idle_dir_def)
  note g = place_file_gone [OF h i(1,3)]
  have "lost (spared A) (ps_sync ps) s"
  proof (cases "below_root (ps_placer ps) p")
    case None
    then show ?thesis using g by (simp add: lost_def)
  next
    case (Some rel)
    have p: "p \<noteq> sd_root (ps_sync ps)"
      using Some i(3) by (auto simp: below_root_def path_below_def prefix_def split: if_splits)
    have "gone_at p (scratch_path (pl_root (ps_placer ps)) rel (Suc (pl_seq (ps_placer ps)))) (ps_sync ps) e \<Longrightarrow> spared A e" for e
      using assms(2) p by (auto simp: gone_at_def spared_def replaceable_def node_of_def)
    then show ?thesis using g Some by (auto simp: lost_def)
  qed
  then have "harmless A (ps_sync ps) s" using g i by (simp add: harmless_def idle_dir_def)
  moreover have "ps_sync (place_and_count p n cid tag named f ps) = s" "ps_placer (place_and_count p n cid tag named f ps) = pl"
    using h by (auto simp: place_and_count_def Let_def split: sum.splits)
  ultimately show ?thesis using g by (simp add: pass_safe_def)
qed

lemma update_existing_safe:
  assumes "ready ps" "node_of (ps_sync ps) p = Some md" "\<not> has_nul p" "updatable W A"
  shows "pass_safe A ps (update_existing W named p cid n tag md ps)"
proof -
  let ?s = "ps_sync ps"
  have i: "idle_dir ?s" using assms(1) by (simp add: ready_def)
  obtain b s1 where c: "is_current p cid tag n ?s = (b, s1)" by fastforce
  obtain v s2 where k: "attr_or_none (get_cloud p) ?s = (v, s2)" by fastforce
  obtain st s3 where t: "stamp_state_at p ?s = (st, s3)" by fastforce
  have s: "s1 = ?s" "s2 = ?s" "s3 = ?s"
    using is_current_idle [OF c i] cloud_idle [OF k i] stamp_state_idle [OF t i] by simp_all
  have same: "at_sync ?s ps = ps" by (simp add: at_sync_def)
  have cloud: "cf_cloud c = v" if "v = Some x" "md = Regular c" for c x
    using attr_or_none_cloud [OF k [unfolded that(1)] i] assms(2) that by simp
  have "pass_safe A ps (place_and_count p n cid tag named count_updated ps)"
    if "\<not> waits W md" "st \<noteq> Inr Dirty" "\<not> ((v = None \<or> v = Some []) \<and> 0 < node_size ?s md)"
  proof (rule place_and_count_safe [OF assms(1)])
    show "replaceable A p ?s"
      using that assms(2-4) stamp_state_idle [OF t i] cloud
      by (cases v) (auto simp: replaceable_def waits_def node_id_def updatable_def known_or_empty_def node_size_def word_gt_0)
  qed
  then show ?thesis using c k t s pass_safe_refl [OF assms(1), of A]
    by (auto simp: update_existing_def same intro: pass_safeI simp: pass_safe_def)
qed

lemma at_sync_same [simp]: "at_sync (ps_sync ps) ps = ps"
  by (simp add: at_sync_def)

lemma safe_same: "ready ps \<Longrightarrow> ps_sync ps' = ps_sync ps \<Longrightarrow> ps_placer ps' = ps_placer ps \<Longrightarrow> pass_safe A ps ps'"
  by (simp add: pass_safe_def ready_def harmless_refl)

lemma rename_absent_safe:
  assumes "sd_rename a b s = (r, s')" "idle_dir s" "has_nul b \<or> node_of s b = None"
  shows "harmless A s s'"
proof (cases "has_nul (a @ b)")
  case True
  then show ?thesis using assms(1,2) by (simp add: sd_rename_def named_call_def act_fail_def harmless_refl)
next
  case False
  then have n: "node_of s b = None" using assms(3) by (auto simp: has_nul_def)
  have u: "sd_user s = []" using assms(2) by (simp add: idle_dir_def)
  have "sd_gone s' = sd_gone s" using sd_rename_gone [OF assms(1) u] n by (metis append_Nil2 list.set_intros(1) neq_Nil_conv option.distinct(1))
  moreover have "idle_dir s'" "sd_root s' = sd_root s"
    using sd_rename_alone [OF assms(1) u] assms(2) by (auto simp: idle_dir_def)
  ultimately show ?thesis by (intro harmless_gone)
qed

lemma mkdir_all_safe:
  assumes "sd_mkdir_all d s = (r, s')" "idle_dir s" "prefix d p"
  shows "only_parents p s s'" "harmless A s s'"
  using mkdir_all_idle [of "rev d" s r s' p] assms
  by (auto simp: sd_mkdir_all_def only_parents_def intro: harmless_gone)

lemma mkdir_parent_then_rename_safe:
  assumes "sd_mkdir_all (butlast p) s = (r, s1)" "sd_rename a p s1 = (r2, s2)" "idle_dir s" "p \<noteq> []"
    and "has_nul p \<or> node_of s p = None"
  shows "harmless A s s2"
proof -
  have b: "prefix (butlast p) (butlast p)" by simp
  note m = mkdir_all_safe [OF assms(1,3) b]
  have "\<not> prefix p (butlast p)" using assms(4) prefix_length_le [of p "butlast p"] by (cases p) auto
  then have "node_of s1 p = node_of s p" using m(1) by (simp add: only_parents_def)
  then have "harmless A s1 s2"
    using rename_absent_safe [OF assms(2)] m(1) assms(5) by (auto simp: only_parents_def)
  then show ?thesis using m(2) harmless_trans by blast
qed

lemma move_existing_safe:
  assumes "move_existing named p cid ps = (r, ps')" "ready ps" "p \<noteq> []"
  shows "pass_safe A ps ps'"
proof (cases "map_of (ps_files ps) cid")
  case None
  then show ?thesis using assms(1,2) by (simp add: move_existing_def pass_safe_refl)
next
  case (Some e)
  let ?s = "ps_sync ps"
  have i: "idle_dir ?s" using assms(2) by (simp add: ready_def)
  obtain b1 s1 where x: "sd_exists (en_path e) ?s = (b1, s1)" by fastforce
  obtain b2 s2 where y: "sd_exists p ?s = (b2, s2)" by fastforce
  have s1: "s1 = ?s" and s2: "s2 = ?s" and b2: "b2 \<longleftrightarrow> \<not> has_nul p \<and> node_of ?s p \<noteq> None"
    using exists_idle [OF x i] exists_idle [OF y i] by simp_all
  obtain r3 s3 where m: "sd_mkdir_all (butlast p) ?s = (r3, s3)" by fastforce
  obtain r4 s4 where n: "sd_rename (en_path e) p s3 = (r4, s4)" by fastforce
  obtain r5 s5 where z: "sd_stat p s4 = (r5, s5)" by fastforce
  show ?thesis
  proof (cases "en_path e = p \<or> \<not> b1 \<or> b2")
    case True
    then have "ps_sync ps' = ?s \<and> ps_placer ps' = ps_placer ps" using assms(1) Some x y s1 s2
      by (auto simp: move_existing_def split: if_splits)
    then show ?thesis using safe_same [OF assms(2)] by blast
  next
    case False
    have h: "harmless A ?s s4"
      by (rule mkdir_parent_then_rename_safe [OF m n i assms(3)]) (use False b2 in auto)
    have s5: "s5 = s4" using stat_idle [OF z] h by (simp add: harmless_def)
    have "ps_sync ps' = s4 \<and> ps_placer ps' = ps_placer ps"
      using assms(1) Some x y s1 s2 False m n z s5
      by (auto simp: move_existing_def Let_def split: sum.splits if_splits)
    then show ?thesis using h by (intro pass_safeI) auto
  qed
qed

lemma safe_join_path: "safe_join root rel = Some p \<Longrightarrow> \<exists>cs. cs \<noteq> [] \<and> p = root @ cs"
proof -
  assume j: "safe_join root rel = Some p"
  then have r: "rel \<noteq> []" "hd rel \<noteq> slash" "hd (split_on slash rel) \<noteq> ''.''" and p: "p = root @ path_parts rel"
    by (auto simp: safe_join_def Let_def split: if_splits)
  have ne: "split_on slash rel \<noteq> []" by (metis join_split join_with.simps(1) r(1))
  have h: "hd (split_on slash rel) \<noteq> []"
    using r(1,2) by (cases rel) (auto split: list.splits)
  have "hd (split_on slash rel) \<in> set (path_parts rel)"
    using ne h r(3) by (simp add: path_parts_def)
  then show ?thesis using p by (intro exI [of _ "path_parts rel"]) (auto dest: length_pos_if_in_set)
qed

lemma upsert_file_safe:
  assumes "upsert_file root W cid named n tag ps = (r, ps')" "ready ps" "updatable W A"
  shows "pass_safe A ps ps'"
proof (cases "safe_join root named")
  case None
  then show ?thesis using assms(1,2) by (auto simp: upsert_file_def intro: safe_same)
next
  case (Some p)
  have pne: "p \<noteq> []" using safe_join_path [OF Some] by auto
  show ?thesis
  proof (cases "MAX_OBJECT < n")
    case True
    then show ?thesis using assms(1,2) Some by (auto simp: upsert_file_def intro: safe_same)
  next
    case False
    obtain m ps1 where mv: "move_existing named p cid ps = (m, ps1)" by fastforce
    have k: "pass_safe A ps ps1" by (rule move_existing_safe [OF mv assms(2) pne])
    then have rd: "ready ps1" using pass_safe_ready assms(2) by blast
    obtain rs s1 where st: "sd_stat p (ps_sync ps1) = (rs, s1)" by fastforce
    have t: "s1 = ps_sync ps1" "\<And>md. rs = Inr md \<Longrightarrow> node_of (ps_sync ps1) p = Some md"
        "\<And>e. rs = Inl e \<Longrightarrow> has_nul p \<or> node_of (ps_sync ps1) p = None"
      using stat_idle [OF st] rd by (auto simp: ready_def)
    show ?thesis
    proof (cases m)
      case (Inl v)
      then show ?thesis using assms(1) Some False mv k by (simp add: upsert_file_def)
    next
      case (Inr v)
      show ?thesis
      proof (cases rs)
        case (Inl e)
        have e: "ps' = place_and_count p n cid tag named count_created ps1"
          using assms(1) Some False mv Inr Inl st t(1) by (simp add: upsert_file_def)
        have "replaceable A p (ps_sync ps1)" using t(3) [OF Inl] by (auto simp: replaceable_def)
        from place_and_count_safe [OF rd this] show ?thesis using e k pass_safe_trans by blast
      next
        case md: (Inr md)
        have e: "ps' = update_existing W named p cid n tag md ps1"
          using assms(1) Some False mv \<open>m = Inr v\<close> md st t(1) by (simp add: upsert_file_def)
        have "\<not> has_nul p" using st md by (auto simp: sd_stat_def named_call_def act_fail_def)
        from update_existing_safe [OF rd t(2) [OF md] this assms(3)] show ?thesis using e k pass_safe_trans by blast
      qed
    qed
  qed
qed

lemma remove_file_safe:
  assumes "remove_file pl p s = (r, s')" "idle_dir s" "sd_root s = pl_root pl" "replaceable A p s" "\<not> has_nul p"
  shows "harmless A s s'"
proof (cases "below_root pl p")
  case None
  then show ?thesis using assms(1,2) by (simp add: remove_file_def harmless_refl)
next
  case (Some rel)
  have p: "p = pl_root pl @ rel" "rel \<noteq> []"
    using Some by (auto simp: below_root_def path_below_def prefix_def split: if_splits)
  have u: "sd_user s = []" using assms(2) by (simp add: idle_dir_def)
  obtain ru where l: "sd_unlink p s = (ru, s')"
    using assms(1) Some p(1) by (auto simp: remove_file_def split: prod.splits sum.splits)
  have "p \<noteq> sd_root s" using p assms(3) by simp
  then have "\<exists>es. sd_gone s' = sd_gone s @ es \<and> (\<forall>e\<in>set es. node_of s p = Some (Regular (snd e)))"
    using sd_unlink_gone [OF l u] by (auto simp: node_of_def)
  then have "lost (spared A) s s'"
    using assms(4,5) \<open>p \<noteq> sd_root s\<close> unfolding lost_def replaceable_def spared_def by blast
  then show ?thesis using sd_unlink_alone [OF l u] assms(2) by (auto simp: harmless_def alone_def idle_dir_def)
qed

lemma remove_existing_safe:
  assumes "ready ps" "removable W A"
  shows "pass_safe A ps (remove_existing root ig W cid ps)"
proof (cases "map_of (ps_files ps) cid")
  case None
  then show ?thesis using assms(1) by (simp add: remove_existing_def pass_safe_refl)
next
  case (Some e)
  let ?s = "ps_sync ps" and ?p = "en_path e"
  have i: "idle_dir ?s" "sd_root ?s = pl_root (ps_placer ps)" using assms(1) by (simp_all add: ready_def)
  obtain rs s1 where st: "sd_stat ?p ?s = (rs, s1)" by fastforce
  have t: "s1 = ?s" "\<And>md. rs = Inr md \<Longrightarrow> node_of ?s ?p = Some md"
    using stat_idle [OF st i(1)] by auto
  obtain z s2 where sm: "stamp_state_at ?p ?s = (z, s2)" by fastforce
  note u = stamp_state_idle [OF sm i(1)]
  obtain rr s3 where rm: "remove_file (ps_placer ps) ?p ?s = (rr, s3)" by fastforce
  show ?thesis
  proof (cases "(case path_below root ?p of Some rel \<Rightarrow> is_ignored ig rel | None \<Rightarrow> False) \<or> (\<exists>x. rs = Inl x) \<or>
      (\<exists>md. rs = Inr md \<and> waits W md) \<or> z = Inr Dirty")
    case True
    then have "ps_sync (remove_existing root ig W cid ps) = ?s \<and> ps_placer (remove_existing root ig W cid ps) = ps_placer ps"
      using Some st t(1) sm u by (auto simp: remove_existing_def Let_def split: sum.splits)
    then show ?thesis using safe_same [OF assms(1)] by blast
  next
    case False
    then obtain md where md: "rs = Inr md" "\<not> waits W md" "z \<noteq> Inr Dirty" by (cases rs) auto
    have "\<not> has_nul ?p" using st md by (auto simp: sd_stat_def named_call_def act_fail_def)
    moreover have "replaceable A ?p ?s"
      using md t(2) [OF md(1)] u \<open>\<not> has_nul ?p\<close> assms(2)
      by (auto simp: replaceable_def waits_def node_id_def removable_def)
    ultimately have "harmless A ?s s3" using remove_file_safe [OF rm i] by blast
    moreover have "ps_sync (remove_existing root ig W cid ps) = s3 \<and> ps_placer (remove_existing root ig W cid ps) = ps_placer ps"
      using Some st t(1) sm u rm md False by (auto simp: remove_existing_def Let_def split: sum.splits)
    ultimately show ?thesis by (intro pass_safeI) auto
  qed
qed

lemma set_xattr_safe:
  assumes "set_xattr p gf gd s = (r, s')" "idle_dir s"
  shows "harmless A s s'"
proof -
  obtain s0 where u: "undisturbed s s0" and c: "s' = s0 \<and> (\<exists>e. r = Inl e) \<or>
      at_node p (\<lambda>n s. case n of
         Folder \<Rightarrow> (Inr (), s\<lparr>sd_dirs := AList.update p (gd (attrs_at s p)) (sd_dirs s)\<rparr>)
       | Regular c \<Rightarrow>
           if and (cf_mode c) OWNER_WRITE = 0 then (Inl (Os EACCES), s)
           else (Inr (), put_tree (with_file p gf (tree_of s)) s)
       | Other \<Rightarrow> (Inl (Os EPERM), s)) s0 = (r, s')"
    using named_call_cases [OF assms(1) [unfolded set_xattr_def]] by blast
  have s: "s0 = s" by (rule undisturbed_idle_dir [OF u assms(2)])
  from c have "idle_dir s' \<and> sd_root s' = sd_root s \<and> sd_gone s' = sd_gone s"
  proof
    assume "s' = s0 \<and> (\<exists>e. r = Inl e)"
    then show ?thesis using s assms(2) by simp
  next
    assume h: "at_node p (\<lambda>n s. case n of
         Folder \<Rightarrow> (Inr (), s\<lparr>sd_dirs := AList.update p (gd (attrs_at s p)) (sd_dirs s)\<rparr>)
       | Regular c \<Rightarrow>
           if and (cf_mode c) OWNER_WRITE = 0 then (Inl (Os EACCES), s)
           else (Inr (), put_tree (with_file p gf (tree_of s)) s)
       | Other \<Rightarrow> (Inl (Os EPERM), s)) s0 = (r, s')"
    from at_node_cases [OF h] show ?thesis
    proof (elim disjE exE conjE)
      fix n
      assume "(case n of
         Folder \<Rightarrow> (Inr (), s0\<lparr>sd_dirs := AList.update p (gd (attrs_at s0 p)) (sd_dirs s0)\<rparr>)
       | Regular c \<Rightarrow>
           if and (cf_mode c) OWNER_WRITE = 0 then (Inl (Os EACCES), s0)
           else (Inr (), put_tree (with_file p gf (tree_of s0)) s0)
       | Other \<Rightarrow> (Inl (Os EPERM), s0)) = (r, s')"
      then show ?thesis using s assms(2) by (cases n) (auto simp: idle_dir_def split: if_splits)
    qed (use s assms(2) in auto)
  qed
  then show ?thesis by (intro harmless_gone) auto
qed

lemma remove_xattr_safe: "remove_xattr p gf gd s = (r, s') \<Longrightarrow> idle_dir s \<Longrightarrow> harmless A s s'"
  using set_xattr_safe by (fastforce simp: remove_xattr_def split: prod.splits sum.splits)

lemma detach_folder_safe:
  assumes "detach_folder p s = (r, s')" "idle_dir s"
  shows "harmless A s s'"
  using act_bind_cases [OF assms(1) [unfolded detach_folder_def]]
proof (elim disjE exE conjE)
  fix a s1
  assume "remove_xattr p (\<lambda>c. c\<lparr>cf_tag := None\<rparr>) (\<lambda>a. a\<lparr>da_tag := None\<rparr>) s = (Inr a, s1)"
    and b: "remove_xattr p (\<lambda>c. c\<lparr>cf_cloud := None\<rparr>) (\<lambda>a. a\<lparr>da_cloud := None\<rparr>) s1 = (r, s')"
  then have h: "harmless A s s1" using remove_xattr_safe assms(2) by blast
  then have "harmless A s1 s'" using remove_xattr_safe [OF b] by (simp add: harmless_def)
  then show ?thesis using h harmless_trans by blast
qed (use remove_xattr_safe assms(2) in blast)

lemma move_folder_safe:
  assumes "move_folder named p cid ps = (r, ps')" "ready ps" "p \<noteq> sd_root (ps_sync ps) \<longrightarrow> p \<noteq> []"
  shows "pass_safe A ps ps'"
proof (cases "map_of (ps_folders ps) cid")
  case None
  then show ?thesis using assms(1,2) by (simp add: move_folder_def pass_safe_refl)
next
  case (Some old)
  let ?s = "ps_sync ps"
  have i: "idle_dir ?s" using assms(2) by (simp add: ready_def)
  obtain b1 s1 where x: "sd_exists old ?s = (b1, s1)" by fastforce
  obtain b2 s2 where y: "sd_exists p ?s = (b2, s2)" by fastforce
  have s1: "s1 = ?s" and s2: "s2 = ?s" and b2: "b2 \<longleftrightarrow> \<not> has_nul p \<and> node_of ?s p \<noteq> None"
    using exists_idle [OF x i] exists_idle [OF y i] by simp_all
  obtain r3 s3 where m: "sd_mkdir_all (butlast p) ?s = (r3, s3)" by fastforce
  obtain r4 s4 where n: "sd_rename old p s3 = (r4, s4)" by fastforce
  show ?thesis
  proof (cases "old = p \<or> \<not> b1 \<or> b2")
    case True
    then have "ps_sync ps' = ?s \<and> ps_placer ps' = ps_placer ps" using assms(1) Some x y s1 s2
      by (auto simp: move_folder_def split: if_splits)
    then show ?thesis using safe_same [OF assms(2)] by blast
  next
    case False
    have h3: "harmless A ?s s3" using mkdir_all_safe(2) [OF m i, of p] by (simp add: prefixeq_butlast)
    have h4: "harmless A ?s s4" if "p \<noteq> []"
      by (rule mkdir_parent_then_rename_safe [OF m n i that]) (use False b2 in auto)
    have "p \<noteq> []" using assms(3) b2 False by (auto simp: node_of_def has_nul_def)
    moreover have "(ps_sync ps' = s3 \<or> ps_sync ps' = s4) \<and> ps_placer ps' = ps_placer ps"
      using assms(1) Some x y s1 s2 False m n by (auto simp: move_folder_def split: sum.splits if_splits)
    ultimately show ?thesis using h3 h4 by (auto intro: pass_safeI)
  qed
qed

lemma ensure_folder_safe:
  assumes "ensure_folder named p ps = (ok, ps')" "ready ps"
  shows "pass_safe A ps ps'"
proof -
  let ?s = "ps_sync ps"
  have i: "idle_dir ?s" using assms(2) by (simp add: ready_def)
  obtain rs s1 where st: "sd_stat p ?s = (rs, s1)" by fastforce
  have s1: "s1 = ?s" using stat_idle [OF st i] by simp
  obtain r2 s2 where m: "sd_mkdir_all p ?s = (r2, s2)" by fastforce
  have h: "harmless A ?s s2" using mkdir_all_safe(2) [OF m i, of p] by simp
  have "(ps_sync ps' = ?s \<or> ps_sync ps' = s2) \<and> ps_placer ps' = ps_placer ps"
    using assms(1) st s1 m by (auto simp: ensure_folder_def split: sum.splits if_splits)
  then show ?thesis using h harmless_refl [OF i] by (auto intro: pass_safeI)
qed

lemma claim_folder_safe:
  assumes "ready ps"
  shows "pass_safe A ps (claim_folder named p cid tag ps)"
proof -
  let ?s = "ps_sync ps"
  have i: "idle_dir ?s" using assms by (simp add: ready_def)
  obtain v s1 where k: "attr_or_none (get_cloud p) ?s = (v, s1)" by fastforce
  have s1: "s1 = ?s" by (rule cloud_idle [OF k i])
  obtain r2 s2 where a: "set_folder_cloud p cid ?s = (r2, s2)" by fastforce
  have h2: "harmless A ?s s2" using set_xattr_safe a i unfolding set_folder_cloud_def by blast
  then have i2: "idle_dir s2" by (simp add: harmless_def)
  obtain r3 s3 where b: "set_folder_tag p tag s2 = (r3, s3)" by fastforce
  have "harmless A s2 s3"
    using b i2 set_xattr_safe remove_xattr_safe unfolding set_folder_tag_def by (cases tag) auto
  then have h3: "harmless A ?s s3" using h2 harmless_trans by blast
  have "ps_sync (claim_folder named p cid tag ps) \<in> {?s, s2, s3} \<and> ps_placer (claim_folder named p cid tag ps) = ps_placer ps"
    using k s1 a b by (auto simp: claim_folder_def split: sum.splits)
  then show ?thesis using h2 h3 harmless_refl [OF i] by (auto intro: pass_safeI)
qed

lemma upsert_folder_safe:
  assumes "upsert_folder root cid named tag ps = (r, ps')" "ready ps" "root = sd_root (ps_sync ps)"
  shows "pass_safe A ps ps'"
proof (cases "folder_path root named")
  case None
  then show ?thesis using assms by (auto simp: upsert_folder_def intro: safe_same)
next
  case (Some p)
  have pne: "p \<noteq> sd_root (ps_sync ps) \<longrightarrow> p \<noteq> []"
    using Some assms(3) safe_join_path by (fastforce simp: folder_path_def split: if_splits)
  obtain m ps1 where mv: "move_folder named p cid ps = (m, ps1)" by fastforce
  have k: "pass_safe A ps ps1" by (rule move_folder_safe [OF mv assms(2) pne])
  then have rd: "ready ps1" using pass_safe_ready assms(2) by blast
  obtain ok ps2 where en: "ensure_folder named p ps1 = (ok, ps2)" by fastforce
  have k2: "pass_safe A ps1 ps2" by (rule ensure_folder_safe [OF en rd])
  then have rd2: "ready ps2" using pass_safe_ready rd by blast
  have "ps' \<in> {ps1, ps2, claim_folder named p cid tag ps2}"
    using assms(1) Some mv en by (cases m) (auto simp: upsert_folder_def)
  then show ?thesis using k k2 claim_folder_safe [OF rd2] pass_safe_trans by (metis empty_iff insert_iff)
qed

lemma remove_folder_safe:
  assumes "ready ps"
  shows "pass_safe A ps (remove_folder root ig ids cid named ps)"
proof (cases "map_of (ps_folders ps) cid")
  case None
  then show ?thesis using assms by (auto simp: remove_folder_def intro: safe_same)
next
  case (Some p)
  let ?s = "ps_sync ps" and ?ps = "remove_folder root ig ids cid named ps"
  have i: "idle_dir ?s" using assms by (simp add: ready_def)
  obtain r1 s1 where d: "sd_remove_dir p ?s = (r1, s1)" by fastforce
  obtain s0 where u: "undisturbed ?s s0" and c: "s1 = s0 \<and> (\<exists>e. r1 = Inl e) \<or>
    node_of s0 p = Some Folder \<and> entries_of s0 p = [] \<and> r1 = Inr () \<and> s1 = drop_name p Folder s0"
    using sd_remove_dir_cases [OF d] by blast
  have "s0 = ?s" by (rule undisturbed_idle_dir [OF u i])
  then have h1: "harmless A ?s s1" using c i
    by (auto intro!: harmless_gone simp: drop_name_def files_of_def idle_dir_def)
  then have i1: "idle_dir s1" by (simp add: harmless_def)
  obtain r2 s2 where e: "detach_folder p s1 = (r2, s2)" by fastforce
  have h2: "harmless A ?s s2" using detach_folder_safe [OF e i1] h1 harmless_trans by blast
  have "ps_sync ?ps \<in> {?s, s1, s2} \<and> ps_placer ?ps = ps_placer ps"
    using Some d e by (auto simp: remove_folder_def split: sum.splits)
  then show ?thesis using h1 h2 harmless_refl [OF i] by (auto intro: pass_safeI)
qed

lemma apply_change_safe:
  assumes "apply_change root ig ids W c ps = (r, ps')" "ready ps" "root = sd_root (ps_sync ps)"
    and "updatable W A" "\<And>cid. c = Removed cid \<Longrightarrow> removable W A"
  shows "pass_safe A ps ps'"
proof (cases "case declared c of Some p \<Rightarrow> declared_ignored ig p | None \<Rightarrow> False")
  case True
  then show ?thesis using assms(1,2) by (auto simp: apply_change_def intro: safe_same)
next
  case False
  show ?thesis
  proof (cases c)
    case (Upserted cid p n tag)
    then have "upsert_file root W cid p n tag ps = (r, ps')"
      using assms(1) False by (simp add: apply_change_def)
    then show ?thesis using upsert_file_safe assms(2,4) by blast
  next
    case (FolderUpserted cid p tag)
    then have "upsert_folder root cid p tag ps = (r, ps')" using assms(1) False by (simp add: apply_change_def)
    then show ?thesis using upsert_folder_safe assms(2,3) by blast
  next
    case (Removed cid)
    then have "ps' = remove_existing root ig W cid ps" using assms(1) False by (simp add: apply_change_def)
    then show ?thesis using remove_existing_safe [OF assms(2) assms(5) [OF Removed]] by simp
  next
    case (FolderRemoved cid p)
    then have "ps' = remove_folder root ig ids cid p ps" using assms(1) False by (simp add: apply_change_def)
    then show ?thesis using remove_folder_safe [OF assms(2)] by simp
  qed
qed

lemma still_current_idle:
  assumes "root_still_current pl s = (r, s')" "idle_dir s"
  shows "harmless A s s'"
proof -
  have "act_bind unique_mnt_id (\<lambda>now. act_return (now = pl_mount pl)) s = (r, s')"
    using assms(1) by (simp add: root_still_current_def still_current_def)
  then obtain x where "unique_mnt_id s = (x, s')" by (auto dest!: act_bind_cases simp: act_return_def)
  then have "idle_dir s' \<and> sd_root s' = sd_root s \<and> sd_gone s' = sd_gone s"
    using assms(2) by (auto simp: unique_mnt_id_def idle_call idle_dir_def split: list.splits)
  then show ?thesis by (intro harmless_gone) auto
qed

lemma apply_loop_safe:
  "apply_each root ig ids W cs ps = (r, ps') \<Longrightarrow> ready ps \<Longrightarrow> root = sd_root (ps_sync ps) \<Longrightarrow> updatable W A \<Longrightarrow>
     (\<And>cid. Removed cid \<in> set cs \<Longrightarrow> removable W A) \<Longrightarrow> pass_safe A ps ps'"
proof (induction cs arbitrary: ps)
  case Nil
  then show ?case by (simp add: pass_safe_refl)
next
  case (Cons c cs)
  obtain x s1 where x: "root_still_current (ps_placer ps) (ps_sync ps) = (x, s1)" by fastforce
  have i: "idle_dir (ps_sync ps)" using Cons.prems(2) by (simp add: ready_def)
  have k: "pass_safe A ps (at_sync s1 ps)"
    using still_current_idle [OF x i] by (intro pass_safeI) simp_all
  have rd: "ready (at_sync s1 ps)" by (rule pass_safe_ready [OF k Cons.prems(2)])
  have root: "root = sd_root (ps_sync (at_sync s1 ps))" using k Cons.prems(3) by (simp add: pass_safe_def harmless_def)
  show ?case
  proof (cases "x = Inr True")
    case False
    then have "ps_sync ps' = s1 \<and> ps_placer ps' = ps_placer ps"
      using Cons.prems(1) x by (auto split: sum.splits bool.splits)
    then show ?thesis using k by (simp add: pass_safe_def)
  next
    case True
    obtain e ps1 where a: "apply_change root ig ids W c (at_sync s1 ps) = (e, ps1)" by fastforce
    have k1: "pass_safe A ps ps1" using pass_safe_trans [OF k apply_change_safe [OF a rd root Cons.prems(4)]]
      Cons.prems(5) by auto
    show ?thesis
    proof (cases e)
      case (Some err)
      then show ?thesis using Cons.prems(1) x True a k1 by simp
    next
      case None
      then have l: "apply_each root ig ids W cs ps1 = (r, ps')" using Cons.prems(1) x True a by simp
      have "pass_safe A ps1 ps'"
        by (rule Cons.IH [OF l pass_safe_ready [OF k1 Cons.prems(2)]])
          (use k1 Cons.prems(3-5) in \<open>auto simp: pass_safe_def harmless_def\<close>)
      then show ?thesis using k1 pass_safe_trans by blast
    qed
  qed
qed

lemma index_loop_idle:
  "index_loop root ig stack ix s = (r, s') \<Longrightarrow> idle_dir s \<Longrightarrow> s' = s"
proof (induction root ig stack ix s arbitrary: r s' rule: index_loop.induct)
  case (1 root ig stack ix s)
  show ?case
  proof (cases stack)
    case Nil
    then show ?thesis using 1(2) by (simp add: index_loop.simps [of root ig "[]"])
  next
    case (Cons d rest)
    obtain r1 s1 where g: "get_cloud d s = (r1, s1)" by fastforce
    have s1: "s1 = s" using get_attr_idle g 1(3) unfolding get_cloud_def by blast
    obtain r2 s2 where rd: "sd_read_dir d s = (r2, s2)" by fastforce
    have s2: "s2 = s" using sd_read_dir_cases [OF rd] undisturbed_idle_dir 1(3) by blast
    show ?thesis
    proof (cases "\<exists>raw ix1 es. r1 = Inr raw \<and> index_folder root ig d raw ix = Inr ix1 \<and> r2 = Inr es")
      case False
      then show ?thesis using 1(2) Cons g s1 rd s2
        by (auto simp: index_loop.simps [of root ig "d # rest" ix s] split: sum.splits)
    next
      case True
      then obtain raw ix1 es where t: "r1 = Inr raw" "index_folder root ig d raw ix = Inr ix1" "r2 = Inr es" by blast
      have l: "index_loop root ig (rev (map fst (filter (\<lambda>(p, n). n = Folder) es)) @ rest) ix1 s = (r, s')"
        using 1(2) Cons g s1 rd s2 t by (simp add: index_loop.simps [of root ig "d # rest" ix s])
      show ?thesis
        by (rule 1(1) [OF Cons g [symmetric] t(1,2) rd [symmetric, folded s1] t(3), unfolded s2, OF l 1(3)])
    qed
  qed
qed

lemma folders_idle: "folders_by_cloud_id root ig s = (r, s') \<Longrightarrow> idle_dir s \<Longrightarrow> s' = s"
  using index_loop_idle by (fastforce simp: folders_by_cloud_id_def split: prod.splits sum.splits)

lemma scan_keeps: "scan hash root (st, w) = (r, st', w') \<Longrightarrow> cl_tree w' = cl_tree w \<and> cl_plan w' = cl_plan w"
  by (auto simp: scan_def Let_def split: prod.splits sum.splits option.splits if_splits)

lemma scan_sync_idle:
  assumes "scan_sync hash root st s = (r, st', s')" "idle_dir s"
  shows "idle_dir s' \<and> sd_root s' = sd_root s \<and> sd_gone s' = sd_gone s"
  using assms by (auto simp: scan_sync_def Let_def idle_dir_def others_idle split: prod.splits dest: scan_keeps)

lemma coalesce_sub: "set (coalesce cs) \<subseteq> set cs"
  by (auto simp: coalesce_def in_set_enumerate_eq)

lemma pass_destroys_nothing:
  assumes "apply_remembering hash bh root changes W (st, pl, s, seen) = (r, st', pl', s', seen')"
    and "idle_dir s" "sd_root s = root" "pl_root pl = root"
    and "updatable W A" "\<And>cid. Removed cid \<in> set changes \<Longrightarrow> removable W A"
  shows "lost (spared A) s s'"
proof (cases "changes = []")
  case True
  then show ?thesis using assms(1) by (simp add: apply_remembering_def lost_def)
next
  case ne: False
  obtain r1 st1 s1 where sc: "scan_sync hash root st s = (r1, st1, s1)" by (metis prod.exhaust)
  note i1 = scan_sync_idle [OF sc assms(2)]
  let ?now = "\<lparr>fp_batch = bh changes, fp_tree = st_fingerprint st1\<rparr>"
  show ?thesis
  proof (cases "(\<exists>e. r1 = Inl e) \<or> seen = Some ?now")
    case True
    then have "s' = s1" using assms(1) ne sc by (auto simp: apply_remembering_def Let_def split: sum.splits)
    then show ?thesis using i1 by (simp add: lost_def)
  next
    case False
    then obtain k where k: "r1 = Inr k" by (cases r1) auto
    obtain r2 s2 where f: "folders_by_cloud_id root (st_ignore st1) s1 = (r2, s2)" by fastforce
    have s2: "s2 = s1" using folders_idle [OF f] i1 by blast
    show ?thesis
    proof (cases r2)
      case (Inl e)
      then have "s' = s1" using assms(1) ne sc k False f s2 by (auto simp: apply_remembering_def Let_def)
      then show ?thesis using i1 by (simp add: lost_def)
    next
      case (Inr ix)
      obtain synced ignored where ix: "ix = (synced, ignored)" by fastforce
      define ps where "ps = \<lparr>ps_out = applied_default, ps_store = st1, ps_placer = pl,
         ps_files = by_cloud_id st1 (sd_client s1), ps_folders = synced, ps_sync = s1\<rparr>"
      obtain e ps1 where l: "apply_each root (st_ignore st1) ignored W (coalesce changes) ps = (e, ps1)" by fastforce
      have "ready ps" "root = sd_root (ps_sync ps)" using i1 assms(3,4) by (auto simp: ready_def ps_def)
      moreover have "removable W A" if "Removed d \<in> set (coalesce changes)" for d
        using that assms(6) [of d] coalesce_sub by blast
      ultimately have "pass_safe A ps ps1" using apply_loop_safe [OF l _ _ assms(5)] by blast
      then have "lost (spared A) s1 (ps_sync ps1)" by (simp add: pass_safe_def harmless_def ps_def)
      moreover have "s' = ps_sync ps1"
        using assms(1) ne sc k False f s2 Inr ix l
        by (auto simp: apply_remembering_def Let_def ps_def split: option.splits)
      ultimately show ?thesis using i1 by (simp add: lost_def)
    qed
  qed
qed

text \<open>C4: A delta pass never destroys content that has not been sent.  With nobody else in the directory and
  no faulty system call, whatever changes the cloud reports, in whatever order and with whatever paths,
  every file the pass takes away is one that does not wait to be sent and that looks the way the
  framework left it; and unless the batch removes a file, it is one the cloud has heard of or one without
  content.  The exception is what lies at a scratch name of the placer.\<close>

theorem pass_never_destroys_unsent_content:
  assumes "apply_remembering hash batch_hash root changes waiting (st, pl, s, seen) = (r, st', pl', s', seen')"
    and "sd_user s = []" "cl_plan (sd_client s) = []" "sd_root s = root" "pl_root pl = root"
  shows "\<exists>es. sd_gone s' = sd_gone s @ es \<and>
    (\<forall>(q, c)\<in>set es. (\<exists>root rel k. q = scratch_path root rel k) \<or>
       f_id (cf_inode c) \<notin> waiting \<and> \<not> edited c \<and> (known_or_empty c \<or> (\<exists>cid. Removed cid \<in> set changes)))"
proof -
  let ?A = "\<lambda>c. f_id (cf_inode c) \<notin> waiting \<and> \<not> edited c \<and> (known_or_empty c \<or> (\<exists>cid. Removed cid \<in> set changes))"
  have "lost (spared ?A) s s'"
    by (rule pass_destroys_nothing [OF assms(1) _ assms(4,5)])
      (use assms(2,3) in \<open>auto simp: idle_dir_def updatable_def removable_def\<close>)
  then show ?thesis by (fastforce simp: lost_def spared_def)
qed

definition stamped :: "string \<Rightarrow> cfile \<Rightarrow> cfile" where
  "stamped v c = c\<lparr>cf_inode := (cf_inode c)\<lparr>f_stamp := Some v\<rparr>\<rparr>"

definition with_cloud :: "string option \<Rightarrow> cfile \<Rightarrow> cfile" where
  "with_cloud i c = c\<lparr>cf_cloud := i\<rparr>"

text \<open>\<open>a\<close> is as the framework left it, \<open>b\<close> was edited, \<open>n\<close> is a new save of a file with a lineage record.\<close>

definition two_files :: sync where
  "two_files = put_tree
     [([''s'', ''a''], Regular (stamped (stamp_of (cf_inode (kept_file 5 100))) (kept_file 5 100))),
      ([''s'', ''b''], Regular (stamped ''9.0:9'' (with_cloud (Some ''B'') (kept_file 6 100)))),
      ([''s'', ''n''], Regular (with_cloud None (kept_file 7 100)))] (sample_sync [] [])"

definition hash_zero :: "facts \<Rightarrow> u64" where
  "hash_zero f = 0"

definition batch_length :: "cloud_change list \<Rightarrow> u64" where
  "batch_length cs = of_nat (length cs)"

definition three_changes :: "cloud_change list" where
  "three_changes = [Upserted ''A'' ''a'' 8 (Some ''v2''), Removed ''B'', Upserted ''C'' ''d/c'' 4 None]"

lemma pass_never_destroys_unsent_content_witness:
  "\<exists>es. sd_gone (fst (snd (snd (snd (apply_remembering hash_zero batch_length [''s''] three_changes {}
       (store_new, sample_placer, two_files, None)))))) = es \<and> es \<noteq> [] \<and>
     (\<forall>(q, c)\<in>set es. (\<exists>root rel k. q = scratch_path root rel k) \<or> f_id (cf_inode c) \<notin> {} \<and> \<not> edited c)"
proof -
  obtain r st' pl' s' seen' where h: "apply_remembering hash_zero batch_length [''s''] three_changes {}
       (store_new, sample_placer, two_files, None) = (r, st', pl', s', seen')" by (metis prod.exhaust)
  have "sd_user two_files = []" "cl_plan (sd_client two_files) = []" "sd_root two_files = [''s'']"
    "pl_root sample_placer = [''s'']" "sd_gone two_files = []" by code_simp+
  moreover have "length (sd_gone (fst (snd (snd (snd (apply_remembering hash_zero batch_length [''s''] three_changes {}
       (store_new, sample_placer, two_files, None))))))) = 1" by code_simp
  ultimately show ?thesis using pass_never_destroys_unsent_content [OF h] h by fastforce
qed

text \<open>What the pass says of these changes: one update, one creation, and the edited file is kept.\<close>

lemma three_changes_report:
  "case apply_remembering hash_zero batch_length [''s''] three_changes {} (store_new, sample_placer, two_files, None) of
     (r, st, pl, s, seen) \<Rightarrow>
       r = Inr (applied_default\<lparr>ap_created := 1, ap_updated := 1, ap_kept := [(''/s/b'', ChangedUnderneath)]\<rparr>) \<and>
       map fst (tree_of s) = [[''s'', ''b''], [''s'', ''n''], [''s'', ''a''], [''s'', ''d''], [''s'', ''d'', ''c'']]"
  by code_simp

section \<open>Where it does not hold\<close>

text \<open>A file whose identity is known from the lineage record only was never sent as it is: an editor that
  saves by renaming a new file over the old one leaves it without attributes.  A removal deletes it, as
  there is no check that it was ever uploaded; an update of the same object keeps it.\<close>

definition new_save :: store where
  "new_save = store_new\<lparr>st_index := [(FileId 1 7, [''s'', ''n''])], st_root := Some [''s''],
     st_lineage := Some \<lparr>ln_paths = [(''n'', \<lparr>lr_id = ''N'', lr_tag = None\<rparr>)], ln_dirty = False\<rparr>\<rparr>"

definition after_new_save :: "int option list \<Rightarrow> pass" where
  "after_new_save plan =
     \<lparr>ps_out = applied_default, ps_store = new_save, ps_placer = sample_placer,
      ps_files = by_cloud_id new_save (sd_client two_files), ps_folders = [], ps_sync = put_plan plan two_files\<rparr>"

lemma removal_destroys_a_file_never_sent:
  "(case apply_each [''s''] ignore_default [] {} [Removed ''N''] (after_new_save []) of
     (e, ps) \<Rightarrow> map fst (sd_gone (ps_sync ps)) = [[''s'', ''n'']]) \<and>
   (case apply_each [''s''] ignore_default [] {} [Upserted ''N'' ''n'' 5 None] (after_new_save []) of
     (e, ps) \<Rightarrow> ap_kept (ps_out ps) = [(''n'', NeverUploaded)] \<and> sd_gone (ps_sync ps) = [])"
  by code_simp

text \<open>A stamp that cannot be read counts as unedited: one fault of that call, and the edit is gone.\<close>

lemma unreadable_stamp_destroys_an_edit:
  "case apply_each [''s''] ignore_default [] {} [Upserted ''B'' ''b'' 8 (Some ''v2'')] (after_new_save (replicate 9 None @ [Some EIO])) of
     (e, ps) \<Rightarrow> ap_updated (ps_out ps) = 1 \<and> map fst (sd_gone (ps_sync ps)) = [[''s'', ''b'']] \<and>
       list_all (\<lambda>(q, c). f_stamp (cf_inode c) = Some ''9.0:9'') (sd_gone (ps_sync ps))"
  by code_simp

text \<open>A file that cannot be placed is reported as failed, and the pass is not one to be tried again: the
  caller moves its cursor past the change.\<close>

lemma failed_placement_is_not_retried:
  assumes "place_file (ps_placer ps) p n cid tag (ps_sync ps) = (Inl e, pl, s)"
  shows "ap_retryable (ps_out (place_and_count p n cid tag named f ps)) = ap_retryable (ps_out ps) \<and>
    ap_failed (ps_out (place_and_count p n cid tag named f ps)) = ap_failed (ps_out ps) @ [(named, PlaceFailed e)]"
  using assms by (simp add: place_and_count_def report_failed_def report_def)

text \<open>A doubled slash hides a path from an anchored rule, and the file is placed in the ignored folder.\<close>

lemma doubled_slash_escapes_the_rules:
  "declared_ignored (ignore_from_config ''build/out'') ''build/out/x'' \<and>
   \<not> declared_ignored (ignore_from_config ''build/out'') ''build//out/x'' \<and>
   safe_join [''s''] ''build//out/x'' = Some [''s'', ''build'', ''out'', ''x'']"
  by code_simp

end
