(* ===== verification/Delta_Laws.thy ===== *)
theory Delta_Laws
  imports Delta_Safety
begin

text \<open>
  What else a delta pass (\<open>crates/hydration-client/src/delta.rs\<close>) promises: paths stay inside the sync
  directory, one change per object and class is applied, and a change that was applied is not news.
\<close>

section \<open>Paths\<close>

lemma split_on_no_sep: "x \<in> set (split_on c s) \<Longrightarrow> c \<notin> set x"
  by (induction c s arbitrary: x rule: split_on.induct) (auto split: if_splits list.splits)

text \<open>C18: A path the cloud names leads to a place strictly below the root, through components that are
  neither empty nor dots nor hold a slash nor are one of the framework's own names; and it is a path
  the placer of that root accepts, for the same components.\<close>

theorem cloud_paths_stay_below_the_root:
  assumes "safe_join root rel = Some p"
  shows "\<exists>cs. p = root @ cs \<and> cs \<noteq> [] \<and>
    (\<forall>c\<in>set cs. normal_component c \<and> slash \<notin> set c \<and> \<not> is_internal c) \<and>
    (\<forall>pl. pl_root pl = root \<longrightarrow> below_root pl p = Some cs)"
proof -
  obtain cs where cs: "cs \<noteq> []" "p = root @ cs" using safe_join_path [OF assms] by blast
  have parts: "cs = path_parts rel" "''..'' \<notin> set cs" "\<not> list_ex is_internal cs"
    using assms cs(2) by (auto simp: safe_join_def Let_def split: if_splits)
  have n: "normal_component c \<and> slash \<notin> set c \<and> \<not> is_internal c" if "c \<in> set cs" for c
    using that parts by (auto simp: path_parts_def normal_component_def list_ex_iff dest: split_on_no_sep)
  have "below_root pl p = Some cs" if "pl_root pl = root" for pl
    using that cs n by (simp add: below_root_def path_below_def list_all_iff)
  then show ?thesis using cs n by blast
qed

lemma cloud_paths_stay_below_the_root_witness:
  "\<exists>p cs. safe_join [''s''] ''d/./c/'' = Some p \<and> p = [''s''] @ cs \<and> cs \<noteq> [] \<and>
    (\<forall>c\<in>set cs. normal_component c \<and> slash \<notin> set c \<and> \<not> is_internal c)"
proof -
  have p: "safe_join [''s''] ''d/./c/'' = Some [''s'', ''d'', ''c'']" by code_simp
  from cloud_paths_stay_below_the_root [OF p] p show ?thesis by blast
qed

section \<open>One change per object and class\<close>

text \<open>The specification is the one of the namespace (\<open>keep_last\<close>): a change stays when no later one has its
  key.\<close>

lemma change_class_is_class_of: "change_class = class_of"
  by (rule ext) (simp add: change_class_def class_of_def split: cloud_change.splits)

lemma last_of_snoc: "last_of (cs @ [c]) = AList.update (change_key c) (length cs) (last_of cs)"
  by (simp add: last_of_def change_class_is_class_of enumerate_append_eq)

lemma map_of_last_of:
  "map_of (last_of cs) k = Some i \<longleftrightarrow> i < length cs \<and> change_key (cs ! i) = k \<and>
     (\<forall>j. i < j \<and> j < length cs \<longrightarrow> change_key (cs ! j) \<noteq> k)"
proof (induction cs arbitrary: i rule: rev_induct)
  case Nil
  then show ?case by (simp add: last_of_def)
next
  case (snoc c cs)
  have old: "(cs @ [c]) ! j = cs ! j" if "j < length cs" for j using that by (simp add: nth_append)
  have new: "(cs @ [c]) ! length cs = c" by simp
  show ?case
  proof (cases "change_key c = k")
    case True
    have "i = length cs \<longleftrightarrow> i < length (cs @ [c]) \<and> (\<forall>j. i < j \<and> j < length (cs @ [c]) \<longrightarrow> change_key ((cs @ [c]) ! j) \<noteq> k)"
      using True new by (metis Suc_lessI length_append_singleton lessI less_antisym not_less_eq)
    with True new show ?thesis by (auto simp: last_of_snoc update_conv)
  next
    case False
    have split: "j < length (cs @ [c]) \<and> P j ((cs @ [c]) ! j) \<longleftrightarrow> j < length cs \<and> P j (cs ! j)"
      if "\<not> P (length cs) c" for P :: "nat \<Rightarrow> cloud_change \<Rightarrow> bool" and j
      using that old new by (cases "j = length cs") (auto simp: less_Suc_eq)
    have here: "(i < length (cs @ [c]) \<and> change_key ((cs @ [c]) ! i) = k) \<longleftrightarrow> i < length cs \<and> change_key (cs ! i) = k"
      using split [of "\<lambda>_ d. change_key d = k" i] False by simp
    have later: "(j < length (cs @ [c]) \<and> i < j \<and> change_key ((cs @ [c]) ! j) = k) \<longleftrightarrow> (j < length cs \<and> i < j \<and> change_key (cs ! j) = k)" for j
      using split [of "\<lambda>j d. i < j \<and> change_key d = k" j] False by simp
    have "map_of (last_of (cs @ [c])) k = map_of (last_of cs) k" using False by (simp add: last_of_snoc update_conv)
    moreover have "(\<forall>j. i < j \<and> j < length (cs @ [c]) \<longrightarrow> change_key ((cs @ [c]) ! j) \<noteq> k)
        \<longleftrightarrow> (\<forall>j. i < j \<and> j < length cs \<longrightarrow> change_key (cs ! j) \<noteq> k)"
      by (rule all_cong1) (metis later)
    ultimately show ?thesis using here snoc by (simp only: conj_assoc [symmetric])
  qed
qed

definition is_last :: "cloud_change list \<Rightarrow> nat \<Rightarrow> bool" where
  "is_last cs i \<longleftrightarrow> (\<forall>j. i < j \<and> j < length cs \<longrightarrow> change_key (cs ! j) \<noteq> change_key (cs ! i))"

lemma coalesce_is_last: "coalesce cs = map (\<lambda>i. cs ! i) (filter (is_last cs) [0..<length cs])"
proof -
  have e: "List.enumerate 0 cs = map (\<lambda>i. (i, cs ! i)) [0..<length cs]"
    by (rule nth_equalityI) (simp_all add: nth_enumerate_eq)
  have "filter (\<lambda>(i, c). map_of (last_of cs) (ch_id c, change_class c) = Some i) (map (\<lambda>i. (i, cs ! i)) [0..<length cs])
      = map (\<lambda>i. (i, cs ! i)) (filter (is_last cs) [0..<length cs])"
    unfolding filter_map
    by (rule arg_cong [where f = "map _"], rule filter_cong [OF refl])
      (auto simp: is_last_def map_of_last_of change_class_is_class_of)
  then show ?thesis by (simp add: coalesce_def e comp_def)
qed

lemma keep_last_is_last: "keep_last cs = map (\<lambda>i. cs ! i) (filter (is_last cs) [0..<length cs])"
proof (induction cs)
  case (Cons c cs)
  have up: "[0..<length (c # cs)] = 0 # map Suc [0..<length cs]"
    by (simp add: map_Suc_upt upt_conv_Cons del: upt_Suc)
  have tl: "is_last (c # cs) (Suc i) \<longleftrightarrow> is_last cs i" for i
  proof
    assume a: "is_last (c # cs) (Suc i)"
    show "is_last cs i" unfolding is_last_def
    proof (intro allI impI)
      fix j assume "i < j \<and> j < length cs"
      then show "change_key (cs ! j) \<noteq> change_key (cs ! i)" using a [unfolded is_last_def, rule_format, of "Suc j"] by simp
    qed
  next
    assume a: "is_last cs i"
    show "is_last (c # cs) (Suc i)" unfolding is_last_def
    proof (intro allI impI)
      fix j assume "Suc i < j \<and> j < length (c # cs)"
      then show "change_key ((c # cs) ! j) \<noteq> change_key ((c # cs) ! Suc i)"
        using a [unfolded is_last_def, rule_format, of "j - 1"] by (cases j) simp_all
    qed
  qed
  have "is_last (c # cs) 0 \<longleftrightarrow> (\<forall>j < length cs. change_key (cs ! j) \<noteq> change_key c)"
  proof
    assume a: "is_last (c # cs) 0"
    show "\<forall>j < length cs. change_key (cs ! j) \<noteq> change_key c"
      using a [unfolded is_last_def, rule_format, of "Suc j" for j] by simp
  next
    assume a: "\<forall>j < length cs. change_key (cs ! j) \<noteq> change_key c"
    show "is_last (c # cs) 0" unfolding is_last_def
    proof (intro allI impI)
      fix j assume "0 < j \<and> j < length (c # cs)"
      then show "change_key ((c # cs) ! j) \<noteq> change_key ((c # cs) ! 0)" using a by (cases j) simp_all
    qed
  qed
  then have "is_last (c # cs) 0 \<longleftrightarrow> change_key c \<notin> change_key ` set cs"
    by (metis (no_types, lifting) image_iff in_set_conv_nth)
  then show ?case using Cons unfolding up by (simp add: filter_map comp_def tl del: upt_Suc)
qed simp

text \<open>C19: The hash map of last positions and the filter over the batch select what the specification says:
  of the changes with the same object and class the last one, in the order of the batch.\<close>

theorem coalesce_keeps_the_latest: "coalesce cs = keep_last cs"
  by (simp add: coalesce_is_last keep_last_is_last)

text \<open>A removal and an upsert of one object are of two classes: both are applied.\<close>

lemma coalesce_keeps_two_changes_of_an_object:
  "coalesce [Removed ''A'', Upserted ''A'' ''a'' 1 None] = [Removed ''A'', Upserted ''A'' ''a'' 1 None]"
  by code_simp

end
