(* ===== verification/Watch_Line.thy ===== *)
theory Watch_Line
  imports Texts
begin

text \<open>
  The values of the watch line, \<open>crates/hydration-client/src/wire.rs\<close>: a path is escaped so that it can
  stand as one token of a line of \<open>key=value\<close> pairs.  The bytes that are escaped are ASCII, so the code's
  characters may be taken as bytes.
\<close>

definition escape :: "char \<Rightarrow> string" where
  "escape c =
     (if c = backslash then [backslash, backslash]
      else if c = CHR '' '' then [backslash, CHR ''s'']
      else if c = CHR ''='' then [backslash, CHR ''e'']
      else if c = newline then [backslash, CHR ''n'']
      else if c = CHR 0x0D then [backslash, CHR ''r'']
      else [c])"

definition encode_path :: "string \<Rightarrow> string" where
  "encode_path path = concat (map escape path)"

text \<open>What stands for a backslash and the character after it; what is no escape is kept as it is.\<close>

definition unescape :: "char \<Rightarrow> string" where
  "unescape c =
     (if c = backslash then [backslash]
      else if c = CHR ''s'' then '' ''
      else if c = CHR ''e'' then ''=''
      else if c = CHR ''n'' then [newline]
      else if c = CHR ''r'' then [CHR 0x0D]
      else [backslash, c])"

fun decode_path :: "string \<Rightarrow> string" where
  "decode_path [] = []"
| "decode_path (c # cs) =
     (if c = backslash
      then (case cs of [] \<Rightarrow> [backslash] | other # rest \<Rightarrow> unescape other @ decode_path rest)
      else c # decode_path cs)"

section \<open>What a token is\<close>

definition token_char :: "char \<Rightarrow> bool" where
  "token_char c \<longleftrightarrow> c \<notin> {CHR '' '', CHR ''='', newline, CHR 0x0D}"

lemma decode_escape: "decode_path (escape c @ s) = c # decode_path s"
  by (simp add: escape_def unescape_def)

text \<open>An encoded path is one token, and decodes to itself.\<close>

lemma path_token_round_trip: "decode_path (encode_path path) = path"
  by (induction path) (simp_all add: encode_path_def decode_escape)

lemma encoded_path_is_a_token: "list_all token_char (encode_path path)"
proof (induction path)
  case (Cons c path)
  have "list_all token_char (escape c)" by (simp add: escape_def token_char_def)
  then show ?case using Cons by (simp add: encode_path_def)
qed (simp add: encode_path_def)

text \<open>A token without a backslash is read as it is, as a reader that predates the scheme would.\<close>

lemma plain_token_unchanged: "backslash \<notin> set s \<Longrightarrow> decode_path s = s"
  by (induction s) auto

lemma encode_path_inj: "encode_path p = encode_path q \<longleftrightarrow> p = q"
  by (metis path_token_round_trip)

end
