(* ===== verification/Mount_Table.thy ===== *)
theory Mount_Table
  imports Texts
begin

text \<open>
  Is the sync root a mount of its own: \<open>crates/hydration-client/src/mount.rs\<close>, which reads
  \<open>/proc/self/mountinfo\<close>.  What the file holds is an argument; that the kernel writes a space, a tab, a
  newline and a backslash of a name as a backslash and three octal digits is \<open>kernel_escape\<close>.
\<close>

section \<open>Reading one line\<close>

definition split_once :: "string \<Rightarrow> string \<Rightarrow> (string \<times> string) option" where
  "split_once p s =
     (case List.find (\<lambda>i. prefix p (drop i s)) [0..<Suc (length s)] of
        None \<Rightarrow> None
      | Some i \<Rightarrow> Some (take i s, drop (i + length p) s))"

text \<open>\<open>split_whitespace\<close>, on the bytes of a text: \<open>acc\<close> is the field that is being read, last byte first.\<close>

definition end_field :: "string \<Rightarrow> string list" where
  "end_field acc = (if acc = [] then [] else [rev acc])"

function ws_fields :: "string \<Rightarrow> string \<Rightarrow> string list" where
  "ws_fields acc s =
     (case s of
        [] \<Rightarrow> end_field acc
      | c # rest \<Rightarrow>
          (case List.find (\<lambda>w. w \<noteq> [] \<and> prefix (rev w) s) white_space of
             Some w \<Rightarrow> end_field acc @ ws_fields [] (drop (length w - 1) rest)
           | None \<Rightarrow> ws_fields (c # acc) rest))"
  by pat_completeness auto

termination
  by (relation "measure (length \<circ> snd)") auto

declare ws_fields.simps [simp del]

text \<open>\<open>u8::from_str_radix (_, 8)\<close>\<close>

definition is_octal :: "char \<Rightarrow> bool" where
  "is_octal c \<longleftrightarrow> byte_in 0x30 0x37 c"

definition octal_u8 :: "string \<Rightarrow> nat option" where
  "octal_u8 s =
     (let ds = (case s of c # cs \<Rightarrow> if c = CHR ''+'' then cs else s | [] \<Rightarrow> []);
          v = foldl (\<lambda>n c. 8 * n + (of_char c - 48)) 0 ds
      in if ds \<noteq> [] \<and> list_all is_octal ds \<and> v < 256 then Some v else None)"

text \<open>A byte pushed \<open>as char\<close>: the scalar value of that number, two bytes of UTF-8 from 128 on.\<close>

definition push_byte :: "nat \<Rightarrow> string" where
  "push_byte n = (if n < 128 then [char_of n] else [char_of (0xC0 + n div 64), char_of (0x80 + n mod 64)])"

function unescape_field :: "string \<Rightarrow> string" where
  "unescape_field s =
     (case s of
        [] \<Rightarrow> []
      | b # r \<Rightarrow>
          (case (if b = backslash \<and> 3 \<le> length r then octal_u8 (take 3 r) else None) of
             Some n \<Rightarrow> push_byte n @ unescape_field (drop 3 r)
           | None \<Rightarrow> push_byte (of_char b) @ unescape_field r))"
  by pat_completeness auto

termination
  by (relation "measure length") auto

declare unescape_field.simps [simp del]

definition mount_point_of :: "string \<Rightarrow> string option" where
  "mount_point_of line =
     (case split_once '' - '' line of
        None \<Rightarrow> None
      | Some (left, _) \<Rightarrow>
          (let fields = ws_fields [] left in if 4 < length fields then Some (unescape_field (fields ! 4)) else None))"

text \<open>\<open>target\<close> is the text of the path; a table that is no text is an error of \<open>read_to_string\<close>.\<close>

definition is_mount_point :: "io_error + string \<Rightarrow> string \<Rightarrow> io_error + bool" where
  "is_mount_point info target =
     (case info of
        Inl e \<Rightarrow> Inl e
      | Inr s \<Rightarrow>
          if \<not> is_utf8 s then Inl (Custom InvalidData)
          else Inr (list_ex (\<lambda>line. mount_point_of line = Some target) (str_lines s)))"

section \<open>What the kernel writes\<close>

definition escaped :: "char \<Rightarrow> bool" where
  "escaped c \<longleftrightarrow> c \<in> {CHR '' '', tab, newline, backslash}"

definition octal_digit :: "nat \<Rightarrow> char" where
  "octal_digit n = char_of (48 + n mod 8)"

definition kernel_escape :: "string \<Rightarrow> string" where
  "kernel_escape p =
     concat (map (\<lambda>c. if escaped c
                      then [backslash, octal_digit (of_char c div 64), octal_digit (of_char c div 8), octal_digit (of_char c)]
                      else [c]) p)"

lemma octal_read:
  "escaped c \<Longrightarrow> octal_u8 [octal_digit (of_char c div 64), octal_digit (of_char c div 8), octal_digit (of_char c)] = Some (of_char c)"
  unfolding escaped_def by (elim insertE emptyE; simp; code_simp)

lemma unescape_kernel: "unescape_field (kernel_escape p) = concat (map (\<lambda>c. push_byte (of_char c)) p)"
proof (induction p)
  case (Cons c p)
  show ?case
  proof (cases "escaped c")
    case True
    then show ?thesis using Cons octal_read [OF True]
      by (subst unescape_field.simps) (simp add: kernel_escape_def numeral_3_eq_3)
  next
    case False
    then have "c \<noteq> backslash" by (simp add: escaped_def)
    with False Cons show ?thesis by (subst unescape_field.simps) (simp add: kernel_escape_def)
  qed
qed (simp add: kernel_escape_def unescape_field.simps)

text \<open>An ASCII name is read back as it is; any other comes back longer than it is, so it is never found.\<close>

lemma push_ascii: "byte_in 0 0x7F c \<Longrightarrow> push_byte (of_char c) = [c]"
  by (simp add: push_byte_def byte_in_def)

lemma push_longer: "1 \<le> length (push_byte n)"
  by (simp add: push_byte_def)

lemma unescape_ascii: "list_all (byte_in 0 0x7F) p \<Longrightarrow> unescape_field (kernel_escape p) = p"
  unfolding unescape_kernel by (induction p) (simp_all add: push_ascii)

lemma unescape_length: "length p \<le> length (concat (map (\<lambda>c. push_byte (of_char c)) p))"
proof (induction p)
  case (Cons c p)
  with push_longer [of "of_char c"] show ?case by simp
qed simp

lemma non_ascii_mount_is_never_found:
  assumes "\<not> list_all (byte_in 0 0x7F) p"
  shows "unescape_field (kernel_escape p) \<noteq> p"
proof -
  obtain a c b where p: "p = a @ c # b" and c: "\<not> byte_in 0 0x7F c"
    using assms by (auto simp: list_all_iff dest: split_list)
  have "length (push_byte (of_char c)) = 2" using c by (simp add: push_byte_def byte_in_def)
  then have "length p < length (unescape_field (kernel_escape p))"
    using unescape_length [of a] unescape_length [of b] by (simp add: unescape_kernel p)
  then show ?thesis by auto
qed

section \<open>Reading what the kernel writes\<close>

text \<open>A field that no byte of which may begin a white space.\<close>

definition no_white :: "string \<Rightarrow> bool" where
  "no_white f \<longleftrightarrow> f \<noteq> [] \<and> list_all (\<lambda>c. \<not> list_ex (\<lambda>w. last w = c) white_space) f"

lemma white_space_nonempty: "w \<in> set white_space \<Longrightarrow> w \<noteq> []"
  by (auto simp: white_space_def)

lemma no_space_starts:
  assumes "\<not> list_ex (\<lambda>w. last w = c) white_space"
  shows "List.find (\<lambda>w. w \<noteq> [] \<and> prefix (rev w) (c # s)) white_space = None"
proof -
  have "last w = c" if "w \<noteq> []" "prefix (rev w) (c # s)" for w
    using that by (cases w rule: rev_cases) auto
  then show ?thesis using assms by (auto simp: find_None_iff list_ex_iff)
qed

lemma space_found: "List.find (\<lambda>w. w \<noteq> [] \<and> prefix (rev w) (CHR '' '' # s)) white_space = Some '' ''"
  by (simp add: white_space_def)

lemma ws_fields_field:
  "list_all (\<lambda>c. \<not> list_ex (\<lambda>w. last w = c) white_space) f \<Longrightarrow> ws_fields acc (f @ s) = ws_fields (rev f @ acc) s"
proof (induction f arbitrary: acc)
  case (Cons c f)
  then show ?case by (subst ws_fields.simps) (simp add: no_space_starts)
qed simp

lemma ws_fields_join: "list_all no_white fs \<Longrightarrow> ws_fields [] (join_with (CHR '' '') fs) = fs"
proof (induction "CHR '' ''" fs rule: join_with.induct)
  case 1
  show ?case by (simp add: ws_fields.simps end_field_def)
next
  case (2 s)
  then show ?case using ws_fields_field [of s "[]" "[]"]
    by (simp add: no_white_def ws_fields.simps [of _ "[]"] end_field_def)
next
  case (3 s t ts)
  let ?r = "join_with (CHR '' '') (t # ts)"
  have "ws_fields [] (s @ CHR '' '' # ?r) = ws_fields (rev s) (CHR '' '' # ?r)"
    using 3(2) ws_fields_field [of s "[]" "CHR '' '' # ?r"] by (simp add: no_white_def)
  also have "\<dots> = s # ws_fields [] ?r"
    using 3(2) by (subst ws_fields.simps) (simp add: space_found end_field_def no_white_def)
  finally show ?case using 3 by simp
qed

text \<open>The mount point of a line is read back exactly when its name is ASCII: a directory whose name has any
  other character is not found in the table, and is taken for no mount although it is one.\<close>

theorem mount_point_found_iff_ascii:
  assumes "split_once '' - '' line = Some (join_with (CHR '' '') fs, right)" "list_all no_white fs"
    and "4 < length fs" "fs ! 4 = kernel_escape p"
  shows "mount_point_of line = Some p \<longleftrightarrow> list_all (byte_in 0 0x7F) p"
  using assms unescape_ascii [of p] non_ascii_mount_is_never_found [of p]
  by (auto simp: mount_point_of_def ws_fields_join)

text \<open>\<open>/home/frank/My Documents\<close>, and a directory with the letter U+00F8 in its name.\<close>

lemma mount_point_examples:
  "is_mount_point (Inr (''31 64 0:34 / /home/frank/My'' @ backslash # ''040Documents rw - btrfs /dev/x rw''))
      ''/home/frank/My Documents'' = Inr True \<and>
   is_mount_point (Inr (''31 64 0:34 / /home/'' @ [CHR 0xC3, CHR 0xB8] @ '' rw - btrfs /dev/x rw''))
      (''/home/'' @ [CHR 0xC3, CHR 0xB8]) = Inr False"
  by code_simp

end
