(* ===== verification/Spec2Isabelle.thy ===== *)
theory Spec2Isabelle
  imports Ranges Partial_Fill Policy Placeholder Transport Remote Timed Supervisor Worker Changes Evict Evict_Plan Upload Namespace_Feed Place_Atomic Delta_Laws Watch_Line Mount_Table
begin

text \<open>
  A verification development for HydrationAPI: files that live in a cloud and are fetched when they
  are first read.

  \<^bold>\<open>The program.\<close>  A placeholder is a sparse file of the right size with a mark (an extended
  attribute) that says its content is not there.  A privileged helper (\<open>crates/hydrationd\<close>) receives
  the kernel's pre-content events through fanotify, and before it lets a read go on it fetches the
  bytes from an unprivileged daemon over a socket (\<open>crates/hydration-protocol\<close>).  The daemon
  (\<open>crates/hydration-client\<close>) talks to the provider, applies the changes of the cloud to the directory
  and uploads the changes of the user.

  \<^bold>\<open>Base.\<close>  \<^verbatim>\<open>Prelude\<close> has the machine integers, the saturating operations, the error kinds of
  \<open>std::io\<close> and the lemma collections.  \<^verbatim>\<open>Span\<close>, \<^verbatim>\<open>Ranges\<close> (\<open>partial.rs\<close>) are byte ranges, refined to sets
  of bytes.  \<^verbatim>\<open>Kernel_File\<close> is one inode under faults: each system call consumes one entry of a plan
  that says whether it fails, so a theorem over all plans is a theorem over all combinations of faults
  (a crash between two calls is a plan that fails from there on).  \<^verbatim>\<open>Texts\<close> has the string functions of
  the standard library that the client uses, on byte strings.

  \<^bold>\<open>The helper.\<close>  \<^verbatim>\<open>Attributes\<close>: the flag, the stamp and the acquisition time
  (\<open>hydration-protocol/src/lib.rs\<close>).  \<^verbatim>\<open>Placeholder\<close>: \<open>placeholder.rs\<close>, filling and emptying a file, with
  the theorems that it is marked or complete at every point where it may stop, and the two places where
  it is not.  \<^verbatim>\<open>Partial_Fill\<close>: the memory of partly filled files.  \<^verbatim>\<open>Policy\<close>: who may read, and the logs.
  \<^verbatim>\<open>Wire\<close>, \<^verbatim>\<open>Transport\<close>: messages and frames of the socket, both ends; the JSON coder is a parameter
  with the hypothesis \<open>codec_ok\<close>, of which \<^verbatim>\<open>Sample_Codec\<close> is an instance.  \<^verbatim>\<open>Fetch_Effects\<close>, \<^verbatim>\<open>Remote\<close>:
  \<open>remote.rs\<close>, a fetch with its single retry.  \<^verbatim>\<open>Timed\<close>: \<open>Timed\<close> of \<open>daemon.rs\<close>, a fetch with deadlines on a
  thread that may hang.  \<^verbatim>\<open>Fanotify\<close>: the event decoder.  \<^verbatim>\<open>Worker\<close>: \<open>daemon.rs\<close>, the answer to one event
  as a whole, which composes all of the above.  \<^verbatim>\<open>Supervisor\<close>: the process that outlives the worker.
  \<^verbatim>\<open>Changes\<close>: reports of local changes.  \<^verbatim>\<open>Evict\<close>: \<open>evict.rs\<close> and the construction of placeholders.

  \<^bold>\<open>The daemon.\<close>  \<^verbatim>\<open>Names\<close>: reserved names and the ignore rules.  \<^verbatim>\<open>Lineage\<close>: \<open>lineage.rs\<close>, which object
  was at which path.  \<^verbatim>\<open>Client_Store\<close>: \<open>store.rs\<close>, the scan of the directory and the attributes.
  \<^verbatim>\<open>Upload_Queue\<close>, \<^verbatim>\<open>Upload\<close>: \<open>upload.rs\<close>, over a directory that the user may change between any two
  steps (\<open>cl_plan\<close>); the queue is also taken with the list of due files that the driver of \<open>daemon_loop.rs\<close>
  works through, which may be out of date by the time a file is begun.  \<^verbatim>\<open>Evict_Plan\<close>: \<open>evict_policy.rs\<close>.
  \<^verbatim>\<open>Worklist\<close>: a loop that takes work from a stack and may push more, with the conditions under which
  it ends.  \<^verbatim>\<open>Namespace\<close>: \<open>namespace.rs\<close>, the mirror of the cloud's folder tree that turns a feed of items
  into changes of paths; \<^verbatim>\<open>Namespace_Tree\<close>, \<^verbatim>\<open>Namespace_Mirror\<close>, \<^verbatim>\<open>Namespace_Feed\<close> show that it stays a tree and
  that its changes replay to what its listing gives.

  \<^bold>\<open>The directory.\<close>  \<^verbatim>\<open>Sync_Dir\<close> is the directory tree as \<open>place.rs\<close> and \<open>delta.rs\<close> reach it, through system
  calls between which others may act (\<open>sd_user\<close>) and each of which may fail (\<open>cl_plan\<close>); \<open>sd_gone\<close> is a
  ghost that logs every file whose last name goes.  \<^verbatim>\<open>Place\<close>, \<^verbatim>\<open>Place_Sweep\<close>, \<^verbatim>\<open>Place_Atomic\<close>: \<open>place.rs\<close> and
  the identity of a mount (\<open>hydration-protocol/src/mount.rs\<close>), placing a file by linking and renaming,
  replacing one only when it is still the one approved, and the sweep of what a crash left.
  \<^verbatim>\<open>Delta\<close>, \<^verbatim>\<open>Delta_Safety\<close>, \<^verbatim>\<open>Delta_Laws\<close>: \<open>delta.rs\<close>, one pass over a batch of changes, what it may destroy, and
  the paths it may reach.  \<^verbatim>\<open>Mount_Table\<close>: \<open>mount.rs\<close> of the client, which looks for the sync root in the
  kernel's table of mounts and misses it when its name is not ASCII.  \<^verbatim>\<open>Watch_Line\<close>: \<open>wire.rs\<close>, paths as
  tokens of the status line.

  \<^bold>\<open>Bounds.\<close>  Sizes and offsets are 64-bit words; where a theorem needs an offset not to wrap it says so.
  Sequence numbers are words with the hypothesis that fewer than \<open>2 ^ 64\<close> jobs are sent.  Every loop is a
  total function: the ones that wait (\<open>run_loop\<close>, \<open>watch_loop\<close>, \<open>drain\<close>) end by their deadlines, with a
  measure of the time left.  \<open>Never\<close> is the result of a read from a peer that sends nothing more.
  Times are natural numbers of milliseconds, which do not overflow where a \<open>Duration\<close> would panic; a pass of
  the supervisor takes its fixed sleep and no longer; the bounded channel to the fetch thread is a list; a
  call interrupted by a signal is not told from one that succeeds, as the standard library repeats it.
  \<open>sd_gone\<close>, \<open>wd_trace\<close> (\<^verbatim>\<open>Worker\<close>) and \<open>tm_beats\<close> (\<^verbatim>\<open>Timed\<close>) are ghosts: logs of what the code did that no
  step reads.

  \<^bold>\<open>Interfaces.\<close>  \<open>byte_ranges\<close> (\<^verbatim>\<open>Ranges\<close>) is what the worker relies on of the byte sets, \<open>chunk_sink\<close>
  (\<^verbatim>\<open>Transport\<close>) what a receiver promises the framing, \<open>fetch_contract\<close> (\<^verbatim>\<open>Fetch_Effects\<close>) what a source of
  content promises the worker; each is interpreted on the model's own definitions.

  \<^bold>\<open>Not modelled.\<close>  The Graph provider (HTTP, OAuth and JSON documents of one service), the executables,
  the start-up checks that read \<open>/proc\<close>, and the adapters; of the client, \<open>removals.rs\<close>, \<open>reclaim.rs\<close>,
  \<open>manifest.rs\<close>, the provider daemon of \<open>lib.rs\<close> and \<open>daemon_loop.rs\<close> beyond the driver of uploads.
\<close>

end
